(* ===== verification/Prelude.thy ===== *)
theory Prelude
  imports Main "HOL-Library.Word"
begin

text \<open>
  Shared ground of the development: the types every component uses (bytes, byte
  slices, big-endian integers), the package's errors as one datatype, the model of
  \<^verbatim>\<open>io.ReadFull\<close>, \<^verbatim>\<open>io.CopyN\<close> and \<^verbatim>\<open>crypto/rand\<close> that the components call, and the
  contract of a prefix codec (a locale), interpreted on the big-endian integers here
  and on addresses in \<^verbatim>\<open>Address\<close>.

  Conventions. A Go slice or array of bytes is a \<open>byte list\<close>; the length of an array
  type is a well-formedness condition of the values. An error is a value of
  \<open>ewp_error\<close>; a call that returns \<^verbatim>\<open>(T, error)\<close> has the type \<open>ewp_error + T\<close>
  (\<open>Inl\<close> the error). \<^verbatim>\<open>fmt.Errorf("text: %w", err)\<close> is \<open>ErrWrap\<close>.
\<close>

unbundle bit_operations_syntax

type_synonym byte = "8 word"
type_synonym bytes = "byte list"
type_synonym u16 = "16 word"
type_synonym u32 = "32 word"
type_synonym u64 = "64 word"

named_theorems ewp_consts "the numeric constants of the package, unfolded"
named_theorems wire_simps "lengths and shapes of wire encodings"

section \<open>Errors\<close>

text \<open>
  The sentinels of \<^verbatim>\<open>address.go\<close>, \<^verbatim>\<open>frame.go\<close>, \<^verbatim>\<open>handshake.go\<close>, \<^verbatim>\<open>anti_replay.go\<close>
  and \<^verbatim>\<open>kdf.go\<close>, the errors of the standard library that the code hands on, and one
  constructor per error text that the code builds with \<^verbatim>\<open>errors.New\<close> or
  \<^verbatim>\<open>fmt.Errorf\<close> in place.
\<close>

datatype ewp_error =
    ErrAddrTooShort | ErrAddrType | ErrDomainLen | ErrInvalidAddress
  | ErrFrameTooLarge | ErrFrameTooShort | ErrFrameType | ErrMetaTooLarge
  | ErrPadTooLarge | ErrAEADOpen | ErrCounterMismatch
  | ErrHandshakeShort | ErrHandshakeLong | ErrOuterMAC | ErrAEADHandshake
  | ErrTimestamp | ErrUUIDMismatch | ErrCommand | ErrServerStatus byte
  | ErrUnknownUUID | ErrPlaintextLayout | ErrReplay | ErrShortKDF | ErrHKDFLimit
  | ErrUUIDFormat | ErrUUIDHex
  | ErrKeyLen | ErrKeygen | ErrPublicKey | ErrECDH | ErrDecapsulate | ErrKEMSize nat
  | ErrMetaShort | ErrUnexpectedFrame byte | ErrUnsupportedCommand byte
  | ErrNoUsers | ErrNilDeref | ErrNetAddr | ErrHandler nat
  | EOF | ErrUnexpectedEOF | ErrClosedPipe | ErrClosedConn | ErrConnWrite | ErrDeadlineExceeded
  | ErrWrap string ewp_error
  | Panic string ewp_error

text \<open>
  A \<^verbatim>\<open>panic\<close> is the value \<open>Panic\<close>, handed on by every caller; the package recovers from
  none.
\<close>

fun is_panic :: "ewp_error \<Rightarrow> bool" where
  "is_panic (Panic _ _) = True"
| "is_panic _ = False"

text \<open>\<^verbatim>\<open>errors.Is(err, target)\<close> for the wrapped errors: unwrap until the root cause.\<close>

fun root_cause :: "ewp_error \<Rightarrow> ewp_error" where
  "root_cause (ErrWrap s e) = root_cause e"
| "root_cause e = e"

section \<open>Big-endian integers\<close>

text \<open>
  \<^verbatim>\<open>binary.BigEndian.PutUint16/32/64\<close> and \<^verbatim>\<open>Uint16/32/64\<close>: \<open>put_be n x\<close> is the
  \<open>n\<close> low bytes of \<open>x\<close>, most significant first; \<open>get_be\<close> reads all bytes it is
  given.
\<close>

primrec put_be :: "nat \<Rightarrow> 'a::len word \<Rightarrow> bytes" where
  "put_be 0 x = []"
| "put_be (Suc n) x = put_be n (drop_bit 8 x) @ [ucast x]"

definition get_be :: "bytes \<Rightarrow> 'a::len word" where
  "get_be bs = foldl (\<lambda>acc b. push_bit 8 acc OR ucast b) 0 bs"

lemma length_put_be [simp, wire_simps]: "length (put_be n x) = n"
  by (induction n arbitrary: x) auto

lemma get_be_snoc: "get_be (bs @ [b]) = push_bit 8 (get_be bs) OR ucast b"
  by (simp add: get_be_def)

lemma get_be_Nil [simp]: "get_be [] = 0"
  by (simp add: get_be_def)

lemma get_put_be_take: "get_be (put_be n x) = take_bit (8 * n) x"
proof (induction n arbitrary: x)
  case (Suc n)
  have "push_bit 8 (take_bit (8 * n) (drop_bit 8 x)) OR ucast (ucast x :: byte) =
      take_bit (8 * Suc n) x"
    by (rule bit_eqI) (auto simp: bit_simps)
  then show ?case by (simp add: get_be_snoc Suc.IH)
qed simp

lemma get_put_be: "LENGTH('a) \<le> 8 * n \<Longrightarrow> get_be (put_be n x) = (x :: 'a::len word)"
  by (simp add: get_put_be_take take_bit_word_eq_self)

lemma put_get_be:
  "8 * length bs \<le> LENGTH('a) \<Longrightarrow> put_be (length bs) (get_be bs :: 'a::len word) = bs"
proof (induction bs rule: rev_induct)
  case (snoc b bs)
  let ?g = "get_be bs :: 'a word"
  have "?g = take_bit (8 * length bs) ?g"
    using get_put_be_take [of "length bs" ?g] snoc by simp
  then have high: "bit ?g i \<Longrightarrow> i < 8 * length bs" for i
    by (metis bit_take_bit_iff)
  have "drop_bit 8 (push_bit 8 ?g OR ucast b) = ?g"
    by (rule bit_eqI)
      (use snoc.prems in \<open>auto simp: bit_simps dest: high bit_imp_le_length\<close>)
  moreover have "ucast (push_bit 8 ?g OR ucast b) = b"
    by (rule bit_eqI) (use snoc.prems in \<open>auto simp: bit_simps\<close>)
  ultimately show ?case
    using snoc by (simp add: get_be_snoc)
qed simp

section \<open>Slices\<close>

text \<open>\<open>subslice i j xs\<close> is Go's \<^verbatim>\<open>xs[i:j]\<close> for \<open>i \<le> j \<le> length xs\<close>.\<close>

definition subslice :: "nat \<Rightarrow> nat \<Rightarrow> 'a list \<Rightarrow> 'a list" where
  "subslice i j xs = take (j - i) (drop i xs)"

lemma length_subslice [simp, wire_simps]:
  "j \<le> length xs \<Longrightarrow> length (subslice i j xs) = j - i"
  by (simp add: subslice_def)

lemma subslice_append_left [simp]: "j \<le> length xs \<Longrightarrow> subslice i j (xs @ ys) = subslice i j xs"
  by (simp add: subslice_def)

lemma subslice_append_right [simp]:
  "length xs \<le> i \<Longrightarrow> subslice i j (xs @ ys) = subslice (i - length xs) (j - length xs) ys"
  by (simp add: subslice_def)

lemma subslice_all [simp]: "subslice 0 (length xs) xs = xs"
  by (simp add: subslice_def)

lemma subslice_0 [simp]: "subslice 0 n xs = take n xs"
  by (simp add: subslice_def)

lemma subslice_Cons [simp]:
  "subslice (Suc i) (Suc j) (x # xs) = subslice i j xs"
  "subslice (numeral v) j (x # xs) = subslice (pred_numeral v) (j - 1) xs"
  "subslice (Suc i) (numeral w) (x # xs) = subslice i (pred_numeral w) xs"
  unfolding subslice_def numeral_eq_Suc [of v] by simp_all

lemma subslice_full: "n = length xs \<Longrightarrow> subslice 0 n xs = xs"
  by simp

lemma take_subslice: "i \<le> j \<Longrightarrow> take i xs @ subslice i j xs = take j xs"
  by (metis le_add_diff_inverse subslice_def take_add)

lemma subslice_chain:
  "i \<le> j \<Longrightarrow> j \<le> k \<Longrightarrow> subslice i j xs @ subslice j k xs = subslice i k xs"
  using take_add [of "j - i" "k - j" "drop i xs"] by (simp add: subslice_def add.commute)

lemma subslice_single: "i < length xs \<Longrightarrow> subslice i (Suc i) xs = [xs ! i]"
  by (simp add: subslice_def take_Suc hd_drop_conv_nth)

text \<open>\<^verbatim>\<open>copy(a[:], src)\<close> into a zeroed array of \<open>n\<close> bytes.\<close>

definition array_copy :: "nat \<Rightarrow> bytes \<Rightarrow> bytes" where
  "array_copy n src = take n src @ replicate (n - length src) 0"

lemma array_copy_id [simp]: "length src = n \<Longrightarrow> array_copy n src = src"
  by (simp add: array_copy_def)

lemma length_array_copy [simp]: "length (array_copy n src) = n"
  by (simp add: array_copy_def)

section \<open>Readers and randomness\<close>

text \<open>
  A reader is the list of the bytes it still holds. \<open>io_ReadFull n r\<close> is
  \<^verbatim>\<open>io.ReadFull(r, buf)\<close> with \<^verbatim>\<open>len(buf) = n\<close>: all \<open>n\<close> bytes, or \<^verbatim>\<open>EOF\<close> when there
  is none at all, or \<^verbatim>\<open>ErrUnexpectedEOF\<close> when the reader ends early (what was read is
  gone). \<open>io_CopyN_discard\<close> is \<^verbatim>\<open>io.CopyN(io.Discard, r, n)\<close>. The same reader
  models \<^verbatim>\<open>crand.Reader\<close>: the random bytes it will hand out, and a failing read once
  they are used up.
\<close>

definition io_ReadFull :: "nat \<Rightarrow> bytes \<Rightarrow> (ewp_error + bytes) \<times> bytes" where
  "io_ReadFull n r =
     (if n \<le> length r then (Inr (take n r), drop n r)
      else if r = [] then (Inl EOF, [])
      else (Inl ErrUnexpectedEOF, []))"

definition io_CopyN_discard :: "nat \<Rightarrow> bytes \<Rightarrow> ewp_error option \<times> bytes" where
  "io_CopyN_discard n r =
     (if n \<le> length r then (None, drop n r) else (Some EOF, []))"

lemma io_ReadFull_append [simp]:
  "n = length xs \<Longrightarrow> io_ReadFull n (xs @ ys) = (Inr xs, ys)"
  by (simp add: io_ReadFull_def)

lemma io_ReadFull_Inr:
  "io_ReadFull n r = (Inr xs, r') \<longleftrightarrow> n \<le> length r \<and> xs = take n r \<and> r' = drop n r"
  by (auto simp: io_ReadFull_def)

lemma io_CopyN_discard_append [simp]:
  "n = length xs \<Longrightarrow> io_CopyN_discard n (xs @ ys) = (None, ys)"
  by (simp add: io_CopyN_discard_def)

lemma io_CopyN_discard_None:
  "io_CopyN_discard n r = (None, r') \<longleftrightarrow> n \<le> length r \<and> r' = drop n r"
  by (auto simp: io_CopyN_discard_def)

section \<open>Go integer arithmetic\<close>

text \<open>Integer division and remainder of Go truncate towards zero.\<close>

definition go_div :: "int \<Rightarrow> int \<Rightarrow> int" where
  "go_div a b = sgn a * sgn b * (\<bar>a\<bar> div \<bar>b\<bar>)"

lemma go_div_nonneg: "0 \<le> a \<Longrightarrow> 0 < b \<Longrightarrow> go_div a b = a div b"
  by (cases "a = 0") (auto simp: go_div_def)

section \<open>The contract of a prefix codec\<close>

text \<open>
  An encoder and a decoder of values at the front of a buffer: a well-formed value is
  read back, with the number of bytes it took, whatever follows; what the decoder
  accepts is the encoding of the value it returns.
\<close>

locale prefix_codec =
  fixes ok :: "'a \<Rightarrow> bool"
    and enc :: "'a \<Rightarrow> bytes"
    and dec :: "bytes \<Rightarrow> ewp_error + 'a \<times> nat"
  assumes dec_enc: "ok x \<Longrightarrow> dec (enc x @ rest) = Inr (x, length (enc x))"
    and dec_sound: "dec buf = Inr (x, n) \<Longrightarrow> ok x \<and> n \<le> length buf \<and> enc x = take n buf"
begin

lemma dec_len: "dec buf = Inr (x, n) \<Longrightarrow> n = length (enc x)"
  by (auto dest: dec_sound)

lemma dec_enc_exact: "ok x \<Longrightarrow> dec (enc x) = Inr (x, length (enc x))"
  using dec_enc [of x "[]"] by simp

lemma prefix_free:
  assumes "ok x" and "ok y" and "enc x @ s = enc y @ t"
  shows "x = y \<and> s = t"
proof -
  have "Inr (x, length (enc x)) = (Inr (y, length (enc y)) :: ewp_error + 'a \<times> nat)"
    using dec_enc [OF assms(1), of s] dec_enc [OF assms(2), of t] assms(3) by simp
  with assms(3) show ?thesis by simp
qed

lemma enc_inj: "ok x \<Longrightarrow> ok y \<Longrightarrow> enc x = enc y \<Longrightarrow> x = y"
  using prefix_free [of x y "[]" "[]"] by simp

lemma dec_unique:
  assumes "dec buf = Inr (x, n)" and "ok y" and "buf = enc y @ rest"
  shows "x = y \<and> n = length (enc y)"
  using dec_enc [OF assms(2), of rest] assms(1,3) by auto

lemma dec_prefix:
  assumes "dec buf = Inr (x, n)"
  shows "dec (buf @ more) = Inr (x, n)"
proof -
  from dec_sound [OF assms] have ok: "ok x" and enc: "enc x = take n buf" and n: "n \<le> length buf"
    by auto
  then have "buf @ more = enc x @ drop n buf @ more"
    by simp
  then show ?thesis
    using dec_enc [OF ok, of "drop n buf @ more"] dec_len [OF assms] by (simp only:)
qed

end

text \<open>The big-endian readers of the package are prefix codecs at their widths.\<close>

definition read_be :: "nat \<Rightarrow> bytes \<Rightarrow> ewp_error + 'a::len word \<times> nat" where
  "read_be n buf = (if length buf < n then Inl ErrUnexpectedEOF
                    else Inr (get_be (take n buf), n))"

lemma read_be_codec:
  assumes "LENGTH('a::len) = 8 * n"
  shows "prefix_codec (\<lambda>_. True) (put_be n) (read_be n :: bytes \<Rightarrow> ewp_error + 'a word \<times> nat)"
proof
  fix x :: "'a word" and rest
  show "read_be n (put_be n x @ rest) = Inr (x, length (put_be n x))"
    using assms by (simp add: read_be_def get_put_be)
next
  fix buf and x :: "'a word" and k
  assume "read_be n buf = Inr (x, k)"
  then have k: "k = n" and n: "n \<le> length buf" and x: "x = get_be (take n buf)"
    by (auto simp: read_be_def split: if_splits)
  have "put_be (length (take n buf)) x = take n buf"
    unfolding x by (rule put_get_be) (use assms n in simp)
  with k n show "True \<and> k \<le> length buf \<and> put_be n x = take k buf"
    by simp
qed

interpretation be16: prefix_codec "\<lambda>_. True" "put_be 2" "read_be 2 :: bytes \<Rightarrow> ewp_error + u16 \<times> nat"
  by (rule read_be_codec) simp

interpretation be32: prefix_codec "\<lambda>_. True" "put_be 4" "read_be 4 :: bytes \<Rightarrow> ewp_error + u32 \<times> nat"
  by (rule read_be_codec) simp

interpretation be64: prefix_codec "\<lambda>_. True" "put_be 8" "read_be 8 :: bytes \<Rightarrow> ewp_error + u64 \<times> nat"
  by (rule read_be_codec) simp

lemma get_put_be16 [simp]: "get_be (put_be 2 (x :: u16)) = x"
  and get_put_be32 [simp]: "get_be (put_be 4 (y :: u32)) = y"
  and get_put_be64 [simp]: "get_be (put_be 8 (z :: u64)) = z"
  by (simp_all add: get_put_be)

lemma put_get_be16 [simp]: "length bs = 2 \<Longrightarrow> put_be 2 (get_be bs :: u16) = bs"
  and put_get_be32 [simp]: "length bs = 4 \<Longrightarrow> put_be 4 (get_be bs :: u32) = bs"
  and put_get_be64 [simp]: "length bs = 8 \<Longrightarrow> put_be 8 (get_be bs :: u64) = bs"
  using put_get_be [of bs, where 'a = 16] put_get_be [of bs, where 'a = 32]
    put_get_be [of bs, where 'a = 64] by simp_all

lemma uint_u32: "0 \<le> n \<Longrightarrow> n < 2 ^ 32 \<Longrightarrow> uint (word_of_int n :: u32) = n"
  by (simp add: take_bit_int_eq_self unsigned_of_int)

lemma unat_u16: "n < 2 ^ 16 \<Longrightarrow> unat (word_of_nat n :: u16) = n"
  by (simp add: unat_of_nat)

lemma unat_u16_less: "unat (x :: u16) < 2 ^ 16"
  using unsigned_less [of x, where ?'a = nat] by simp

lemma unat_u64: "n < 2 ^ 64 \<Longrightarrow> unat (word_of_nat n :: u64) = n"
  by (simp add: unat_of_nat)

lemma of_nat_u64_inj: "i < 2 ^ 64 \<Longrightarrow> j < 2 ^ 64 \<Longrightarrow> (word_of_nat i :: u64) = word_of_nat j \<longleftrightarrow> i = j"
  using unat_u64 by metis

lemma put_be64_inj: "put_be 8 (x :: u64) = put_be 8 y \<longleftrightarrow> x = y"
  by (metis get_put_be64)

end
