(* ===== verification/Address.thy ===== *)
theory Address
  imports Prelude
begin

text \<open>
  \<^verbatim>\<open>src/address.go\<close>: the destination addresses of the protocol and their wire form.
  \<^verbatim>\<open>netip.Addr\<close> is the datatype \<open>netip_Addr\<close> (invalid, 4 bytes, or 16 bytes and a zone),
  \<^verbatim>\<open>netip.AddrPort\<close> the record \<open>AddrPort\<close>, the struct \<^verbatim>\<open>Address\<close> the record \<open>Address\<close>.
  A Go string is the list of its bytes. \<^verbatim>\<open>Address.String\<close>, which only serves logs, is
  left out.

  Shown: the two directions of the codec (what is appended is read back, whatever
  follows; what is read is exactly what appending writes), that \<^verbatim>\<open>EncodedLen\<close> is the
  length written, that \<^verbatim>\<open>Append\<close> fails without touching its buffer, and that a
  truncated encoding is always reported as truncated. \<open>addr_codec\<close> interprets the
  codec contract of \<^verbatim>\<open>Prelude\<close> for the clients of this component.
\<close>

section \<open>Data\<close>

datatype netip_Addr =
    AddrInvalid
  | AddrFrom4 bytes
  | AddrFrom16 bytes string

record AddrPort =
  ap_ip :: netip_Addr
  ap_port :: u16

record Address =
  addr_Addr :: AddrPort
  addr_Domain :: bytes
  addr_Port :: u16

definition AddrPort_zero :: AddrPort where
  "AddrPort_zero = \<lparr>ap_ip = AddrInvalid, ap_port = 0\<rparr>"

definition Address_zero :: Address where
  "Address_zero = \<lparr>addr_Addr = AddrPort_zero, addr_Domain = [], addr_Port = 0\<rparr>"

definition AddrTypeIPv4 :: byte where "AddrTypeIPv4 = 0x01"
definition AddrTypeIPv6 :: byte where "AddrTypeIPv6 = 0x02"
definition AddrTypeDomain :: byte where "AddrTypeDomain = 0x03"
definition MaxDomainLen :: nat where "MaxDomainLen = 253"

declare AddrTypeIPv4_def [ewp_consts] AddrTypeIPv6_def [ewp_consts]
  AddrTypeDomain_def [ewp_consts] MaxDomainLen_def [ewp_consts]

text \<open>The methods of \<^verbatim>\<open>netip.Addr\<close> and \<^verbatim>\<open>netip.AddrPort\<close> the package calls.\<close>

fun Addr_Is4 :: "netip_Addr \<Rightarrow> bool" where
  "Addr_Is4 (AddrFrom4 _) = True"
| "Addr_Is4 _ = False"

fun Addr_Is6 :: "netip_Addr \<Rightarrow> bool" where
  "Addr_Is6 (AddrFrom16 _ _) = True"
| "Addr_Is6 _ = False"

fun Addr_bytes :: "netip_Addr \<Rightarrow> bytes" where
  "Addr_bytes AddrInvalid = []"
| "Addr_bytes (AddrFrom4 b) = b"
| "Addr_bytes (AddrFrom16 b _) = b"

definition AddrPort_IsValid :: "AddrPort \<Rightarrow> bool" where
  "AddrPort_IsValid p \<longleftrightarrow> ap_ip p \<noteq> AddrInvalid"

text \<open>The array types behind the constructors: 4 and 16 bytes.\<close>

fun wf_netip :: "netip_Addr \<Rightarrow> bool" where
  "wf_netip AddrInvalid = True"
| "wf_netip (AddrFrom4 b) = (length b = 4)"
| "wf_netip (AddrFrom16 b _) = (length b = 16)"

definition wf_Address :: "Address \<Rightarrow> bool" where
  "wf_Address a \<longleftrightarrow> wf_netip (ap_ip (addr_Addr a))"

section \<open>Operations\<close>

definition IsDomain :: "Address \<Rightarrow> bool" where
  "IsDomain a \<longleftrightarrow> addr_Domain a \<noteq> []"

definition EncodedLen :: "Address \<Rightarrow> nat" where
  "EncodedLen a =
     (if IsDomain a then 1 + 1 + length (addr_Domain a) + 2
      else if Addr_Is6 (ap_ip (addr_Addr a)) then 1 + 16 + 2
      else 1 + 4 + 2)"

text \<open>\<^verbatim>\<open>byte(p>>8), byte(p)\<close>.\<close>

definition port_bytes :: "u16 \<Rightarrow> bytes" where
  "port_bytes p = [ucast (drop_bit 8 p), ucast p]"

definition Address_Append :: "Address \<Rightarrow> bytes \<Rightarrow> bytes \<times> ewp_error option" where
  "Address_Append a dst =
     (let d = addr_Domain a; ap = addr_Addr a in
      if IsDomain a then
        if length d = 0 \<or> length d > MaxDomainLen then (dst, Some ErrDomainLen)
        else (dst @ [AddrTypeDomain, word_of_nat (length d)] @ d @ port_bytes (addr_Port a), None)
      else if AddrPort_IsValid ap \<and> Addr_Is4 (ap_ip ap) then
        (dst @ [AddrTypeIPv4] @ Addr_bytes (ap_ip ap) @ port_bytes (ap_port ap), None)
      else if AddrPort_IsValid ap \<and> Addr_Is6 (ap_ip ap) then
        (dst @ [AddrTypeIPv6] @ Addr_bytes (ap_ip ap) @ port_bytes (ap_port ap), None)
      else (dst, Some ErrInvalidAddress))"

definition DecodeAddress :: "bytes \<Rightarrow> ewp_error + Address \<times> nat" where
  "DecodeAddress buf =
     (if length buf < 1 then Inl ErrAddrTooShort
      else if buf ! 0 = AddrTypeIPv4 then
        if length buf < 1 + 4 + 2 then Inl ErrAddrTooShort
        else Inr (Address_zero\<lparr>addr_Addr :=
               \<lparr>ap_ip = AddrFrom4 (subslice 1 5 buf), ap_port = get_be (subslice 5 7 buf)\<rparr>\<rparr>, 7)
      else if buf ! 0 = AddrTypeIPv6 then
        if length buf < 1 + 16 + 2 then Inl ErrAddrTooShort
        else Inr (Address_zero\<lparr>addr_Addr :=
               \<lparr>ap_ip = AddrFrom16 (subslice 1 17 buf) [], ap_port = get_be (subslice 17 19 buf)\<rparr>\<rparr>, 19)
      else if buf ! 0 = AddrTypeDomain then
        if length buf < 2 then Inl ErrAddrTooShort
        else
          let dlen = unat (buf ! 1) in
          if dlen = 0 \<or> dlen > MaxDomainLen then Inl ErrDomainLen
          else if length buf < 2 + dlen + 2 then Inl ErrAddrTooShort
          else Inr (Address_zero\<lparr>addr_Domain := subslice 2 (2 + dlen) buf,
                 addr_Port := get_be (subslice (2 + dlen) (2 + dlen + 2) buf)\<rparr>, 2 + dlen + 2)
      else Inl ErrAddrType)"

section \<open>What the wire keeps of an address\<close>

text \<open>
  \<open>canon a\<close> is the address a receiver gets for \<open>a\<close>: a domain drops the (unused) IP,
  an IP drops the (unused) \<^verbatim>\<open>Port\<close> field and an IPv6 zone. \<open>encodable\<close> says when
  \<^verbatim>\<open>Append\<close> succeeds.
\<close>

fun strip_zone :: "netip_Addr \<Rightarrow> netip_Addr" where
  "strip_zone (AddrFrom16 b z) = AddrFrom16 b []"
| "strip_zone ip = ip"

definition canon :: "Address \<Rightarrow> Address" where
  "canon a =
     (if IsDomain a then Address_zero\<lparr>addr_Domain := addr_Domain a, addr_Port := addr_Port a\<rparr>
      else Address_zero\<lparr>addr_Addr := \<lparr>ap_ip = strip_zone (ap_ip (addr_Addr a)),
                                      ap_port = ap_port (addr_Addr a)\<rparr>\<rparr>)"

definition encodable :: "Address \<Rightarrow> bool" where
  "encodable a \<longleftrightarrow> wf_Address a \<and>
     (if IsDomain a then length (addr_Domain a) \<le> MaxDomainLen
      else AddrPort_IsValid (addr_Addr a))"

definition enc_addr :: "Address \<Rightarrow> bytes" where
  "enc_addr a = fst (Address_Append a [])"

section \<open>Lemmas\<close>

lemma port_bytes_put_be: "port_bytes p = put_be 2 p"
  by (simp add: port_bytes_def numeral_2_eq_2)

lemma length_port_bytes [simp]: "length (port_bytes p) = 2"
  by (simp add: port_bytes_def)

lemma get_port_bytes [simp]: "get_be (port_bytes p) = p"
  by (simp add: port_bytes_put_be)

lemma addr_cases [case_names domain ip4 ip6]:
  assumes "encodable a"
  obtains (domain) "addr_Domain a \<noteq> []" "length (addr_Domain a) \<le> 253"
    | (ip4) b where "addr_Domain a = []" "ap_ip (addr_Addr a) = AddrFrom4 b" "length b = 4"
    | (ip6) b z where "addr_Domain a = []" "ap_ip (addr_Addr a) = AddrFrom16 b z" "length b = 16"
  using assms
  by (cases "ap_ip (addr_Addr a)")
    (auto simp: encodable_def wf_Address_def IsDomain_def AddrPort_IsValid_def ewp_consts
      split: if_splits)

lemmas addr_defs = Address_Append_def IsDomain_def AddrPort_IsValid_def EncodedLen_def
  canon_def enc_addr_def Let_def

lemma Append_enc_addr:
  assumes "encodable a"
  shows "Address_Append a dst = (dst @ enc_addr a, None)"
  using assms by (cases rule: addr_cases) (auto simp: addr_defs ewp_consts)

lemma length_enc_addr: "encodable a \<Longrightarrow> length (enc_addr a) = EncodedLen a"
  by (cases rule: addr_cases, assumption) (auto simp: addr_defs ewp_consts)

lemma Append_not_encodable:
  assumes "wf_Address a" and "\<not> encodable a"
  shows "Address_Append a dst =
    (dst, Some (if IsDomain a then ErrDomainLen else ErrInvalidAddress))"
  using assms
  by (cases "ap_ip (addr_Addr a)")
    (auto simp: addr_defs encodable_def wf_Address_def split: if_splits)

lemma EncodedLen_bounds: "encodable a \<Longrightarrow> 5 \<le> EncodedLen a \<and> EncodedLen a \<le> 257"
  by (cases rule: addr_cases, assumption) (auto simp: addr_defs Suc_le_eq)

lemma unat_domain_len: "length (d :: bytes) \<le> 253 \<Longrightarrow> unat (word_of_nat (length d) :: byte) = length d"
  by (simp add: unat_of_nat)

lemma DecodeAddress_enc:
  assumes "encodable a"
  shows "DecodeAddress (enc_addr a @ rest) = Inr (canon a, EncodedLen a)"
  using assms
proof (cases rule: addr_cases)
  case domain
  then show ?thesis
    by (simp add: addr_defs DecodeAddress_def ewp_consts unat_domain_len)
next
  case (ip4 b)
  then show ?thesis
    by (simp add: addr_defs DecodeAddress_def ewp_consts)
next
  case (ip6 b z)
  then show ?thesis
    by (simp add: addr_defs DecodeAddress_def ewp_consts)
qed

lemma canon_canon [simp]: "canon (canon a) = canon a"
  by (cases "ap_ip (addr_Addr a)")
    (auto simp: canon_def IsDomain_def Address_zero_def AddrPort_zero_def)

lemma enc_addr_canon: "encodable a \<Longrightarrow> encodable (canon a) \<and> enc_addr (canon a) = enc_addr a"
  by (cases rule: addr_cases, assumption)
    (auto simp: addr_defs encodable_def wf_Address_def Address_zero_def AddrPort_zero_def ewp_consts)

text \<open>\<^verbatim>\<open>DecodeAddress\<close> by address type, on the bytes after the type byte.\<close>

lemma DecodeAddress_by_type:
  "DecodeAddress [] = Inl ErrAddrTooShort"
  "DecodeAddress (AddrTypeIPv4 # bs) =
     (if length bs < 6 then Inl ErrAddrTooShort
      else Inr (Address_zero\<lparr>addr_Addr := \<lparr>ap_ip = AddrFrom4 (take 4 bs),
             ap_port = get_be (subslice 4 6 bs)\<rparr>\<rparr>, 7))"
  "DecodeAddress (AddrTypeIPv6 # bs) =
     (if length bs < 18 then Inl ErrAddrTooShort
      else Inr (Address_zero\<lparr>addr_Addr := \<lparr>ap_ip = AddrFrom16 (take 16 bs) [],
             ap_port = get_be (subslice 16 18 bs)\<rparr>\<rparr>, 19))"
  "DecodeAddress [AddrTypeDomain] = Inl ErrAddrTooShort"
  "DecodeAddress (AddrTypeDomain # l # bs) =
     (if l = 0 \<or> unat l > MaxDomainLen then Inl ErrDomainLen
      else if length bs < unat l + 2 then Inl ErrAddrTooShort
      else Inr (Address_zero\<lparr>addr_Domain := take (unat l) bs,
             addr_Port := get_be (subslice (unat l) (unat l + 2) bs)\<rparr>, 2 + unat l + 2))"
  by (auto simp: DecodeAddress_def ewp_consts Let_def unat_eq_0)

lemma DecodeAddress_other:
  "b \<notin> {AddrTypeIPv4, AddrTypeIPv6, AddrTypeDomain} \<Longrightarrow> DecodeAddress (b # bs) = Inl ErrAddrType"
  by (simp add: DecodeAddress_def)


lemma split_port:
  assumes "k + 2 \<le> length bs"
  obtains ip pt rest where "bs = ip @ port_bytes pt @ rest" "length ip = k"
proof -
  have "port_bytes (get_be (subslice k (k + 2) bs)) = subslice k (k + 2) bs"
    using assms by (simp add: port_bytes_put_be)
  then have "bs = take k bs @ port_bytes (get_be (subslice k (k + 2) bs)) @ drop (k + 2) bs"
    by (metis append.assoc append_take_drop_id le_add1 take_subslice)
  with assms that show thesis by (metis add_leE length_take min.absorb2)
qed

text \<open>The cases of a successful decode, one per address type.\<close>

lemma DecodeAddress_cases [consumes 1, case_names ip4 ip6 domain]:
  assumes "DecodeAddress buf = Inr (a, n)"
  obtains (ip4) ip pt rest where "buf = AddrTypeIPv4 # ip @ port_bytes pt @ rest" "length ip = 4" "n = 7"
      "a = Address_zero\<lparr>addr_Addr := \<lparr>ap_ip = AddrFrom4 ip, ap_port = pt\<rparr>\<rparr>"
    | (ip6) ip pt rest where "buf = AddrTypeIPv6 # ip @ port_bytes pt @ rest" "length ip = 16" "n = 19"
      "a = Address_zero\<lparr>addr_Addr := \<lparr>ap_ip = AddrFrom16 ip [], ap_port = pt\<rparr>\<rparr>"
    | (domain) d pt rest where
      "buf = AddrTypeDomain # word_of_nat (length d) # d @ port_bytes pt @ rest"
      "0 < length d" "length d \<le> MaxDomainLen" "n = 2 + length d + 2"
      "a = Address_zero\<lparr>addr_Domain := d, addr_Port := pt\<rparr>"
proof (cases buf)
  case Nil
  with assms show ?thesis by (simp add: DecodeAddress_by_type)
next
  case (Cons b bs)
  consider "b = AddrTypeIPv4" | "b = AddrTypeIPv6" | "b = AddrTypeDomain"
    using assms Cons DecodeAddress_other [of b bs] by auto
  then show ?thesis
  proof cases
    case 1
    with assms Cons have "4 + 2 \<le> length bs"
      by (auto simp: DecodeAddress_by_type split: if_splits)
    then obtain ip pt rest where "bs = ip @ port_bytes pt @ rest" "length ip = 4"
      by (rule split_port)
    with 1 assms Cons show ?thesis
      by (intro ip4 [of ip pt rest]) (auto simp: DecodeAddress_by_type)
  next
    case 2
    with assms Cons have "16 + 2 \<le> length bs"
      by (auto simp: DecodeAddress_by_type split: if_splits)
    then obtain ip pt rest where "bs = ip @ port_bytes pt @ rest" "length ip = 16"
      by (rule split_port)
    with 2 assms Cons show ?thesis
      by (intro ip6 [of ip pt rest]) (auto simp: DecodeAddress_by_type)
  next
    case 3
    with assms Cons obtain l cs where bs: "bs = l # cs"
      by (cases bs) (auto simp: DecodeAddress_by_type)
    with 3 assms Cons have l: "l \<noteq> 0" "unat l \<le> MaxDomainLen" "unat l + 2 \<le> length cs"
      by (auto simp: DecodeAddress_by_type split: if_splits)
    then obtain d pt rest where "cs = d @ port_bytes pt @ rest" "length d = unat l"
      using split_port by blast
    with 3 l bs assms Cons show ?thesis
      by (intro domain [of d pt rest]) (auto simp: DecodeAddress_by_type unat_gt_0)
  qed
qed

lemma DecodeAddress_sound:
  assumes "DecodeAddress buf = Inr (a, n)"
  shows "encodable a \<and> canon a = a \<and> n \<le> length buf \<and> enc_addr a = take n buf"
  using assms
  by (cases rule: DecodeAddress_cases)
    (auto simp: encodable_def wf_Address_def addr_defs Address_zero_def AddrPort_zero_def ewp_consts)

text \<open>The address codec meets the codec contract, on the addresses the wire can carry.\<close>

interpretation addr_codec: prefix_codec "\<lambda>a. encodable a \<and> canon a = a" enc_addr DecodeAddress
proof
  fix x :: Address and rest :: bytes
  assume "encodable x \<and> canon x = x"
  then show "DecodeAddress (enc_addr x @ rest) = Inr (x, length (enc_addr x))"
    using DecodeAddress_enc [of x rest] length_enc_addr [of x] by simp
next
  fix buf x n
  assume "DecodeAddress buf = Inr (x, n)"
  then show "(encodable x \<and> canon x = x) \<and> n \<le> length buf \<and> enc_addr x = take n buf"
    using DecodeAddress_sound by blast
qed

lemma enc_addr_forms:
  "addr_Domain a \<noteq> [] \<Longrightarrow> length (addr_Domain a) \<le> 253 \<Longrightarrow>
     enc_addr a = AddrTypeDomain # word_of_nat (length (addr_Domain a)) # addr_Domain a @ port_bytes (addr_Port a)"
  "addr_Domain a = [] \<Longrightarrow> ap_ip (addr_Addr a) = AddrFrom4 b \<Longrightarrow>
     enc_addr a = AddrTypeIPv4 # b @ port_bytes (ap_port (addr_Addr a))"
  "addr_Domain a = [] \<Longrightarrow> ap_ip (addr_Addr a) = AddrFrom16 b z \<Longrightarrow>
     enc_addr a = AddrTypeIPv6 # b @ port_bytes (ap_port (addr_Addr a))"
  by (auto simp: addr_defs ewp_consts)

lemma DecodeAddress_truncated:
  assumes "encodable a" and "k < EncodedLen a"
  shows "DecodeAddress (take k (enc_addr a)) = Inl ErrAddrTooShort"
  using assms
proof (cases rule: addr_cases)
  case domain
  note [simp] = enc_addr_forms(1) [OF domain] DecodeAddress_by_type unat_domain_len [OF domain(2)]
  have nz: "word_of_nat (length (addr_Domain a)) \<noteq> (0 :: byte)"
    using domain unat_domain_len [OF domain(2)] by (metis length_0_conv unat_0)
  consider "k = 0" | "k = 1" | j where "k = Suc (Suc j)"
    by (metis One_nat_def not0_implies_Suc)
  then show ?thesis
    using assms(2) domain nz by cases (auto simp: addr_defs MaxDomainLen_def)
next
  case (ip4 b)
  with assms(2) show ?thesis
    by (cases k) (auto simp: enc_addr_forms(2) DecodeAddress_by_type addr_defs)
next
  case (ip6 b z)
  with assms(2) show ?thesis
    by (cases k) (auto simp: enc_addr_forms(3) DecodeAddress_by_type addr_defs)
qed

section \<open>Properties\<close>

text \<open>
  C35: An address that the wire can carry is appended behind whatever the buffer holds,
  in exactly \<^verbatim>\<open>EncodedLen\<close> bytes, and decoding those bytes, whatever follows them, gives
  the canonical form of the address back and consumes exactly those bytes.
\<close>
theorem address_roundtrip:
  assumes "encodable a"
  shows "\<exists>w. Address_Append a dst = (dst @ w, None) \<and> length w = EncodedLen a \<and>
    DecodeAddress (w @ rest) = Inr (canon a, EncodedLen a)"
  using Append_enc_addr [OF assms] length_enc_addr [OF assms] DecodeAddress_enc [OF assms] by blast

theorem address_roundtrip_witness:
  "\<exists>w. Address_Append (Address_zero\<lparr>addr_Domain := [97, 98], addr_Port := 443\<rparr>) [7] = ([7] @ w, None) \<and>
    length w = 6 \<and> DecodeAddress (w @ [9]) =
      Inr (Address_zero\<lparr>addr_Domain := [97, 98], addr_Port := 443\<rparr>, 6)"
  using address_roundtrip [of "Address_zero\<lparr>addr_Domain := [97, 98], addr_Port := 443\<rparr>" "[7]" "[9]"]
  by (simp add: encodable_def wf_Address_def IsDomain_def EncodedLen_def canon_def ewp_consts
      Address_zero_def AddrPort_zero_def eval_nat_numeral)

text \<open>
  The decoder accepts nothing but canonical encodings. When it returns an address and
  a length, the buffer is long enough and its prefix of that length is byte for byte what
  \<^verbatim>\<open>Append\<close> writes for the returned address, so no two byte strings decode to the same
  address.
\<close>
theorem address_decode_sound:
  assumes "DecodeAddress buf = Inr (a, n)"
  shows "n \<le> length buf \<and> Address_Append a [] = (take n buf, None) \<and> canon a = a"
  using addr_codec.dec_sound [OF assms] Append_enc_addr [of a "[]"] by simp

theorem address_decode_sound_witness:
  "DecodeAddress [1, 8, 8, 8, 8, 0, 53, 99] =
     Inr (Address_zero\<lparr>addr_Addr := \<lparr>ap_ip = AddrFrom4 [8, 8, 8, 8], ap_port = 53\<rparr>\<rparr>, 7) \<and>
   Address_Append (Address_zero\<lparr>addr_Addr := \<lparr>ap_ip = AddrFrom4 [8, 8, 8, 8], ap_port = 53\<rparr>\<rparr>) [] =
     ([1, 8, 8, 8, 8, 0, 53], None)"
proof -
  have "DecodeAddress [1, 8, 8, 8, 8, 0, 53, 99] =
      Inr (Address_zero\<lparr>addr_Addr := \<lparr>ap_ip = AddrFrom4 [8, 8, 8, 8], ap_port = 53\<rparr>\<rparr>, 7)"
    by (simp add: DecodeAddress_def ewp_consts subslice_def get_be_def)
  from this address_decode_sound [OF this] show ?thesis by simp
qed

text \<open>
  A cut-off encoding is never misread. Every proper prefix of what \<^verbatim>\<open>Append\<close> writes for
  an address is rejected by the decoder as truncated.
\<close>
theorem address_truncation:
  assumes "wf_Address a" and "Address_Append a [] = (w, None)" and "k < length w"
  shows "DecodeAddress (take k w) = Inl ErrAddrTooShort"
proof -
  have "encodable a"
    using assms(1,2) Append_not_encodable [of a "[]"] by auto
  with assms show ?thesis
    using Append_enc_addr [of a "[]"] DecodeAddress_truncated [of a k] length_enc_addr [of a]
    by simp
qed

theorem address_truncation_witness:
  "DecodeAddress (take 5 [1, 8, 8, 8, 8, 0, 53]) = Inl ErrAddrTooShort"
proof (rule address_truncation)
  show "wf_Address (Address_zero\<lparr>addr_Addr := \<lparr>ap_ip = AddrFrom4 [8, 8, 8, 8], ap_port = 53\<rparr>\<rparr>)"
    by (simp add: wf_Address_def)
  show "Address_Append (Address_zero\<lparr>addr_Addr := \<lparr>ap_ip = AddrFrom4 [8, 8, 8, 8], ap_port = 53\<rparr>\<rparr>) [] =
      ([1, 8, 8, 8, 8, 0, 53], None)"
    by (simp add: addr_defs Address_zero_def ewp_consts port_bytes_def)
qed simp

text \<open>
  \<^verbatim>\<open>Append\<close> fails exactly for the addresses the wire cannot carry, with the error its
  documentation names, and then leaves the destination buffer as it was.
\<close>
theorem address_append_error:
  assumes "wf_Address a"
  shows "Address_Append a dst =
    (if encodable a then (dst @ fst (Address_Append a []), None)
     else (dst, Some (if IsDomain a then ErrDomainLen else ErrInvalidAddress)))"
  using Append_enc_addr [of a] Append_not_encodable [OF assms, of dst] by simp

theorem address_append_error_witness:
  "Address_Append Address_zero [1, 2] = ([1, 2], Some ErrInvalidAddress)"
proof -
  have "wf_Address Address_zero" and "\<not> encodable Address_zero" and "\<not> IsDomain Address_zero"
    by (simp_all add: wf_Address_def encodable_def IsDomain_def AddrPort_IsValid_def
        Address_zero_def AddrPort_zero_def)
  then show ?thesis
    using address_append_error [of Address_zero "[1, 2]"] by simp
qed

end
