(* ===== verification/Crypto.thy ===== *)
theory Crypto
  imports Prelude
begin

text \<open>
  The cryptographic primitives the package calls and does not contain:
  \<^verbatim>\<open>golang.org/x/crypto/chacha20poly1305\<close> and \<^verbatim>\<open>hkdf\<close>, \<^verbatim>\<open>crypto/sha256\<close>, \<^verbatim>\<open>crypto/hmac\<close>,
  \<^verbatim>\<open>crypto/ecdh\<close> and \<^verbatim>\<open>crypto/mlkem\<close>. They are a parameter of the model, one value of the
  record \<open>crypto\<close>, and every definition that uses one takes it as its argument.

  What the package relies on is stated by the predicates \<open>aead_ok\<close>, \<open>aead_auth\<close>,
  \<open>kdf_ok\<close>, \<open>dh_ok\<close> and \<open>kem_ok\<close>: the documented input and output sizes, that opening
  undoes sealing and accepts nothing else, that Diffie-Hellman and the KEM agree. No
  secrecy is assumed. \<open>toy_crypto\<close> is a concrete instance that meets them all; the
  witnesses use it.
\<close>

section \<open>The primitives\<close>

text \<open>
  Keys are their byte encodings. Key generation and encapsulation draw from the random
  source, the reader of \<^verbatim>\<open>Prelude\<close>, in a way the model leaves open; \<open>None\<close> is an error
  return. \<open>x25519_pub_ok\<close> and \<open>mlkem_ek_ok\<close> say which byte strings \<^verbatim>\<open>NewPublicKey\<close> and
  \<^verbatim>\<open>NewEncapsulationKey768\<close> accept.
\<close>

record crypto =
  sha256_Sum256 :: "bytes \<Rightarrow> bytes"
  hmac_sha256 :: "bytes \<Rightarrow> bytes \<Rightarrow> bytes"
  hkdf_New :: "bytes \<Rightarrow> bytes \<Rightarrow> bytes \<Rightarrow> nat \<Rightarrow> ewp_error + bytes"
  hkdf_Extract :: "bytes \<Rightarrow> bytes \<Rightarrow> bytes"
  hkdf_Expand :: "bytes \<Rightarrow> bytes \<Rightarrow> nat \<Rightarrow> ewp_error + bytes"
  chacha_Seal :: "bytes \<Rightarrow> bytes \<Rightarrow> bytes \<Rightarrow> bytes \<Rightarrow> bytes"
  chacha_Open :: "bytes \<Rightarrow> bytes \<Rightarrow> bytes \<Rightarrow> bytes \<Rightarrow> bytes option"
  x25519_GenerateKey :: "bytes \<Rightarrow> bytes option \<times> bytes"
  x25519_PublicKey :: "bytes \<Rightarrow> bytes"
  x25519_pub_ok :: "bytes \<Rightarrow> bool"
  x25519_ECDH :: "bytes \<Rightarrow> bytes \<Rightarrow> bytes option"
  mlkem_GenerateKey :: "bytes \<Rightarrow> bytes option \<times> bytes"
  mlkem_EncapsulationKey :: "bytes \<Rightarrow> bytes"
  mlkem_ek_ok :: "bytes \<Rightarrow> bool"
  mlkem_Encapsulate :: "bytes \<Rightarrow> bytes \<Rightarrow> (bytes \<times> bytes) \<times> bytes"
  mlkem_Decapsulate :: "bytes \<Rightarrow> bytes \<Rightarrow> bytes option"

section \<open>What the package relies on\<close>

text \<open>ChaCha20-Poly1305: the tag adds 16 bytes and opening undoes sealing.\<close>

definition aead_ok :: "crypto \<Rightarrow> bool" where
  "aead_ok C \<longleftrightarrow> (\<forall>k n p a. length k = 32 \<longrightarrow> length n = 12 \<longrightarrow>
     length (chacha_Seal C k n p a) = length p + 16 \<and>
     chacha_Open C k n (chacha_Seal C k n p a) a = Some p)"

text \<open>Opening recomputes the tag: it accepts a ciphertext only if sealing produces it.\<close>

definition aead_auth :: "crypto \<Rightarrow> bool" where
  "aead_auth C \<longleftrightarrow> (\<forall>k n c a p. length k = 32 \<longrightarrow> length n = 12 \<longrightarrow>
     chacha_Open C k n c a = Some p \<longrightarrow> c = chacha_Seal C k n p a)"

text \<open>
  SHA-256 and HMAC-SHA-256 give 32 bytes; HKDF-SHA-256 gives up to 255 blocks of 32
  bytes.
\<close>

definition kdf_ok :: "crypto \<Rightarrow> bool" where
  "kdf_ok C \<longleftrightarrow> (\<forall>m. length (sha256_Sum256 C m) = 32) \<and>
     (\<forall>k m. length (hmac_sha256 C k m) = 32) \<and>
     (\<forall>s t i n. n \<le> 8160 \<longrightarrow> (\<exists>out. hkdf_New C s t i n = Inr out \<and> length out = n)) \<and>
     (\<forall>p i n. n \<le> 8160 \<longrightarrow> (\<exists>out. hkdf_Expand C p i n = Inr out \<and> length out = n))"

text \<open>
  X25519: public keys and shared secrets have 32 bytes, the public key of a generated
  key is accepted, and two generated keys agree on their shared secret.
\<close>

definition dh_ok :: "crypto \<Rightarrow> bool" where
  "dh_ok C \<longleftrightarrow> (\<forall>r a r'. x25519_GenerateKey C r = (Some a, r') \<longrightarrow>
     length (x25519_PublicKey C a) = 32 \<and> x25519_pub_ok C (x25519_PublicKey C a) \<and>
     (\<forall>s b s'. x25519_GenerateKey C s = (Some b, s') \<longrightarrow>
        (\<exists>z. x25519_ECDH C a (x25519_PublicKey C b) = Some z \<and>
             x25519_ECDH C b (x25519_PublicKey C a) = Some z \<and> length z = 32)))"

text \<open>
  ML-KEM-768: sizes of FIPS 203, the encapsulation key of a generated key is accepted,
  and decapsulation gives the encapsulated secret.
\<close>

definition kem_ok :: "crypto \<Rightarrow> bool" where
  "kem_ok C \<longleftrightarrow> (\<forall>r dk r'. mlkem_GenerateKey C r = (Some dk, r') \<longrightarrow>
     length (mlkem_EncapsulationKey C dk) = 1184 \<and> mlkem_ek_ok C (mlkem_EncapsulationKey C dk) \<and>
     (\<forall>s ss ct s'. mlkem_Encapsulate C (mlkem_EncapsulationKey C dk) s = ((ss, ct), s') \<longrightarrow>
        length ct = 1088 \<and> mlkem_Decapsulate C dk ct = Some ss))"

lemma aead_seal_len [wire_simps]:
  "aead_ok C \<Longrightarrow> length k = 32 \<Longrightarrow> length n = 12 \<Longrightarrow>
     length (chacha_Seal C k n p a) = length p + 16"
  by (simp add: aead_ok_def)

lemma aead_open_seal:
  "aead_ok C \<Longrightarrow> length k = 32 \<Longrightarrow> length n = 12 \<Longrightarrow>
     chacha_Open C k n (chacha_Seal C k n p a) a = Some p"
  by (simp add: aead_ok_def)

lemma aead_open_sealed:
  "aead_auth C \<Longrightarrow> length k = 32 \<Longrightarrow> length n = 12 \<Longrightarrow>
     chacha_Open C k n c a = Some p \<Longrightarrow> c = chacha_Seal C k n p a"
  unfolding aead_auth_def by blast

lemma aead_seal_inj:
  assumes "aead_ok C" and "length k = 32" and "length n = 12"
    and "chacha_Seal C k n p a = chacha_Seal C k n q a"
  shows "p = q"
  using aead_open_seal [OF assms(1-3)] assms(4) by (metis option.inject)

lemma hkdf_New_ok:
  assumes "kdf_ok C" and "n \<le> 8160"
  obtains out where "hkdf_New C s t i n = Inr out" "length out = n"
proof -
  have "\<exists>out. hkdf_New C s t i n = Inr out \<and> length out = n"
    using assms by (simp add: kdf_ok_def)
  then show thesis using that by auto
qed

lemma hkdf_Expand_ok:
  assumes "kdf_ok C" and "n \<le> 8160"
  obtains out where "hkdf_Expand C p i n = Inr out" "length out = n"
proof -
  have "\<exists>out. hkdf_Expand C p i n = Inr out \<and> length out = n"
    using assms by (simp add: kdf_ok_def)
  then show thesis using that by auto
qed

lemma dh_public:
  "dh_ok C \<Longrightarrow> x25519_GenerateKey C r = (Some a, r') \<Longrightarrow>
     length (x25519_PublicKey C a) = 32 \<and> x25519_pub_ok C (x25519_PublicKey C a)"
  unfolding dh_ok_def by blast

lemma dh_agree:
  assumes "dh_ok C" and "x25519_GenerateKey C r = (Some a, r')" and "x25519_GenerateKey C s = (Some b, s')"
  obtains z where "x25519_ECDH C a (x25519_PublicKey C b) = Some z"
    "x25519_ECDH C b (x25519_PublicKey C a) = Some z" "length z = 32"
  using assms unfolding dh_ok_def by blast

lemma kem_public:
  "kem_ok C \<Longrightarrow> mlkem_GenerateKey C r = (Some dk, r') \<Longrightarrow>
     length (mlkem_EncapsulationKey C dk) = 1184 \<and> mlkem_ek_ok C (mlkem_EncapsulationKey C dk)"
  unfolding kem_ok_def by blast

lemma kem_agree:
  "kem_ok C \<Longrightarrow> mlkem_GenerateKey C r = (Some dk, r') \<Longrightarrow>
     mlkem_Encapsulate C (mlkem_EncapsulationKey C dk) s = ((ss, ct), s') \<Longrightarrow>
     length ct = 1088 \<and> mlkem_Decapsulate C dk ct = Some ss"
  unfolding kem_ok_def by blast

section \<open>A concrete instance\<close>

text \<open>
  Checksums in place of hashes, addition in place of the group, no secrecy: it only
  shows that the laws hold together.
\<close>

definition toy_tag :: "bytes \<Rightarrow> bytes \<Rightarrow> bytes \<Rightarrow> bytes \<Rightarrow> bytes" where
  "toy_tag k n p a = replicate 16 (sum_list (k @ n @ a @ p))"

definition toy_open :: "bytes \<Rightarrow> bytes \<Rightarrow> bytes \<Rightarrow> bytes \<Rightarrow> bytes option" where
  "toy_open k n c a =
     (let p = take (length c - 16) c in
      if 16 \<le> length c \<and> drop (length c - 16) c = toy_tag k n p a then Some p else None)"

definition toy_kdf :: "bytes \<Rightarrow> bytes \<Rightarrow> nat \<Rightarrow> ewp_error + bytes" where
  "toy_kdf s i n = (if n \<le> 8160 then Inr (replicate n (sum_list (s @ i))) else Inl ErrHKDFLimit)"

definition toy_gen :: "nat \<Rightarrow> bytes \<Rightarrow> bytes option \<times> bytes" where
  "toy_gen n r = (if n \<le> length r then (Some (take n r), drop n r) else (None, []))"

definition toy_pad :: "nat \<Rightarrow> bytes \<Rightarrow> bytes" where
  "toy_pad n xs = take n (xs @ replicate n 0)"

definition toy_crypto :: crypto where
  "toy_crypto =
     \<lparr>sha256_Sum256 = (\<lambda>m. replicate 32 (sum_list m)),
      hmac_sha256 = (\<lambda>k m. replicate 32 (sum_list (k @ m))),
      hkdf_New = (\<lambda>s t i n. toy_kdf (s @ t) i n),
      hkdf_Extract = (\<lambda>s t. replicate 32 (sum_list (s @ t))),
      hkdf_Expand = toy_kdf,
      chacha_Seal = (\<lambda>k n p a. p @ toy_tag k n p a),
      chacha_Open = toy_open,
      x25519_GenerateKey = toy_gen 32,
      x25519_PublicKey = (\<lambda>a. a),
      x25519_pub_ok = (\<lambda>p. length p = 32),
      x25519_ECDH = (\<lambda>a b. Some (map2 (+) a b)),
      mlkem_GenerateKey = toy_gen 64,
      mlkem_EncapsulationKey = toy_pad 1184,
      mlkem_ek_ok = (\<lambda>e. length e = 1184),
      mlkem_Encapsulate = (\<lambda>e r. ((map2 (+) (toy_pad 32 r) (take 32 e), toy_pad 1088 (toy_pad 32 r)),
                                  drop 32 r)),
      mlkem_Decapsulate = (\<lambda>d c. Some (map2 (+) (take 32 c) (take 32 d)))\<rparr>"

lemma length_toy_pad [simp]: "length (toy_pad n xs) = n"
  by (simp add: toy_pad_def)

lemma toy_aead_ok: "aead_ok toy_crypto"
  by (simp add: aead_ok_def toy_crypto_def toy_open_def toy_tag_def)

lemma toy_aead_auth: "aead_auth toy_crypto"
  by (auto simp: aead_auth_def toy_crypto_def toy_open_def Let_def split: if_splits)
    (metis append_take_drop_id)

lemma toy_kdf_ok: "kdf_ok toy_crypto"
  by (simp add: kdf_ok_def toy_crypto_def toy_kdf_def)

lemma toy_gen_Some: "toy_gen n r = (Some k, r') \<Longrightarrow> length k = n"
  by (auto simp: toy_gen_def split: if_splits)

lemma map2_plus_commute: "map2 (+) xs ys = map2 (+) ys (xs :: bytes)"
  by (induction xs ys rule: list_induct2') (auto simp: add.commute)

lemma toy_dh_ok: "dh_ok toy_crypto"
  by (auto simp: dh_ok_def toy_crypto_def dest!: toy_gen_Some intro: map2_plus_commute)

lemma toy_pad_take: "n \<le> length xs \<Longrightarrow> n \<le> m \<Longrightarrow> take n (toy_pad m xs) = take n xs"
  by (simp add: toy_pad_def min_def)

lemma toy_kem_ok: "kem_ok toy_crypto"
  by (auto simp: kem_ok_def toy_crypto_def toy_pad_take dest!: toy_gen_Some)

lemmas toy_laws = toy_aead_ok toy_aead_auth toy_kdf_ok toy_dh_ok toy_kem_ok

end
