(* ===== verification/Kdf.thy ===== *)
theory Kdf
  imports Crypto
begin

text \<open>
  \<^verbatim>\<open>src/kdf.go\<close> and \<^verbatim>\<open>src/aead.go\<close>: the constants of the package, the derivation of the
  handshake key, the truncated outer MAC and the session keys, and the construction of
  the AEAD. An AEAD value is the key it was built from; sealing and opening with it are
  \<open>chacha_Seal C key\<close> and \<open>chacha_Open C key\<close>.

  Shown: under the documented output limits of HKDF no derivation panics and every key,
  nonce prefix and MAC has its declared length; a MAC verifies exactly when it is the
  one computed.
\<close>

section \<open>Constants\<close>

definition AEADKeyLen :: nat where "AEADKeyLen = 32"
definition AEADNonceLen :: nat where "AEADNonceLen = 12"
definition NoncePrefixLen :: nat where "NoncePrefixLen = 4"
definition CounterLen :: nat where "CounterLen = 8"
definition HandshakeNonce :: nat where "HandshakeNonce = 12"
definition X25519PubLen :: nat where "X25519PubLen = 32"
definition MLKEM768PubLen :: nat where "MLKEM768PubLen = 1184"
definition MLKEM768CipherL :: nat where "MLKEM768CipherL = 1088"
definition OuterMACLen :: nat where "OuterMACLen = 16"
definition MinHandshakePad :: int where "MinHandshakePad = 64"
definition MaxHandshakePad :: int where "MaxHandshakePad = 1024"
definition MaxFramePad :: int where "MaxFramePad = 4096"
definition MaxFrameSize :: int where "MaxFrameSize = 65536"
definition MaxMetaLen :: nat where "MaxMetaLen = 1024"
definition UUIDLen :: nat where "UUIDLen = 16"
definition HandshakeTimestampWindow :: int where "HandshakeTimestampWindow = 120"

declare AEADKeyLen_def [ewp_consts] AEADNonceLen_def [ewp_consts] NoncePrefixLen_def [ewp_consts]
  CounterLen_def [ewp_consts] HandshakeNonce_def [ewp_consts] X25519PubLen_def [ewp_consts]
  MLKEM768PubLen_def [ewp_consts] MLKEM768CipherL_def [ewp_consts] OuterMACLen_def [ewp_consts]
  MinHandshakePad_def [ewp_consts] MaxHandshakePad_def [ewp_consts] MaxFramePad_def [ewp_consts]
  MaxFrameSize_def [ewp_consts] MaxMetaLen_def [ewp_consts] UUIDLen_def [ewp_consts]
  HandshakeTimestampWindow_def [ewp_consts]

text \<open>The HKDF labels, as the bytes of the source's string constants.\<close>

definition str_bytes :: "string \<Rightarrow> bytes" where
  "str_bytes s = map of_char s"

definition infoHandshakeAEAD :: bytes where "infoHandshakeAEAD = str_bytes ''EWPv2 handshake aead''"
definition infoSaltPrefix :: bytes where "infoSaltPrefix = str_bytes ''EWPv2-salt''"
definition infoC2SKey :: bytes where "infoC2SKey = str_bytes ''EWPv2 c2s key''"
definition infoS2CKey :: bytes where "infoS2CKey = str_bytes ''EWPv2 s2c key''"
definition infoC2SNonce :: bytes where "infoC2SNonce = str_bytes ''EWPv2 c2s nonce''"
definition infoS2CNonce :: bytes where "infoS2CNonce = str_bytes ''EWPv2 s2c nonce''"

section \<open>Derivations\<close>

definition uuidPSK :: "crypto \<Rightarrow> bytes \<Rightarrow> bytes" where
  "uuidPSK C uuid = sha256_Sum256 C uuid"

definition HandshakeAEADKey :: "crypto \<Rightarrow> bytes \<Rightarrow> bytes \<Rightarrow> ewp_error + bytes" where
  "HandshakeAEADKey C uuid nonce =
     (let psk = uuidPSK C uuid in
      case hkdf_New C psk nonce infoHandshakeAEAD AEADKeyLen of
        Inl err \<Rightarrow> Inl (Panic ''ewp/v2: handshake AEAD key derivation failed: '' err)
      | Inr out \<Rightarrow> Inr out)"

definition OuterMAC :: "crypto \<Rightarrow> bytes \<Rightarrow> bytes \<Rightarrow> bytes" where
  "OuterMAC C uuid msg =
     (let psk = uuidPSK C uuid; sum = hmac_sha256 C psk msg in take OuterMACLen sum)"

definition VerifyOuterMAC :: "crypto \<Rightarrow> bytes \<Rightarrow> bytes \<Rightarrow> bytes \<Rightarrow> bool" where
  "VerifyOuterMAC C uuid msg tag = (let want = OuterMAC C uuid msg in want = tag)"

record SessionKeys =
  C2SKey :: bytes
  S2CKey :: bytes
  C2SNonce :: bytes
  S2CNonce :: bytes

definition kdf_expand :: "crypto \<Rightarrow> bytes \<Rightarrow> bytes \<Rightarrow> nat \<Rightarrow> ewp_error + bytes" where
  "kdf_expand C prk info outlen =
     (case hkdf_Expand C prk info outlen of
        Inl err \<Rightarrow> Inl err
      | Inr out \<Rightarrow> if length out \<noteq> outlen then Inl ErrShortKDF else Inr out)"

definition DeriveSessionKeys ::
  "crypto \<Rightarrow> bytes \<Rightarrow> bytes \<Rightarrow> bytes \<Rightarrow> bytes \<Rightarrow> ewp_error + SessionKeys" where
  "DeriveSessionKeys C x25519Shared mlkemShared clientNonce serverNonceEcho =
     (let ikm = x25519Shared @ mlkemShared;
          salt = infoSaltPrefix @ clientNonce @ serverNonceEcho;
          prk = hkdf_Extract C ikm salt in
      case kdf_expand C prk infoC2SKey AEADKeyLen of
        Inl err \<Rightarrow> Inl (Panic ''ewp/v2: derive C2S key: '' err)
      | Inr c2sKey \<Rightarrow>
      (case kdf_expand C prk infoS2CKey AEADKeyLen of
        Inl err \<Rightarrow> Inl (Panic ''ewp/v2: derive S2C key: '' err)
      | Inr s2cKey \<Rightarrow>
      (case kdf_expand C prk infoC2SNonce NoncePrefixLen of
        Inl err \<Rightarrow> Inl (Panic ''ewp/v2: derive C2S nonce: '' err)
      | Inr c2sNonce \<Rightarrow>
      (case kdf_expand C prk infoS2CNonce NoncePrefixLen of
        Inl err \<Rightarrow> Inl (Panic ''ewp/v2: derive S2C nonce: '' err)
      | Inr s2cNonce \<Rightarrow>
          Inr \<lparr>C2SKey = c2sKey, S2CKey = s2cKey, C2SNonce = c2sNonce, S2CNonce = s2cNonce\<rparr>))))"

text \<open>\<^verbatim>\<open>src/aead.go\<close>: \<^verbatim>\<open>chacha20poly1305.New\<close> refuses keys that are not 32 bytes long.\<close>

definition newChaChaAEAD :: "bytes \<Rightarrow> ewp_error + bytes" where
  "newChaChaAEAD key = (if length key \<noteq> 32 then Inl ErrKeyLen else Inr key)"

section \<open>Lemmas\<close>

definition wf_keys :: "SessionKeys \<Rightarrow> bool" where
  "wf_keys sk \<longleftrightarrow> length (C2SKey sk) = 32 \<and> length (S2CKey sk) = 32 \<and>
     length (C2SNonce sk) = 4 \<and> length (S2CNonce sk) = 4"

lemma HandshakeAEADKey_ok:
  assumes "kdf_ok C"
  obtains key where "HandshakeAEADKey C uuid nonce = Inr key" "length key = 32"
proof -
  obtain out where "hkdf_New C (uuidPSK C uuid) nonce infoHandshakeAEAD 32 = Inr out" "length out = 32"
    by (rule hkdf_New_ok [OF assms, of 32]) simp_all
  then show thesis
    by (intro that [of out]) (simp_all add: HandshakeAEADKey_def ewp_consts)
qed

lemma length_OuterMAC [wire_simps]: "kdf_ok C \<Longrightarrow> length (OuterMAC C uuid msg) = 16"
  by (simp add: OuterMAC_def kdf_ok_def ewp_consts Let_def)

lemma VerifyOuterMAC_iff: "VerifyOuterMAC C uuid msg tag \<longleftrightarrow> tag = OuterMAC C uuid msg"
  by (auto simp: VerifyOuterMAC_def)

lemma kdf_expand_ok:
  assumes "kdf_ok C" and "n \<le> 8160"
  obtains out where "kdf_expand C prk info n = Inr out" "length out = n"
proof -
  obtain out where "hkdf_Expand C prk info n = Inr out" "length out = n"
    by (rule hkdf_Expand_ok [OF assms])
  then show thesis
    by (intro that [of out]) (simp_all add: kdf_expand_def)
qed

lemma DeriveSessionKeys_ok:
  assumes "kdf_ok C"
  obtains sk where "DeriveSessionKeys C x m cn sn = Inr sk" "wf_keys sk"
proof -
  let ?prk = "hkdf_Extract C (x @ m) (infoSaltPrefix @ cn @ sn)"
  obtain a where a: "kdf_expand C ?prk infoC2SKey 32 = Inr a" "length a = 32"
    by (rule kdf_expand_ok [OF assms, of 32]) simp_all
  obtain b where b: "kdf_expand C ?prk infoS2CKey 32 = Inr b" "length b = 32"
    by (rule kdf_expand_ok [OF assms, of 32]) simp_all
  obtain c where c: "kdf_expand C ?prk infoC2SNonce 4 = Inr c" "length c = 4"
    by (rule kdf_expand_ok [OF assms, of 4]) simp_all
  obtain d where d: "kdf_expand C ?prk infoS2CNonce 4 = Inr d" "length d = 4"
    by (rule kdf_expand_ok [OF assms, of 4]) simp_all
  from a b c d have "DeriveSessionKeys C x m cn sn =
      Inr \<lparr>C2SKey = a, S2CKey = b, C2SNonce = c, S2CNonce = d\<rparr>"
    by (simp add: DeriveSessionKeys_def ewp_consts)
  with a b c d show thesis
    by (intro that) (auto simp: wf_keys_def)
qed

lemma newChaChaAEAD_ok [simp]: "length key = 32 \<Longrightarrow> newChaChaAEAD key = Inr key"
  by (simp add: newChaChaAEAD_def)

end
