(* ===== verification/Frame.thy ===== *)
theory Frame
  imports Kdf
begin

text \<open>
  \<^verbatim>\<open>src/frame.go\<close>: the wire frames of an established session. A \<open>FrameAEAD\<close> is one
  direction's cipher, nonce prefix and running counter, the counter a \<open>64 word\<close> as in
  the source. Encoding and decoding are functions of that state, of the bytes to read
  and of the random source, and return the state they leave behind.

  Shown: a frame that was encoded is decoded by a peer in the same state, which stays in
  step, also over whole sequences; what the decoder accepts is exactly what the encoder
  writes in that state; failures leave the counter alone; an accepted frame is refused
  ever after; no nonce of a frame that was returned is used again before the counter wraps;
  sizes stay in bounds.
\<close>

section \<open>Data\<close>

definition FrameTCPData :: byte where "FrameTCPData = 0x01"
definition FrameUDPData :: byte where "FrameUDPData = 0x02"
definition FrameUDPNew :: byte where "FrameUDPNew = 0x03"
definition FrameUDPEnd :: byte where "FrameUDPEnd = 0x04"
definition FrameUDPProbeReq :: byte where "FrameUDPProbeReq = 0x05"
definition FrameUDPProbeResp :: byte where "FrameUDPProbeResp = 0x06"
definition FramePing :: byte where "FramePing = 0x10"
definition FramePong :: byte where "FramePong = 0x11"
definition FrameRekeyReq :: byte where "FrameRekeyReq = 0x12"
definition FrameRekeyResp :: byte where "FrameRekeyResp = 0x13"
definition FramePaddingOnly :: byte where "FramePaddingOnly = 0x20"

lemmas frame_types = FrameTCPData_def FrameUDPData_def FrameUDPNew_def FrameUDPEnd_def
  FrameUDPProbeReq_def FrameUDPProbeResp_def FramePing_def FramePong_def
  FrameRekeyReq_def FrameRekeyResp_def FramePaddingOnly_def

definition FrameType_Valid :: "byte \<Rightarrow> bool" where
  "FrameType_Valid t \<longleftrightarrow>
     t \<in> set [FrameTCPData, FrameUDPData, FrameUDPNew, FrameUDPEnd,
        FrameUDPProbeReq, FrameUDPProbeResp,
        FramePing, FramePong,
        FrameRekeyReq, FrameRekeyResp,
        FramePaddingOnly]"

definition frameHdrFrameLen :: nat where "frameHdrFrameLen = 4"
definition frameHdrCounter :: nat where "frameHdrCounter = 8"
definition frameHdrType :: nat where "frameHdrType = 1"
definition frameHdrMetaLen :: nat where "frameHdrMetaLen = 2"
definition frameHdrPadLen :: nat where "frameHdrPadLen = 2"
definition frameHeaderSize :: nat where
  "frameHeaderSize = frameHdrFrameLen + frameHdrCounter + frameHdrType + frameHdrMetaLen + frameHdrPadLen"
definition aeadTagLen :: nat where "aeadTagLen = 16"

declare frameHdrFrameLen_def [ewp_consts] frameHdrCounter_def [ewp_consts]
  frameHdrType_def [ewp_consts] frameHdrMetaLen_def [ewp_consts] frameHdrPadLen_def [ewp_consts]
  frameHeaderSize_def [ewp_consts] aeadTagLen_def [ewp_consts]

record FrameAEAD =
  fa_aead :: bytes
  fa_prefix :: bytes
  fa_counter :: u64

record DecodedFrame =
  df_Counter :: u64
  df_Type :: byte
  df_Meta :: bytes
  df_Payload :: bytes

section \<open>Operations\<close>

definition NewFrameAEAD :: "bytes \<Rightarrow> bytes \<Rightarrow> ewp_error + FrameAEAD" where
  "NewFrameAEAD key prefix =
     (case newChaChaAEAD key of
        Inl err \<Rightarrow> Inl (ErrWrap ''ewp/v2: chacha20poly1305.New'' err)
      | Inr a \<Rightarrow> Inr \<lparr>fa_aead = a, fa_prefix = prefix, fa_counter = 0\<rparr>)"

definition FrameAEAD_Counter :: "FrameAEAD \<Rightarrow> u64" where
  "FrameAEAD_Counter f = fa_counter f"

definition composeNonce :: "FrameAEAD \<Rightarrow> u64 \<Rightarrow> bytes" where
  "composeNonce f counter = fa_prefix f @ put_be 8 counter"

text \<open>The 17 header bytes, which are also the additional data of the AEAD.\<close>

definition frame_hdr :: "int \<Rightarrow> u64 \<Rightarrow> byte \<Rightarrow> nat \<Rightarrow> int \<Rightarrow> bytes" where
  "frame_hdr frameLen counter t metaLen padLen =
     put_be 4 (word_of_int frameLen :: u32) @ put_be 8 counter @ [t] @
     put_be 2 (word_of_nat metaLen :: u16) @ put_be 2 (word_of_int padLen :: u16)"

text \<open>
  The encoder is written once, with a trace: beside what the Go function returns it lists
  the calls it makes of the cipher's \<^verbatim>\<open>Seal\<close>, with their arguments, including a call whose
  result is thrown away because the padding could not be read afterwards.
  \<open>EncodeFrameAppend\<close> is that function without the trace.
\<close>

record seal_call =
  sl_key :: bytes
  sl_nonce :: bytes
  sl_plain :: bytes
  sl_aad :: bytes

definition Seal_traced :: "crypto \<Rightarrow> bytes \<Rightarrow> bytes \<Rightarrow> bytes \<Rightarrow> bytes \<Rightarrow> bytes \<times> seal_call list" where
  "Seal_traced C key nonce plain aad =
     (chacha_Seal C key nonce plain aad,
      [\<lparr>sl_key = key, sl_nonce = nonce, sl_plain = plain, sl_aad = aad\<rparr>])"

definition EncodeFrameAppend_traced ::
  "crypto \<Rightarrow> bytes \<Rightarrow> FrameAEAD \<Rightarrow> byte \<Rightarrow> bytes \<Rightarrow> bytes \<Rightarrow> int \<Rightarrow> bytes \<Rightarrow>
   ((bytes \<times> ewp_error option) \<times> FrameAEAD \<times> bytes) \<times> seal_call list" where
  "EncodeFrameAppend_traced C dst f t meta payload padLen0 rnd =
     (if \<not> FrameType_Valid t then (((dst, Some ErrFrameType), f, rnd), [])
      else if length meta > MaxMetaLen then (((dst, Some ErrMetaTooLarge), f, rnd), [])
      else
        let padLen = (if padLen0 < 0 then 0 else padLen0) in
        if padLen > MaxFramePad then (((dst, Some ErrPadTooLarge), f, rnd), [])
        else
          let plainLen = length meta + length payload;
              cipherLen = plainLen + aeadTagLen;
              frameLen = int (frameHdrCounter + frameHdrType + frameHdrMetaLen + frameHdrPadLen +
                cipherLen) + padLen in
          if frameLen > MaxFrameSize then (((dst, Some ErrFrameTooLarge), f, rnd), [])
          else
            let counter = fa_counter f;
                hdr = frame_hdr frameLen counter t (length meta) padLen;
                nonce = composeNonce f counter;
                (cipher, calls) = Seal_traced C (fa_aead f) nonce (meta @ payload) hdr in
            if padLen > 0 then
              (case io_ReadFull (nat padLen) rnd of
                 (Inl err, rnd') \<Rightarrow> (((dst, Some (ErrWrap ''ewp/v2: pad rand'' err)), f, rnd'), calls)
               | (Inr pad, rnd') \<Rightarrow>
                   (((dst @ hdr @ cipher @ pad, None), f\<lparr>fa_counter := counter + 1\<rparr>, rnd'), calls))
            else (((dst @ hdr @ cipher, None), f\<lparr>fa_counter := counter + 1\<rparr>, rnd), calls))"

definition EncodeFrameAppend ::
  "crypto \<Rightarrow> bytes \<Rightarrow> FrameAEAD \<Rightarrow> byte \<Rightarrow> bytes \<Rightarrow> bytes \<Rightarrow> int \<Rightarrow> bytes \<Rightarrow>
   (bytes \<times> ewp_error option) \<times> FrameAEAD \<times> bytes" where
  "EncodeFrameAppend C dst f t meta payload padLen rnd =
     fst (EncodeFrameAppend_traced C dst f t meta payload padLen rnd)"

text \<open>\<^verbatim>\<open>EncodeFrame\<close> hands the frame to an \<^verbatim>\<open>io.Writer\<close>, here its \<^verbatim>\<open>Write\<close> method.\<close>

definition EncodeFrame ::
  "('w \<Rightarrow> bytes \<Rightarrow> ewp_error option \<times> 'w) \<Rightarrow> crypto \<Rightarrow> 'w \<Rightarrow> FrameAEAD \<Rightarrow> byte \<Rightarrow> bytes \<Rightarrow> bytes \<Rightarrow>
   int \<Rightarrow> bytes \<Rightarrow> ewp_error option \<times> 'w \<times> FrameAEAD \<times> bytes" where
  "EncodeFrame write C w f t meta payload padLen rnd =
     (case EncodeFrameAppend C [] f t meta payload padLen rnd of
        ((wire, Some err), f', rnd') \<Rightarrow> (Some err, w, f', rnd')
      | ((wire, None), f', rnd') \<Rightarrow> (case write w wire of (err, w') \<Rightarrow> (err, w', f', rnd')))"

text \<open>
  \<^verbatim>\<open>DecodeFrame\<close> in the three stretches of its body: the header is read and taken apart,
  the lengths are checked and ciphertext and padding read, and then counter, type and
  AEAD decide.
\<close>

definition decode_body ::
  "crypto \<Rightarrow> FrameAEAD \<Rightarrow> bytes \<Rightarrow> u64 \<Rightarrow> byte \<Rightarrow> nat \<Rightarrow> bytes \<Rightarrow> (ewp_error + DecodedFrame) \<times> FrameAEAD" where
  "decode_body C f hdr counter t metaLen cipherBuf =
     (if counter \<noteq> fa_counter f then (Inl ErrCounterMismatch, f)
      else if \<not> FrameType_Valid t then (Inl ErrFrameType, f)
      else
        let nonce = composeNonce f counter in
        case chacha_Open C (fa_aead f) nonce cipherBuf hdr of
          None \<Rightarrow> (Inl ErrAEADOpen, f)
        | Some plain \<Rightarrow>
            if length plain < metaLen then (Inl ErrFrameTooShort, f)
            else (Inr \<lparr>df_Counter = counter, df_Type = t,
                       df_Meta = take metaLen plain, df_Payload = drop metaLen plain\<rparr>,
                  f\<lparr>fa_counter := counter + 1\<rparr>))"

definition decode_after_hdr ::
  "crypto \<Rightarrow> FrameAEAD \<Rightarrow> bytes \<Rightarrow> int \<Rightarrow> u64 \<Rightarrow> byte \<Rightarrow> nat \<Rightarrow> nat \<Rightarrow> bytes \<Rightarrow>
   (ewp_error + DecodedFrame) \<times> bytes \<times> FrameAEAD" where
  "decode_after_hdr C f hdr frameLen counter t metaLen padLen r =
     (if frameLen > MaxFrameSize then (Inl ErrFrameTooLarge, r, f)
      else if metaLen > MaxMetaLen then (Inl ErrMetaTooLarge, r, f)
      else if int padLen > MaxFramePad then (Inl ErrPadTooLarge, r, f)
      else
        let bodyLen = frameLen -
              int (frameHdrCounter + frameHdrType + frameHdrMetaLen + frameHdrPadLen) in
        if bodyLen < int padLen + int aeadTagLen + int metaLen then (Inl ErrFrameTooShort, r, f)
        else
          let cipherLen = bodyLen - int padLen in
          case io_ReadFull (nat cipherLen) r of
            (Inl err, r) \<Rightarrow> (Inl err, r, f)
          | (Inr cipherBuf, r) \<Rightarrow>
              (case (if padLen > 0 then io_CopyN_discard padLen r else (None, r)) of
                 (Some err, r) \<Rightarrow> (Inl err, r, f)
               | (None, r) \<Rightarrow>
                   (case decode_body C f hdr counter t metaLen cipherBuf of
                      (res, f') \<Rightarrow> (res, r, f'))))"

definition DecodeFrame ::
  "crypto \<Rightarrow> bytes \<Rightarrow> FrameAEAD \<Rightarrow> (ewp_error + DecodedFrame) \<times> bytes \<times> FrameAEAD" where
  "DecodeFrame C r f =
     (case io_ReadFull frameHeaderSize r of
        (Inl err, r) \<Rightarrow> (Inl err, r, f)
      | (Inr hdr, r) \<Rightarrow>
          decode_after_hdr C f hdr
            (uint (get_be (subslice 0 4 hdr) :: u32))
            (get_be (subslice 4 12 hdr))
            (hdr ! 12)
            (unat (get_be (subslice 13 15 hdr) :: u16))
            (unat (get_be (subslice 15 17 hdr) :: u16)) r)"

text \<open>\<^verbatim>\<open>int(binary.BigEndian.Uint32(b[:])) & 0x7fffffff\<close>.\<close>

definition rand31 :: "bytes \<Rightarrow> int" where
  "rand31 b = uint ((get_be b :: u32) AND 0x7fffffff)"

definition SuggestPadLen :: "int \<Rightarrow> int \<Rightarrow> bytes \<Rightarrow> int \<times> bytes" where
  "SuggestPadLen minPad0 maxPad0 rnd =
     (let minPad = (if minPad0 < 0 then 0 else minPad0);
          maxPad = (if maxPad0 > MaxFramePad then MaxFramePad else maxPad0) in
      if minPad \<ge> maxPad then (minPad, rnd)
      else
        let span = maxPad - minPad + 1 in
        (case io_ReadFull 4 rnd of
           (Inl err, rnd') \<Rightarrow> (minPad, rnd')
         | (Inr b, rnd') \<Rightarrow> (minPad + (rand31 b mod span), rnd')))"

definition NewGlobalID :: "bytes \<Rightarrow> (ewp_error + bytes) \<times> bytes" where
  "NewGlobalID rnd =
     (case io_ReadFull 8 rnd of
        (Inl err, rnd') \<Rightarrow> (Inl (Panic ''ewp/v2: crypto/rand failed for GlobalID: '' err), rnd')
      | (Inr b, rnd') \<Rightarrow> (Inr b, rnd'))"

section \<open>The frame on the wire\<close>

text \<open>The declared types: a 32-byte key and a 4-byte prefix.\<close>

definition wf_fa :: "FrameAEAD \<Rightarrow> bool" where
  "wf_fa f \<longleftrightarrow> length (fa_aead f) = 32 \<and> length (fa_prefix f) = 4"

text \<open>The requests \<^verbatim>\<open>EncodeFrameAppend\<close> does not refuse, and the bytes it writes for them.\<close>

definition frame_fits :: "byte \<Rightarrow> bytes \<Rightarrow> bytes \<Rightarrow> int \<Rightarrow> bool" where
  "frame_fits t meta payload padLen \<longleftrightarrow>
     FrameType_Valid t \<and> length meta \<le> MaxMetaLen \<and> padLen \<le> MaxFramePad \<and>
     int (13 + length meta + length payload + 16) + max 0 padLen \<le> MaxFrameSize"

definition frame_wire :: "crypto \<Rightarrow> FrameAEAD \<Rightarrow> byte \<Rightarrow> bytes \<Rightarrow> bytes \<Rightarrow> bytes \<Rightarrow> bytes" where
  "frame_wire C f t meta payload pad =
     (let hdr = frame_hdr (int (13 + length meta + length payload + 16 + length pad)) (fa_counter f)
                  t (length meta) (int (length pad)) in
      hdr @ chacha_Seal C (fa_aead f) (composeNonce f (fa_counter f)) (meta @ payload) hdr @ pad)"

definition bump :: "FrameAEAD \<Rightarrow> FrameAEAD" where
  "bump f = f\<lparr>fa_counter := fa_counter f + 1\<rparr>"

lemma length_frame_hdr [simp, wire_simps]: "length (frame_hdr n c t m p) = 17"
  by (simp add: frame_hdr_def)

lemma frame_hdr_fields [simp]:
  "take 4 (frame_hdr n c t m p) = put_be 4 (word_of_int n :: u32)"
  "subslice 4 12 (frame_hdr n c t m p) = put_be 8 c"
  "frame_hdr n c t m p ! 12 = t"
  "subslice 13 15 (frame_hdr n c t m p) = put_be 2 (word_of_nat m :: u16)"
  "subslice 15 17 (frame_hdr n c t m p) = put_be 2 (word_of_int p :: u16)"
  by (simp_all add: frame_hdr_def nth_append)

lemma length_composeNonce [simp, wire_simps]: "wf_fa f \<Longrightarrow> length (composeNonce f c) = 12"
  by (simp add: composeNonce_def wf_fa_def)

lemma wf_bump [simp]: "wf_fa (bump f) = wf_fa f"
  by (simp add: wf_fa_def bump_def)

lemma bump_sel [simp]: "fa_counter (bump f) = fa_counter f + 1" "fa_aead (bump f) = fa_aead f"
  "fa_prefix (bump f) = fa_prefix f"
  by (simp_all add: bump_def)

lemma length_frame_wire [wire_simps]:
  "aead_ok C \<Longrightarrow> wf_fa f \<Longrightarrow>
     length (frame_wire C f t meta payload pad) = 17 + length meta + length payload + 16 + length pad"
  by (simp add: frame_wire_def Let_def aead_seal_len wf_fa_def length_composeNonce)

section \<open>Encoding and decoding one frame\<close>

text \<open>The encoder without its trace, written out.\<close>

lemma EncodeFrameAppend_eq:
  "EncodeFrameAppend C dst f t meta payload padLen0 rnd =
     (if \<not> FrameType_Valid t then ((dst, Some ErrFrameType), f, rnd)
      else if length meta > MaxMetaLen then ((dst, Some ErrMetaTooLarge), f, rnd)
      else
        let padLen = (if padLen0 < 0 then 0 else padLen0) in
        if padLen > MaxFramePad then ((dst, Some ErrPadTooLarge), f, rnd)
        else
          let plainLen = length meta + length payload;
              cipherLen = plainLen + aeadTagLen;
              frameLen = int (frameHdrCounter + frameHdrType + frameHdrMetaLen + frameHdrPadLen +
                cipherLen) + padLen in
          if frameLen > MaxFrameSize then ((dst, Some ErrFrameTooLarge), f, rnd)
          else
            let counter = fa_counter f;
                hdr = frame_hdr frameLen counter t (length meta) padLen;
                nonce = composeNonce f counter;
                cipher = chacha_Seal C (fa_aead f) nonce (meta @ payload) hdr in
            if padLen > 0 then
              (case io_ReadFull (nat padLen) rnd of
                 (Inl err, rnd') \<Rightarrow> ((dst, Some (ErrWrap ''ewp/v2: pad rand'' err)), f, rnd')
               | (Inr pad, rnd') \<Rightarrow>
                   ((dst @ hdr @ cipher @ pad, None), f\<lparr>fa_counter := counter + 1\<rparr>, rnd'))
            else ((dst @ hdr @ cipher, None), f\<lparr>fa_counter := counter + 1\<rparr>, rnd))"
  by (auto simp: EncodeFrameAppend_def EncodeFrameAppend_traced_def Seal_traced_def Let_def split: prod.splits sum.splits)

lemma EncodeFrameAppend_fits:
  assumes "frame_fits t meta payload padLen" and "nat padLen \<le> length rnd"
  shows "EncodeFrameAppend C dst f t meta payload padLen rnd =
    ((dst @ frame_wire C f t meta payload (take (nat padLen) rnd), None), bump f, drop (nat padLen) rnd)"
proof -
  have "padLen > 0 \<Longrightarrow> io_ReadFull (nat padLen) rnd = (Inr (take (nat padLen) rnd), drop (nat padLen) rnd)"
    using assms(2) by (simp add: io_ReadFull_def)
  with assms show ?thesis
    by (auto simp: EncodeFrameAppend_eq frame_fits_def frame_wire_def bump_def Let_def ewp_consts)
qed

lemma EncodeFrameAppend_short_rand:
  assumes "frame_fits t meta payload padLen" and "length rnd < nat padLen"
  shows "\<exists>e. EncodeFrameAppend C dst f t meta payload padLen rnd =
    ((dst, Some (ErrWrap ''ewp/v2: pad rand'' e)), f, [])"
  using assms
  by (auto simp: EncodeFrameAppend_eq frame_fits_def io_ReadFull_def Let_def ewp_consts)

lemma EncodeFrameAppend_not_fits:
  assumes "\<not> frame_fits t meta payload padLen"
  shows "\<exists>e \<in> {ErrFrameType, ErrMetaTooLarge, ErrPadTooLarge, ErrFrameTooLarge}.
    EncodeFrameAppend C dst f t meta payload padLen rnd = ((dst, Some e), f, rnd)"
  using assms by (auto simp: EncodeFrameAppend_eq frame_fits_def Let_def ewp_consts)

lemma EncodeFrameAppend_cases [consumes 1, case_names ok fail]:
  assumes "EncodeFrameAppend C dst f t meta payload padLen rnd = ((w, err), f', rnd')"
  obtains (ok) "frame_fits t meta payload padLen" "nat padLen \<le> length rnd" "err = None"
      "w = dst @ frame_wire C f t meta payload (take (nat padLen) rnd)" "f' = bump f"
      "rnd' = drop (nat padLen) rnd"
    | (fail) e where "err = Some e" "w = dst" "f' = f"
proof (cases "frame_fits t meta payload padLen")
  case False
  with assms EncodeFrameAppend_not_fits [of t meta payload padLen C dst f rnd] fail show thesis
    by auto
next
  case fits: True
  show thesis
  proof (cases "nat padLen \<le> length rnd")
    case True
    with assms EncodeFrameAppend_fits [OF fits True, of C dst f] ok fits show thesis by auto
  next
    case False
    with assms EncodeFrameAppend_short_rand [OF fits, of rnd C dst f] fail show thesis by auto
  qed
qed

text \<open>
  The decoder on an assembled header: it sees the fields that were put in. Every string of
  17 bytes is such a header.
\<close>

lemma DecodeFrame_hdr:
  assumes "0 \<le> n" "n < 2 ^ 32" "m < 2 ^ 16" "p < 2 ^ 16"
  shows "DecodeFrame C (frame_hdr n counter t m (int p) @ r) f =
    decode_after_hdr C f (frame_hdr n counter t m (int p)) n counter t m p r"
  using uint_u32 [OF assms(1,2)] unat_u16 [OF assms(3)] unat_u16 [OF assms(4)]
  by (simp add: DecodeFrame_def ewp_consts)

lemma hdr_split:
  assumes "length hdr = 17"
  shows "hdr = subslice 0 4 hdr @ subslice 4 12 hdr @ [hdr ! 12] @ subslice 13 15 hdr @ subslice 15 17 hdr"
proof -
  have "[hdr ! 12] = subslice 12 13 hdr"
    using assms subslice_single [of 12 hdr] by simp
  then show ?thesis
    using assms by (simp only: subslice_chain) (simp add: subslice_chain)
qed

lemma frame_hdr_of_fields:
  assumes "length hdr = 17"
  shows "frame_hdr (uint (get_be (subslice 0 4 hdr) :: u32)) (get_be (subslice 4 12 hdr)) (hdr ! 12)
    (unat (get_be (subslice 13 15 hdr) :: u16)) (int (unat (get_be (subslice 15 17 hdr) :: u16))) = hdr"
  using assms hdr_split [OF assms] by (simp add: frame_hdr_def del: subslice_0)

lemma hdr_is_frame_hdr:
  assumes "length hdr = 17"
  obtains n counter t m p where "hdr = frame_hdr n counter t m (int p)"
    "0 \<le> n" "n < 2 ^ 32" "m < 2 ^ 16" "p < 2 ^ 16"
proof (rule that [OF frame_hdr_of_fields [OF assms, symmetric]])
  show "uint (get_be (subslice 0 4 hdr) :: u32) < 2 ^ 32"
    using uint_lt2p [of "get_be (subslice 0 4 hdr) :: u32"] by simp
  show "unat (get_be (subslice 13 15 hdr) :: u16) < 2 ^ 16" "unat (get_be (subslice 15 17 hdr) :: u16) < 2 ^ 16"
    by (rule unat_u16_less)+
qed simp

lemma DecodeFrame_reads:
  assumes "17 \<le> length r"
  obtains n counter t m p r1 where "r = frame_hdr n counter t m (int p) @ r1"
    "\<And>g. DecodeFrame C r g = decode_after_hdr C g (frame_hdr n counter t m (int p)) n counter t m p r1"
proof -
  from assms have "length (take 17 r) = 17" by simp
  then obtain n counter t m p where h: "take 17 r = frame_hdr n counter t m (int p)"
    and b: "0 \<le> n" "n < 2 ^ 32" "m < 2 ^ 16" "p < 2 ^ 16"
    by (rule hdr_is_frame_hdr)
  then have "r = frame_hdr n counter t m (int p) @ drop 17 r"
    by (metis append_take_drop_id)
  with DecodeFrame_hdr [OF b] that show thesis by metis
qed

text \<open>A header in bounds, followed by all it announces: the AEAD stage decides.\<close>

lemma decode_after_hdr_image:
  assumes n: "n = int (13 + length c + length pad)" "n \<le> 65536"
    and m: "m \<le> 1024" "m + 16 \<le> length c" and p: "length pad \<le> 4096"
  shows "decode_after_hdr C f hdr n counter t m (length pad) (c @ pad @ rest) =
    (case decode_body C f hdr counter t m c of (res, f') \<Rightarrow> (res, rest, f'))"
  using assms by (simp add: decode_after_hdr_def ewp_consts)

lemma decode_after_hdr_accept:
  assumes "decode_after_hdr C f hdr n counter t m p r = (Inr df, r', f')"
  obtains c pad where "r = c @ pad @ r'" "p = length pad"
    "n = int (13 + length c + length pad)" "n \<le> 65536" "m \<le> 1024" "m + 16 \<le> length c" "length pad \<le> 4096"
    "decode_body C f hdr counter t m c = (Inr df, f')"
proof -
  let ?k = "nat (n - 13 - int p)"
  from assms have b: "n \<le> 65536" "m \<le> 1024" "p \<le> 4096" "int (p + 16 + m) \<le> n - 13"
    by (auto simp: decode_after_hdr_def ewp_consts Let_def split: if_splits)
  from assms have r: "?k \<le> length r" "p \<le> length r - ?k" "r' = drop p (drop ?k r)"
    and d: "decode_body C f hdr counter t m (take ?k r) = (Inr df, f')"
    by (auto simp: decode_after_hdr_def ewp_consts Let_def io_ReadFull_Inr io_CopyN_discard_None
        split: if_splits prod.splits sum.splits option.splits)
  from r(3) have "r = take ?k r @ take p (drop ?k r) @ r'"
    by (metis append_take_drop_id)
  with b r(1,2) d show thesis
    by (intro that [of "take ?k r" "take p (drop ?k r)"]) (simp_all add: min_def)
qed

lemma DecodeFrame_accept:
  assumes "DecodeFrame C r f = (Inr df, r', f')"
  obtains n m c pad where
    "r = frame_hdr n (fa_counter f) (df_Type df) m (int (length pad)) @ c @ pad @ r'"
    "n = int (13 + length c + length pad)" "n \<le> 65536" "m \<le> 1024" "m + 16 \<le> length c" "length pad \<le> 4096"
    "decode_body C f (frame_hdr n (fa_counter f) (df_Type df) m (int (length pad))) (fa_counter f)
       (df_Type df) m c = (Inr df, f')"
proof -
  have "17 \<le> length r"
    using assms by (rule contrapos_pp) (auto simp: DecodeFrame_def io_ReadFull_def ewp_consts)
  then obtain n counter t m p r1 where r: "r = frame_hdr n counter t m (int p) @ r1"
    and D: "\<And>g. DecodeFrame C r g = decode_after_hdr C g (frame_hdr n counter t m (int p)) n counter t m p r1"
    using DecodeFrame_reads by metis
  from assms D obtain c pad where r1: "r1 = c @ pad @ r'" and p: "p = length pad"
    and b: "n = int (13 + length c + length pad)" "n \<le> 65536" "m \<le> 1024" "m + 16 \<le> length c" "length pad \<le> 4096"
    and d: "decode_body C f (frame_hdr n counter t m (int p)) counter t m c = (Inr df, f')"
    by (metis decode_after_hdr_accept)
  from d have "counter = fa_counter f" "t = df_Type df"
    by (auto simp: decode_body_def Let_def split: if_splits option.splits)
  with r r1 p b d show thesis by (intro that [of n m pad c]) auto
qed

text \<open>With an authenticating cipher: the bytes read are the encoder's bytes.\<close>

lemma decode_body_sound:
  assumes C: "aead_auth C" and f: "wf_fa f"
    and d: "decode_body C f hdr counter t m c = (Inr df, f')"
  shows "counter = fa_counter f \<and> FrameType_Valid t \<and> f' = bump f \<and> m = length (df_Meta df) \<and>
    c = chacha_Seal C (fa_aead f) (composeNonce f counter) (df_Meta df @ df_Payload df) hdr \<and>
    df_Counter df = counter \<and> df_Type df = t"
proof -
  from d obtain plain where o: "chacha_Open C (fa_aead f) (composeNonce f counter) c hdr = Some plain"
    and r: "counter = fa_counter f" "FrameType_Valid t" "m \<le> length plain" "f' = bump f"
      "df = \<lparr>df_Counter = counter, df_Type = t, df_Meta = take m plain, df_Payload = drop m plain\<rparr>"
    by (auto simp: decode_body_def bump_def Let_def split: if_splits option.splits)
  have "c = chacha_Seal C (fa_aead f) (composeNonce f counter) plain hdr"
    by (rule aead_open_sealed [OF C _ _ o]) (use f in \<open>auto simp: wf_fa_def composeNonce_def\<close>)
  with r show ?thesis by simp
qed

lemma DecodeFrame_sound:
  assumes C: "aead_ok C" "aead_auth C" and f: "wf_fa f"
    and d: "DecodeFrame C r f = (Inr df, r', f')"
  obtains pad where "frame_fits (df_Type df) (df_Meta df) (df_Payload df) (int (length pad))"
    "r = frame_wire C f (df_Type df) (df_Meta df) (df_Payload df) pad @ r'"
    "df_Counter df = fa_counter f" "f' = bump f"
proof -
  obtain n m c pad where r: "r = frame_hdr n (fa_counter f) (df_Type df) m (int (length pad)) @ c @ pad @ r'"
    and b: "n = int (13 + length c + length pad)" "n \<le> 65536" "m \<le> 1024" "length pad \<le> 4096"
    and d: "decode_body C f (frame_hdr n (fa_counter f) (df_Type df) m (int (length pad))) (fa_counter f)
       (df_Type df) m c = (Inr df, f')"
    using d by (rule DecodeFrame_accept)
  note s = decode_body_sound [OF C(2) f d]
  then have "length c = length (df_Meta df) + length (df_Payload df) + 16"
    using aead_seal_len [OF C(1), of "fa_aead f" "composeNonce f (fa_counter f)"
        "df_Meta df @ df_Payload df"] f by (simp add: wf_fa_def composeNonce_def)
  with s b r show thesis
    by (intro that [of pad]) (auto simp: frame_fits_def ewp_consts frame_wire_def Let_def)
qed

text \<open>A peer in the same state reads the frame back and stays in step.\<close>

lemma DecodeFrame_frame_wire:
  assumes C: "aead_ok C" and f: "wf_fa f"
    and fits: "frame_fits t meta payload (int (length pad))"
  shows "DecodeFrame C (frame_wire C f t meta payload pad @ rest) f =
    (Inr \<lparr>df_Counter = fa_counter f, df_Type = t, df_Meta = meta, df_Payload = payload\<rparr>, rest, bump f)"
proof -
  let ?n = "int (13 + length meta + length payload + 16 + length pad)"
  let ?hdr = "frame_hdr ?n (fa_counter f) t (length meta) (int (length pad))"
  let ?c = "chacha_Seal C (fa_aead f) (composeNonce f (fa_counter f)) (meta @ payload) ?hdr"
  have k: "length (fa_aead f) = 32" "length (composeNonce f (fa_counter f)) = 12"
    using f by (simp_all add: wf_fa_def composeNonce_def)
  have b: "?n \<le> 65536" "length meta \<le> 1024" "length pad \<le> 4096" "FrameType_Valid t"
    using fits by (auto simp: frame_fits_def ewp_consts)
  have body: "decode_body C f ?hdr (fa_counter f) t (length meta) ?c =
      (Inr \<lparr>df_Counter = fa_counter f, df_Type = t, df_Meta = meta, df_Payload = payload\<rparr>, bump f)"
    using b by (simp add: decode_body_def aead_open_seal [OF C k] bump_def)
  have "DecodeFrame C (?hdr @ ?c @ pad @ rest) f =
      decode_after_hdr C f ?hdr ?n (fa_counter f) t (length meta) (length pad) (?c @ pad @ rest)"
    by (rule DecodeFrame_hdr) (use b in simp_all)
  also have "\<dots> = (Inr \<lparr>df_Counter = fa_counter f, df_Type = t, df_Meta = meta, df_Payload = payload\<rparr>,
      rest, bump f)"
    using decode_after_hdr_image [of ?n ?c pad "length meta" C f ?hdr "fa_counter f" t rest]
      body b aead_seal_len [OF C k] by simp
  finally show ?thesis by (simp add: frame_wire_def Let_def)
qed

lemma DecodeFrame_fail_state:
  assumes "DecodeFrame C r f = (Inl e, r', f')"
  shows "f' = f"
  using assms
  by (auto simp: DecodeFrame_def decode_after_hdr_def decode_body_def Let_def
      split: if_splits prod.splits sum.splits option.splits)

lemma DecodeFrame_accept_state:
  assumes "DecodeFrame C r f = (Inr df, r', f')"
  shows "f' = bump f \<and> df_Counter df = fa_counter f \<and> FrameType_Valid (df_Type df) \<and>
    length (df_Meta df) \<le> 1024"
proof -
  from assms obtain n m c pad where
    "r = frame_hdr n (fa_counter f) (df_Type df) m (int (length pad)) @ c @ pad @ r'" "m \<le> 1024"
    "decode_body C f (frame_hdr n (fa_counter f) (df_Type df) m (int (length pad))) (fa_counter f)
       (df_Type df) m c = (Inr df, f')"
    by (rule DecodeFrame_accept)
  then show ?thesis
    by (cases df) (auto simp: decode_body_def bump_def Let_def split: if_splits option.splits)
qed

text \<open>The bytes of an accepted frame are refused in any state with another counter.\<close>

lemma DecodeFrame_other_counter:
  assumes "DecodeFrame C r f = (Inr df, r', f')" and "fa_counter g \<noteq> fa_counter f"
  shows "DecodeFrame C r g = (Inl ErrCounterMismatch, r', g)"
proof -
  obtain n m c pad where r: "r = frame_hdr n (fa_counter f) (df_Type df) m (int (length pad)) @ c @ pad @ r'"
    and b: "n = int (13 + length c + length pad)" "n \<le> 65536" "m \<le> 1024" "m + 16 \<le> length c" "length pad \<le> 4096"
    using assms(1) by (rule DecodeFrame_accept)
  have "DecodeFrame C r g = decode_after_hdr C g (frame_hdr n (fa_counter f) (df_Type df) m (int (length pad)))
      n (fa_counter f) (df_Type df) m (length pad) (c @ pad @ r')"
    unfolding r by (rule DecodeFrame_hdr) (use b in simp_all)
  with assms(2) show ?thesis
    using decode_after_hdr_image [OF b] by (simp add: decode_body_def)
qed

section \<open>Runs of frames\<close>

text \<open>
  One direction of a session as a sequence of calls: \<open>EncodeAll\<close> makes the encoding calls
  of a list of requests (type, meta, payload, pad length) and records each frame that was
  written; a refused request writes nothing. \<open>EncodeAll_traced\<close> makes the same calls and
  records for each request the frame returned, if any, and the calls of \<^verbatim>\<open>Seal\<close> made.
  \<open>DecodeAll\<close> makes up to \<open>n\<close> decoding calls on one reader and stops at the first error.
\<close>

record sent_frame =
  sf_frame :: DecodedFrame
  sf_wire :: bytes

fun EncodeAll ::
  "crypto \<Rightarrow> FrameAEAD \<Rightarrow> (byte \<times> bytes \<times> bytes \<times> int) list \<Rightarrow> bytes \<Rightarrow> sent_frame list \<times> FrameAEAD" where
  "EncodeAll C f [] rnd = ([], f)"
| "EncodeAll C f ((t, meta, payload, padLen) # qs) rnd =
     (case EncodeFrameAppend C [] f t meta payload padLen rnd of
        ((wire, Some err), f', rnd') \<Rightarrow> EncodeAll C f' qs rnd'
      | ((wire, None), f', rnd') \<Rightarrow>
          (case EncodeAll C f' qs rnd' of (sent, f'') \<Rightarrow>
            (\<lparr>sf_frame = \<lparr>df_Counter = fa_counter f, df_Type = t, df_Meta = meta, df_Payload = payload\<rparr>,
              sf_wire = wire\<rparr> # sent, f'')))"

fun EncodeAll_traced ::
  "crypto \<Rightarrow> FrameAEAD \<Rightarrow> (byte \<times> bytes \<times> bytes \<times> int) list \<Rightarrow> bytes \<Rightarrow> (bytes option \<times> seal_call list) list" where
  "EncodeAll_traced C f [] rnd = []"
| "EncodeAll_traced C f ((t, meta, payload, padLen) # qs) rnd =
     (case EncodeFrameAppend_traced C [] f t meta payload padLen rnd of
        (((wire, err), f', rnd'), calls) \<Rightarrow>
          ((case err of None \<Rightarrow> Some wire | Some _ \<Rightarrow> None), calls) # EncodeAll_traced C f' qs rnd')"

fun DecodeAll ::
  "crypto \<Rightarrow> nat \<Rightarrow> bytes \<Rightarrow> FrameAEAD \<Rightarrow> DecodedFrame list \<times> bytes \<times> FrameAEAD" where
  "DecodeAll C 0 r f = ([], r, f)"
| "DecodeAll C (Suc n) r f =
     (case DecodeFrame C r f of
        (Inl err, r', f') \<Rightarrow> ([], r', f')
      | (Inr df, r', f') \<Rightarrow>
          (case DecodeAll C n r' f' of (dfs, r'', f'') \<Rightarrow> (df # dfs, r'', f'')))"

definition sent_of :: "crypto \<Rightarrow> FrameAEAD \<Rightarrow> byte \<Rightarrow> bytes \<Rightarrow> bytes \<Rightarrow> bytes \<Rightarrow> sent_frame" where
  "sent_of C f t meta payload pad =
     \<lparr>sf_frame = \<lparr>df_Counter = fa_counter f, df_Type = t, df_Meta = meta, df_Payload = payload\<rparr>,
      sf_wire = frame_wire C f t meta payload pad\<rparr>"

text \<open>The shape of every run: frames that fit, each sealed in the state the last one left.\<close>

inductive frames_sent :: "crypto \<Rightarrow> FrameAEAD \<Rightarrow> sent_frame list \<Rightarrow> FrameAEAD \<Rightarrow> bool" for C where
  none: "frames_sent C f [] f"
| frame: "frame_fits t meta payload (int (length pad)) \<Longrightarrow> frames_sent C (bump f) ss f' \<Longrightarrow>
    frames_sent C f (sent_of C f t meta payload pad # ss) f'"

lemma EncodeAll_frames_sent:
  "EncodeAll C f qs rnd = (ss, f') \<Longrightarrow> frames_sent C f ss f'"
proof (induction qs arbitrary: f rnd ss f')
  case Nil
  then show ?case by (auto intro: frames_sent.none)
next
  case (Cons q qs)
  obtain t meta payload padLen where q: "q = (t, meta, payload, padLen)"
    by (metis prod.exhaust)
  obtain w err g rnd' where E: "EncodeFrameAppend C [] f t meta payload padLen rnd = ((w, err), g, rnd')"
    by (metis prod.exhaust)
  from E show ?case
  proof (cases rule: EncodeFrameAppend_cases)
    case ok
    obtain ss' h where R: "EncodeAll C (bump f) qs rnd' = (ss', h)"
      by (metis prod.exhaust)
    have "frame_fits t meta payload (int (length (take (nat padLen) rnd)))"
      using ok(1,2) by (auto simp: frame_fits_def MaxFramePad_def)
    moreover have "ss = sent_of C f t meta payload (take (nat padLen) rnd) # ss'" "f' = h"
      using Cons.prems q E ok(3,4,5) R by (auto simp: sent_of_def)
    ultimately show ?thesis
      using Cons.IH [OF R] by (auto intro: frames_sent.frame)
  next
    case (fail e)
    with Cons q E show ?thesis by simp
  qed
qed

lemma frames_sent_state:
  "frames_sent C f ss f' \<Longrightarrow> f' = f\<lparr>fa_counter := fa_counter f + of_nat (length ss)\<rparr>"
  by (induction rule: frames_sent.induct) (auto simp: bump_def add.assoc)

lemma composeNonce_inj: "composeNonce f c = composeNonce f d \<longleftrightarrow> c = d"
  by (simp add: composeNonce_def put_be64_inj)

text \<open>
  The trace of one call: a request that is not refused leads to one call of \<^verbatim>\<open>Seal\<close>.
\<close>

definition seal_of :: "FrameAEAD \<Rightarrow> byte \<Rightarrow> bytes \<Rightarrow> bytes \<Rightarrow> int \<Rightarrow> seal_call" where
  "seal_of f t meta payload padLen =
     \<lparr>sl_key = fa_aead f, sl_nonce = composeNonce f (fa_counter f), sl_plain = meta @ payload,
      sl_aad = frame_hdr (int (13 + length meta + length payload + 16) + max 0 padLen) (fa_counter f)
        t (length meta) (max 0 padLen)\<rparr>"

lemma EncodeFrameAppend_calls:
  "snd (EncodeFrameAppend_traced C dst f t meta payload padLen rnd) =
     (if frame_fits t meta payload padLen then [seal_of f t meta payload padLen] else [])"
proof (cases "FrameType_Valid t \<and> length meta \<le> MaxMetaLen \<and> padLen \<le> MaxFramePad")
  case True
  then show ?thesis
    by (cases "io_ReadFull (nat padLen) rnd"; cases "fst (io_ReadFull (nat padLen) rnd)")
      (auto simp: EncodeFrameAppend_traced_def Seal_traced_def seal_of_def frame_fits_def Let_def ewp_consts max_def
        algebra_simps)
next
  case False
  then show ?thesis
    by (auto simp: EncodeFrameAppend_traced_def frame_fits_def Let_def ewp_consts)
qed

lemma EncodeFrameAppend_traced_cases [consumes 1, case_names ok fail]:
  assumes "EncodeFrameAppend_traced C dst f t meta payload padLen rnd = (((w, err), f', rnd'), calls)"
  obtains (ok) c pad where "err = None" "f' = bump f" "calls = [c]"
      "sl_key c = fa_aead f" "sl_nonce c = composeNonce f (fa_counter f)"
      "w = dst @ sl_aad c @ chacha_Seal C (sl_key c) (sl_nonce c) (sl_plain c) (sl_aad c) @ pad"
    | (fail) e where "err = Some e" "f' = f"
      "\<forall>c \<in> set calls. sl_key c = fa_aead f \<and> sl_nonce c = composeNonce f (fa_counter f)"
proof -
  have calls: "calls = (if frame_fits t meta payload padLen then [seal_of f t meta payload padLen] else [])"
    using EncodeFrameAppend_calls [of C dst f t meta payload padLen rnd] by (simp add: assms)
  have "EncodeFrameAppend C dst f t meta payload padLen rnd = ((w, err), f', rnd')"
    by (simp add: EncodeFrameAppend_def assms)
  then show thesis
  proof (cases rule: EncodeFrameAppend_cases)
    case ok
    have "int (length (take (nat padLen) rnd)) = max 0 padLen" using ok(2) by simp
    then have "w = dst @ sl_aad (seal_of f t meta payload padLen) @
        chacha_Seal C (fa_aead f) (composeNonce f (fa_counter f)) (meta @ payload) (sl_aad (seal_of f t meta payload padLen)) @
        take (nat padLen) rnd"
      using ok(4) by (simp add: frame_wire_def seal_of_def Let_def)
    with ok calls show thesis
      by (intro that(1) [of "seal_of f t meta payload padLen" "take (nat padLen) rnd"]) (simp_all add: seal_of_def)
  next
    case (fail e)
    with calls show thesis by (intro that(2) [of e]) (simp_all add: seal_of_def)
  qed
qed

lemma length_EncodeAll_traced: "length (EncodeAll_traced C f qs rnd) = length qs"
  by (induction C f qs rnd rule: EncodeAll_traced.induct) (auto split: prod.splits)

lemma returned_before_less:
  assumes "i < j" and "j < length xs" and "xs ! i = (Some w, calls)"
  shows "length (filter (\<lambda>(out, _). out \<noteq> None) (take i xs)) < length (filter (\<lambda>(out, _). out \<noteq> None) (take j xs))"
proof -
  have "take j xs = take i xs @ xs ! i # drop (Suc i) (take j xs)"
    using assms(1,2) id_take_nth_drop [of i "take j xs"] by (simp add: min_def)
  then obtain rest where "take j xs = take i xs @ xs ! i # rest" ..
  then show ?thesis using assms(3) by simp
qed

text \<open>
  The call at position \<open>j\<close> of a run is made in the state that the frames returned before it
  have left.
\<close>

lemma EncodeAll_traced_nth:
  assumes "j < length qs"
  shows "\<exists>t meta payload padLen rnd1 f1. f1 = f\<lparr>fa_counter := fa_counter f +
      of_nat (length (filter (\<lambda>(out, _). out \<noteq> None) (take j (EncodeAll_traced C f qs rnd))))\<rparr> \<and>
    EncodeAll_traced C f qs rnd ! j =
      (case EncodeFrameAppend_traced C [] f1 t meta payload padLen rnd1 of
        (((wire, err), f', rnd'), calls) \<Rightarrow> ((case err of None \<Rightarrow> Some wire | Some _ \<Rightarrow> None), calls))"
  using assms
proof (induction qs arbitrary: j f rnd)
  case (Cons q qs)
  obtain t meta payload padLen where q: "q = (t, meta, payload, padLen)"
    by (metis prod.exhaust)
  obtain w err g rnd' calls where E: "EncodeFrameAppend_traced C [] f t meta payload padLen rnd = (((w, err), g, rnd'), calls)"
    by (metis prod.exhaust)
  show ?case
  proof (cases j)
    case 0
    then show ?thesis
      by (intro exI [of _ t] exI [of _ meta] exI [of _ payload] exI [of _ padLen] exI [of _ rnd] exI [of _ f])
        (simp add: q E)
  next
    case (Suc k)
    have "g = f\<lparr>fa_counter := fa_counter f + (if err = None then 1 else 0)\<rparr>"
      using E by (cases rule: EncodeFrameAppend_traced_cases) (auto simp: bump_def)
    with Suc Cons.prems Cons.IH [of k g rnd'] show ?thesis
      by (cases err) (auto simp: q E add.assoc)
  qed
qed simp

lemma EncodeAll_traced_calls:
  assumes "j < length qs" and "c \<in> set (snd (EncodeAll_traced C f qs rnd ! j))"
  shows "sl_key c = fa_aead f \<and> sl_nonce c = composeNonce f (fa_counter f +
    of_nat (length (filter (\<lambda>(out, _). out \<noteq> None) (take j (EncodeAll_traced C f qs rnd)))))"
proof -
  obtain t meta payload padLen rnd1 f1 where f1: "f1 = f\<lparr>fa_counter := fa_counter f +
      of_nat (length (filter (\<lambda>(out, _). out \<noteq> None) (take j (EncodeAll_traced C f qs rnd))))\<rparr>"
    and n: "EncodeAll_traced C f qs rnd ! j = (case EncodeFrameAppend_traced C [] f1 t meta payload padLen rnd1 of
        (((wire, err), f', rnd'), calls) \<Rightarrow> ((case err of None \<Rightarrow> Some wire | Some _ \<Rightarrow> None), calls))"
    using EncodeAll_traced_nth [OF assms(1), of f C rnd] by (elim exE conjE)
  obtain w err g rnd' calls where E: "EncodeFrameAppend_traced C [] f1 t meta payload padLen rnd1 = (((w, err), g, rnd'), calls)"
    by (metis prod.exhaust)
  then have "sl_key c = fa_aead f1 \<and> sl_nonce c = composeNonce f1 (fa_counter f1)"
    using assms(2) by (cases rule: EncodeFrameAppend_traced_cases) (auto simp: n E)
  then show ?thesis by (simp add: f1 composeNonce_def)
qed

lemma EncodeAll_traced_returned:
  assumes "EncodeAll_traced C f qs rnd ! j = (Some w, calls)" and "j < length qs"
  shows "\<exists>c pad. calls = [c] \<and> sl_key c = fa_aead f \<and> sl_nonce c = composeNonce f (fa_counter f +
      of_nat (length (filter (\<lambda>(out, _). out \<noteq> None) (take j (EncodeAll_traced C f qs rnd))))) \<and>
    w = sl_aad c @ chacha_Seal C (sl_key c) (sl_nonce c) (sl_plain c) (sl_aad c) @ pad"
proof -
  obtain t meta payload padLen rnd1 f1 where
    "EncodeAll_traced C f qs rnd ! j = (case EncodeFrameAppend_traced C [] f1 t meta payload padLen rnd1 of
        (((wire, err), f', rnd'), calls) \<Rightarrow> ((case err of None \<Rightarrow> Some wire | Some _ \<Rightarrow> None), calls))"
    using EncodeAll_traced_nth [OF assms(2), of f C rnd] by (elim exE conjE)
  then obtain g rnd' where "EncodeFrameAppend_traced C [] f1 t meta payload padLen rnd1 = (((w, None), g, rnd'), calls)"
    using assms(1) by (auto split: prod.splits option.splits)
  then obtain c pad where "calls = [c]"
    "w = sl_aad c @ chacha_Seal C (sl_key c) (sl_nonce c) (sl_plain c) (sl_aad c) @ pad"
    by (cases rule: EncodeFrameAppend_traced_cases) auto
  then show ?thesis using EncodeAll_traced_calls [OF assms(2), of c C f rnd] assms(1) by simp
qed

lemma DecodeAll_frames_sent:
  assumes "frames_sent C f ss f'" and "aead_ok C" and "wf_fa f"
  shows "DecodeAll C (length ss) (concat (map sf_wire ss) @ rest) f = (map sf_frame ss, rest, f')"
  using assms
proof (induction rule: frames_sent.induct)
  case (frame t meta payload pad f ss f')
  then show ?case
    by (simp add: sent_of_def DecodeFrame_frame_wire)
qed simp

lemma DecodeAll_counter:
  "DecodeAll C n r f = (dfs, r', f') \<Longrightarrow> f' = f\<lparr>fa_counter := fa_counter f + of_nat (length dfs)\<rparr>"
proof (induction C n r f arbitrary: dfs r' f' rule: DecodeAll.induct)
  case (2 C n r f)
  then show ?case
    by (auto split: prod.splits sum.splits dest!: DecodeFrame_fail_state DecodeFrame_accept_state
        simp: bump_def add.assoc)
qed simp

section \<open>Padding lengths\<close>

lemma rand31_bounds: "0 \<le> rand31 b \<and> rand31 b < 2 ^ 31"
proof -
  have "uint ((get_be b :: u32) AND 0x7fffffff) = uint (get_be b :: u32) AND 0x7fffffff"
    by (simp add: unsigned_and_eq)
  also have "\<dots> = uint (get_be b :: u32) mod 2 ^ 31"
    using take_bit_eq_mask [of 31 "uint (get_be b :: u32)"] by (simp add: take_bit_eq_mod mask_eq_exp_minus_1)
  finally show ?thesis by (simp add: rand31_def)
qed

lemma SuggestPadLen_range:
  assumes "SuggestPadLen lo hi rnd = (n, rnd')" and "0 \<le> lo" and "lo \<le> hi" and "hi \<le> MaxFramePad"
  shows "lo \<le> n \<and> n \<le> hi"
proof -
  have "0 \<le> k mod (hi - lo + 1) \<and> lo + k mod (hi - lo + 1) \<le> hi" for k
    using assms(3) pos_mod_bound [of "hi - lo + 1" k] pos_mod_sign [of "hi - lo + 1" k] by linarith
  then show ?thesis
    using assms by (auto simp: SuggestPadLen_def Let_def split: if_splits prod.splits sum.splits)
qed

section \<open>Properties\<close>

text \<open>
  The cipher state, header and requests the witnesses use.
\<close>

definition toy_fa :: FrameAEAD where
  "toy_fa = \<lparr>fa_aead = replicate 32 1, fa_prefix = [1, 2, 3, 4], fa_counter = 5\<rparr>"

lemma wf_toy_fa: "wf_fa toy_fa"
  by (simp add: wf_fa_def toy_fa_def)

lemma toy_fits: "frame_fits FrameTCPData [] [104, 105] 3" "frame_fits FrameTCPData [] [104, 105] 0"
  by (simp_all add: frame_fits_def FrameType_Valid_def ewp_consts)

text \<open>
  Frame round trip. When \<^verbatim>\<open>EncodeFrameAppend\<close> succeeds, the bytes it appends, followed by
  anything, are decoded by a peer whose cipher state equals the sender's: the peer gets
  counter, type, meta and payload back unchanged, reads exactly that frame and nothing of
  what follows, and ends in the sender's new state.
\<close>
theorem frame_roundtrip:
  assumes "aead_ok C" and "wf_fa f"
    and "EncodeFrameAppend C dst f t meta payload padLen rnd = ((out, None), f', rnd')"
  shows "\<exists>wire. out = dst @ wire \<and> DecodeFrame C (wire @ rest) f =
    (Inr \<lparr>df_Counter = fa_counter f, df_Type = t, df_Meta = meta, df_Payload = payload\<rparr>, rest, f')"
  using assms(3)
proof (cases rule: EncodeFrameAppend_cases)
  case ok
  then have "frame_fits t meta payload (int (length (take (nat padLen) rnd)))"
    by (auto simp: frame_fits_def MaxFramePad_def)
  with ok assms(1,2) show ?thesis by (auto simp: DecodeFrame_frame_wire)
qed simp

theorem frame_roundtrip_witness:
  "\<exists>out. EncodeFrameAppend toy_crypto [9] toy_fa FrameTCPData [] [104, 105] 3 [7, 7, 7] =
      ((out, None), bump toy_fa, []) \<and>
    (\<exists>wire. out = [9] @ wire \<and> DecodeFrame toy_crypto (wire @ [8]) toy_fa =
      (Inr \<lparr>df_Counter = 5, df_Type = FrameTCPData, df_Meta = [], df_Payload = [104, 105]\<rparr>, [8], bump toy_fa))"
  using EncodeFrameAppend_fits [OF toy_fits(1), of "[7, 7, 7]" toy_crypto "[9]" toy_fa]
    frame_roundtrip [OF toy_aead_ok wf_toy_fa, of "[9]" FrameTCPData "[]" "[104, 105]" 3 "[7, 7, 7]" _ _ _ "[8]"]
  by (simp add: toy_fa_def)

text \<open>
  C9: Authenticity of accepted frames. With a cipher whose \<^verbatim>\<open>Open\<close> accepts only what \<^verbatim>\<open>Seal\<close>
  produces, \<^verbatim>\<open>DecodeFrame\<close> accepts exactly what \<^verbatim>\<open>EncodeFrameAppend\<close> writes in the
  receiver's current state: it returns a frame, leaving \<open>r'\<close> unread, if and only if the bytes
  read are, for some pad bytes, the very encoding of that frame under the receiver's key, its
  nonce prefix and the counter it expects next. Acceptance advances the counter by one.
\<close>
theorem frame_decode_sound:
  assumes "aead_ok C" and "aead_auth C" and "wf_fa f"
  shows "DecodeFrame C r f = (Inr df, r', f') \<longleftrightarrow>
    (\<exists>pad wire. EncodeFrameAppend C [] f (df_Type df) (df_Meta df) (df_Payload df) (int (length pad)) pad =
        ((wire, None), f', []) \<and> r = wire @ r' \<and> df_Counter df = fa_counter f \<and>
      f' = f\<lparr>fa_counter := fa_counter f + 1\<rparr>)"
    (is "?accepted \<longleftrightarrow> ?encoded")
proof
  assume ?accepted
  obtain pad where "frame_fits (df_Type df) (df_Meta df) (df_Payload df) (int (length pad))"
    and "r = frame_wire C f (df_Type df) (df_Meta df) (df_Payload df) pad @ r'"
    and "df_Counter df = fa_counter f" "f' = bump f"
    using assms \<open>?accepted\<close> by (rule DecodeFrame_sound)
  then show ?encoded
    using EncodeFrameAppend_fits [of "df_Type df" "df_Meta df" "df_Payload df" "int (length pad)" pad C "[]" f]
    by (auto simp: bump_def)
next
  assume ?encoded
  then obtain pad wire where e: "EncodeFrameAppend C [] f (df_Type df) (df_Meta df) (df_Payload df)
      (int (length pad)) pad = ((wire, None), f', [])"
    and r: "r = wire @ r'" "df_Counter df = fa_counter f" by blast
  from e show ?accepted
  proof (cases rule: EncodeFrameAppend_cases)
    case ok
    with r DecodeFrame_frame_wire [OF assms(1,3) ok(1), of r'] show ?thesis by (cases df) simp
  qed simp
qed

theorem frame_decode_sound_witness:
  "DecodeFrame toy_crypto (frame_wire toy_crypto toy_fa FrameTCPData [] [104, 105] [7, 7, 7] @ [8]) toy_fa =
      (Inr \<lparr>df_Counter = 5, df_Type = FrameTCPData, df_Meta = [], df_Payload = [104, 105]\<rparr>,
       [8], bump toy_fa)"
  using EncodeFrameAppend_fits [OF toy_fits(1), of "[7, 7, 7]" toy_crypto "[]" toy_fa]
  by (subst frame_decode_sound [OF toy_aead_ok toy_aead_auth wf_toy_fa])
    (rule exI [of _ "[7, 7, 7]"], simp add: toy_fa_def bump_def)

text \<open>
  No frame is accepted twice. After a frame has been accepted, and any number of further
  frames that keeps the total below \<open>2 ^ 64\<close>, the same bytes are rejected with
  \<^verbatim>\<open>ErrCounterMismatch\<close>, whatever follows them and whatever the cipher would say.
\<close>
theorem frame_replay_rejected:
  assumes "DecodeFrame C r f = (Inr df, r', f')"
    and "DecodeAll C n s f' = (dfs, s', g)" and "length dfs + 1 < 2 ^ 64"
  shows "DecodeFrame C r g = (Inl ErrCounterMismatch, r', g)"
proof (rule DecodeFrame_other_counter [OF assms(1)])
  have "fa_counter g = fa_counter f + of_nat (length dfs + 1)"
    using DecodeAll_counter [OF assms(2)] DecodeFrame_accept_state [OF assms(1)] by (simp add: add.assoc)
  moreover have "(of_nat (length dfs + 1) :: u64) \<noteq> 0"
    using of_nat_u64_inj [of "length dfs + 1" 0] assms(3) by simp
  ultimately show "fa_counter g \<noteq> fa_counter f" by simp
qed

theorem frame_replay_rejected_witness:
  "DecodeFrame toy_crypto (frame_wire toy_crypto toy_fa FrameTCPData [] [104, 105] []) (bump toy_fa) =
    (Inl ErrCounterMismatch, [], bump toy_fa)"
proof (rule frame_replay_rejected)
  show "DecodeFrame toy_crypto (frame_wire toy_crypto toy_fa FrameTCPData [] [104, 105] []) toy_fa =
      (Inr \<lparr>df_Counter = fa_counter toy_fa, df_Type = FrameTCPData, df_Meta = [], df_Payload = [104, 105]\<rparr>,
       [], bump toy_fa)"
    using DecodeFrame_frame_wire [OF toy_aead_ok wf_toy_fa, of FrameTCPData "[]" "[104, 105]" "[]" "[]"] toy_fits(2)
    by simp
  show "DecodeAll toy_crypto 0 [] (bump toy_fa) = ([], [], bump toy_fa)" by simp
qed simp

text \<open>
  C18: A whole direction stays in order. For any sequence of encoding requests, refused ones
  included, decoding the concatenated bytes of the frames written yields exactly those
  frames, in order, and leaves what follows unread and the receiver in the sender's state.
\<close>
theorem frame_sequence_roundtrip:
  assumes "aead_ok C" and "wf_fa f" and "EncodeAll C f qs rnd = (sent, f')"
  shows "DecodeAll C (length sent) (concat (map sf_wire sent) @ rest) f = (map sf_frame sent, rest, f')"
  using DecodeAll_frames_sent [OF EncodeAll_frames_sent [OF assms(3)] assms(1,2)] .

theorem frame_sequence_roundtrip_witness:
  "\<exists>sent f'. EncodeAll toy_crypto toy_fa [(FrameTCPData, [], [104], 0), (0x7f, [], [], 0), (FramePing, [], [1], 2)]
      [5, 5] = (sent, f') \<and> length sent = 2 \<and>
    DecodeAll toy_crypto 2 (concat (map sf_wire sent) @ [9]) toy_fa = (map sf_frame sent, [9], f')"
proof -
  let ?qs = "[(FrameTCPData, [], [104], 0), (0x7f, [], [], 0), (FramePing, [], [1], 2)]"
  obtain sent f' where E: "EncodeAll toy_crypto toy_fa ?qs [5, 5] = (sent, f')"
    by (metis prod.exhaust)
  have "length sent = 2"
    using E by (auto simp: EncodeFrameAppend_eq FrameType_Valid_def ewp_consts frame_types Let_def
        io_ReadFull_def split: prod.splits)
  with E frame_sequence_roundtrip [OF toy_aead_ok wf_toy_fa E, of "[9]"] show ?thesis by auto
qed

text \<open>
  C11: Nonces are never reused. \<open>EncodeAll_traced\<close> makes the encoding calls of a list of
  requests and lists, for each, the frame returned and the calls of \<^verbatim>\<open>Seal\<close> made. Every
  returned frame is its header and the result of exactly one \<^verbatim>\<open>Seal\<close>, followed by padding;
  and no later call of \<^verbatim>\<open>Seal\<close>, whether its result is returned or thrown away, is made with
  that nonce again, although the key stays the same, as long as fewer than \<open>2 ^ 64\<close> frames
  have been returned before it, where the counter wraps. What may be used again is the nonce
  of a result that was thrown away because its padding could not be read: the next frame has it.
\<close>
theorem frame_nonces_distinct:
  assumes "i < j" and "j < length qs"
    and "EncodeAll_traced C f qs rnd ! i = (Some w, calls)"
    and "length (filter (\<lambda>(out, _). out \<noteq> None) (take j (EncodeAll_traced C f qs rnd))) < 2 ^ 64"
  shows "\<exists>c pad. calls = [c] \<and> sl_key c = fa_aead f \<and>
    w = sl_aad c @ chacha_Seal C (sl_key c) (sl_nonce c) (sl_plain c) (sl_aad c) @ pad \<and>
    (\<forall>c' \<in> set (snd (EncodeAll_traced C f qs rnd ! j)). sl_key c' = fa_aead f \<and> sl_nonce c' \<noteq> sl_nonce c)"
proof -
  let ?n = "\<lambda>k. length (filter (\<lambda>(out, _). out \<noteq> None) (take k (EncodeAll_traced C f qs rnd)))"
  obtain c pad where c: "calls = [c]" "sl_key c = fa_aead f" "sl_nonce c = composeNonce f (fa_counter f + of_nat (?n i))"
    "w = sl_aad c @ chacha_Seal C (sl_key c) (sl_nonce c) (sl_plain c) (sl_aad c) @ pad"
    using EncodeAll_traced_returned [OF assms(3)] assms(1,2) by auto
  have "?n i < ?n j"
    using assms(1-3) returned_before_less [of i j "EncodeAll_traced C f qs rnd"]
    by (simp add: length_EncodeAll_traced)
  then have "(of_nat (?n i) :: u64) \<noteq> of_nat (?n j)"
    using of_nat_u64_inj [of "?n i" "?n j"] assms(4) by simp
  then have "sl_key c' = fa_aead f \<and> sl_nonce c' \<noteq> sl_nonce c"
    if "c' \<in> set (snd (EncodeAll_traced C f qs rnd ! j))" for c'
    using EncodeAll_traced_calls [OF assms(2) that] by (simp add: c(3) composeNonce_inj)
  with c show ?thesis by blast
qed

theorem frame_nonces_distinct_witness:
  "\<exists>w c c'. EncodeAll_traced toy_crypto toy_fa [(FrameTCPData, [], [104], 0), (FramePing, [], [1], 2)] [] =
      [(Some w, [c]), (None, [c'])] \<and> sl_nonce c' \<noteq> sl_nonce c"
proof -
  let ?qs = "[(FrameTCPData, [], [104], 0), (FramePing, [], [1], 2)]"
  obtain w c c' where E: "EncodeAll_traced toy_crypto toy_fa ?qs [] = [(Some w, [c]), (None, [c'])]"
    by (simp add: EncodeFrameAppend_traced_def Seal_traced_def FrameType_Valid_def ewp_consts frame_types Let_def
        io_ReadFull_def)
  with frame_nonces_distinct [of 0 1 ?qs toy_crypto toy_fa "[]" w "[c]"] show ?thesis by simp
qed

text \<open>
  A call that fails changes nothing. A failing \<^verbatim>\<open>EncodeFrameAppend\<close> returns the destination
  buffer as it was and does not advance the counter, and fails exactly when a size or type
  limit is broken or the random source runs dry.
\<close>
theorem frame_encode_failure:
  "(\<exists>e. snd (fst (EncodeFrameAppend C dst f t meta payload padLen rnd)) = Some e \<and>
        fst (fst (EncodeFrameAppend C dst f t meta payload padLen rnd)) = dst \<and>
        fst (snd (EncodeFrameAppend C dst f t meta payload padLen rnd)) = f)
   = (\<not> (frame_fits t meta payload padLen \<and> nat padLen \<le> length rnd))"
proof -
  obtain w err f' rnd' where E: "EncodeFrameAppend C dst f t meta payload padLen rnd = ((w, err), f', rnd')"
    by (metis prod.exhaust)
  from E show ?thesis
  proof (cases rule: EncodeFrameAppend_cases)
    case (fail e)
    moreover have "\<not> (frame_fits t meta payload padLen \<and> nat padLen \<le> length rnd)"
      using EncodeFrameAppend_fits [of t meta payload padLen rnd C dst f] E fail(1) by auto
    ultimately show ?thesis by (simp add: E)
  qed (simp add: E)
qed

text \<open>
  Sizes on the wire. A written frame is as long as header, meta, payload, tag and padding
  together, its length field counts all but the field itself, and the whole frame never
  exceeds \<^verbatim>\<open>MaxFrameSize\<close> by more than the four bytes of that field.
\<close>
theorem frame_wire_size:
  assumes "aead_ok C" and "wf_fa f"
    and "EncodeFrameAppend C [] f t meta payload padLen rnd = ((wire, None), f', rnd')"
  shows "int (length wire) = 17 + int (length meta) + int (length payload) + 16 + max 0 padLen \<and>
    uint (get_be (take 4 wire) :: u32) = int (length wire) - 4 \<and> int (length wire) \<le> MaxFrameSize + 4"
  using assms(3)
proof (cases rule: EncodeFrameAppend_cases)
  case ok
  let ?pad = "take (nat padLen) rnd"
  let ?n = "int (13 + length meta + length payload + 16 + length ?pad)"
  have len: "int (length wire) = ?n + 4"
    using ok length_frame_wire [OF assms(1,2)] by simp
  have n: "0 \<le> ?n" "?n \<le> MaxFrameSize" "int (length ?pad) = max 0 padLen"
    using ok(1,2) by (auto simp: frame_fits_def)
  have "take 4 wire = put_be 4 (word_of_int ?n :: u32)"
    using ok(4) by (simp add: frame_wire_def Let_def)
  then have "uint (get_be (take 4 wire) :: u32) = uint (word_of_int ?n :: u32)"
    by simp
  also have "\<dots> = ?n"
    by (rule uint_u32) (use n in \<open>auto simp: MaxFrameSize_def\<close>)
  finally show ?thesis using len n by simp
qed simp

theorem frame_wire_size_witness:
  "\<exists>wire. EncodeFrameAppend toy_crypto [] toy_fa FrameTCPData [] [104, 105] 3 [7, 7, 7] =
      ((wire, None), bump toy_fa, []) \<and> length wire = 38"
  using EncodeFrameAppend_fits [OF toy_fits(1), of "[7, 7, 7]" toy_crypto "[]" toy_fa]
    frame_wire_size [OF toy_aead_ok wf_toy_fa, of FrameTCPData "[]" "[104, 105]" 3 "[7, 7, 7]"]
  by simp

text \<open>
  \<^verbatim>\<open>SuggestPadLen\<close> stays between its bounds when they are ordered and within the spec
  maximum, for every state of the random source, a failing one included.
\<close>
theorem suggest_pad_len_bounds:
  assumes "0 \<le> lo" and "lo \<le> hi" and "hi \<le> MaxFramePad"
  shows "lo \<le> fst (SuggestPadLen lo hi rnd) \<and> fst (SuggestPadLen lo hi rnd) \<le> hi"
  using SuggestPadLen_range [of lo hi rnd] assms by (metis prod.collapse)

theorem suggest_pad_len_bounds_witness:
  "64 \<le> fst (SuggestPadLen 64 1024 [255, 255, 255, 255]) \<and>
   fst (SuggestPadLen 64 1024 [255, 255, 255, 255]) \<le> 1024"
  by (rule suggest_pad_len_bounds) (simp_all add: MaxFramePad_def)

end
