(* ===== verification/Replay.thy ===== *)
theory Replay
  imports Kdf "HOL-Library.Mapping"
begin

text \<open>
  \<^verbatim>\<open>src/anti_replay.go\<close>: the cache of (UUID, nonce) pairs. The map is a \<open>mapping\<close> from
  keys to expiry times, \<^verbatim>\<open>time.Now().Unix()\<close> an argument, the window nanoseconds as in the
  source, the sweep counter a \<open>32 word\<close>. A call is one atomic step, as the mutex makes it;
  the clock is read before the lock is taken, so the times of successive calls are not
  assumed to be ordered unless a statement says so.

  \<open>replay_guard\<close> is the contract the handshake relies on: a pair is refused exactly while
  it is live, an admitted pair is live for the window and no other pair is affected. Its
  lemmas lift that to runs of calls. \<open>rc_guard\<close> interprets it on the cache. The
  specification \<open>spec_mark\<close> keeps every pair for ever; the cache, which sweeps, answers
  like it.
\<close>

section \<open>Operations\<close>

definition time_Second :: int where "time_Second = 1000000000"
definition ReplayWindow :: int where
  "ReplayWindow = (HandshakeTimestampWindow + 60) * time_Second"
definition gcInterval :: u32 where "gcInterval = 1024"

declare time_Second_def [ewp_consts] ReplayWindow_def [ewp_consts] gcInterval_def [ewp_consts]

record ReplayCache =
  rc_entries :: "(bytes, int) mapping"
  rc_window :: int
  rc_gcCounter :: u32

definition makeReplayKey :: "bytes \<Rightarrow> bytes \<Rightarrow> bytes" where
  "makeReplayKey uuid nonce = uuid @ nonce"

definition NewReplayCache :: "int \<Rightarrow> ReplayCache" where
  "NewReplayCache window = \<lparr>rc_entries = Mapping.empty, rc_window = window, rc_gcCounter = 0\<rparr>"

definition gcLocked :: "int \<Rightarrow> ReplayCache \<Rightarrow> ReplayCache" where
  "gcLocked now c = c\<lparr>rc_entries := Mapping.filter (\<lambda>k exp. \<not> exp \<le> now) (rc_entries c)\<rparr>"

definition MarkSeenOrReject :: "int \<Rightarrow> ReplayCache \<Rightarrow> bytes \<Rightarrow> bytes \<Rightarrow> bool \<times> ReplayCache" where
  "MarkSeenOrReject now c uuid nonce =
     (let expiry = now + go_div (rc_window c) time_Second;
          key = makeReplayKey uuid nonce in
      if (case Mapping.lookup (rc_entries c) key of Some exp \<Rightarrow> exp > now | None \<Rightarrow> False)
      then (False, c)
      else
        let c = c\<lparr>rc_entries := Mapping.update key expiry (rc_entries c)\<rparr>;
            c = c\<lparr>rc_gcCounter := rc_gcCounter c + 1\<rparr> in
        if rc_gcCounter c \<ge> gcInterval
        then (True, gcLocked now (c\<lparr>rc_gcCounter := 0\<rparr>))
        else (True, c))"

definition ReplayCache_Len :: "ReplayCache \<Rightarrow> nat" where
  "ReplayCache_Len c = Mapping.size (rc_entries c)"

section \<open>Runs and the specification\<close>

text \<open>A run of guarded calls: the answers in order and the state left behind.\<close>

fun mark_run :: "(int \<Rightarrow> 'c \<Rightarrow> 'k \<Rightarrow> bool \<times> 'c) \<Rightarrow> 'c \<Rightarrow> (int \<times> 'k) list \<Rightarrow> bool list \<times> 'c" where
  "mark_run mark c [] = ([], c)"
| "mark_run mark c ((t, k) # es) =
     (case mark t c k of (b, c') \<Rightarrow> (case mark_run mark c' es of (bs, c'') \<Rightarrow> (b # bs, c'')))"

text \<open>
  What a replay guard with a window of \<open>w\<close> seconds promises, with no regard to memory: a
  table of expiry times from which nothing is ever removed.
\<close>

definition spec_live :: "('k \<rightharpoonup> int) \<Rightarrow> int \<Rightarrow> 'k \<Rightarrow> bool" where
  "spec_live m t k = (case m k of Some e \<Rightarrow> t < e | None \<Rightarrow> False)"

definition spec_mark :: "int \<Rightarrow> int \<Rightarrow> ('k \<rightharpoonup> int) \<Rightarrow> 'k \<Rightarrow> bool \<times> ('k \<rightharpoonup> int)" where
  "spec_mark w t m k = (if spec_live m t k then (False, m) else (True, m(k \<mapsto> t + w)))"

section \<open>The contract\<close>

text \<open>
  \<open>mark t c k\<close> is the guarded operation, \<open>live c t k\<close> whether \<open>k\<close> is refused at time
  \<open>t\<close>, \<open>W c\<close> the number of seconds a pair is remembered.
\<close>

locale replay_guard =
  fixes ok :: "'k \<Rightarrow> bool"
    and mark :: "int \<Rightarrow> 'c \<Rightarrow> 'k \<Rightarrow> bool \<times> 'c"
    and live :: "'c \<Rightarrow> int \<Rightarrow> 'k \<Rightarrow> bool"
    and W :: "'c \<Rightarrow> int"
  assumes answer: "fst (mark t c k) = (\<not> live c t k)"
    and reject: "live c t k \<Longrightarrow> snd (mark t c k) = c"
    and admit: "ok k \<Longrightarrow> \<not> live c t k \<Longrightarrow> t \<le> t' \<Longrightarrow> live (snd (mark t c k)) t' k \<longleftrightarrow> t' < t + W c"
    and frame: "ok k \<Longrightarrow> ok k' \<Longrightarrow> k \<noteq> k' \<Longrightarrow> t \<le> t' \<Longrightarrow> live (snd (mark t c k)) t' k' \<longleftrightarrow> live c t' k'"
    and antimono: "live c t' k \<Longrightarrow> t \<le> t' \<Longrightarrow> live c t k"
    and window: "W (snd (mark t c k)) = W c"
begin

lemma live_mark:
  assumes "ok k" and "ok k'" and "t \<le> t'" and "live c t' k"
  shows "live (snd (mark t c k')) t' k"
proof (cases "k' = k")
  case True
  with assms antimono reject show ?thesis by metis
next
  case False
  with assms frame show ?thesis by blast
qed

lemma live_run:
  assumes "ok k" and "live c t' k" and "\<forall>(t, k') \<in> set es. t \<le> t' \<and> ok k'"
  shows "live (snd (mark_run mark c es)) t' k"
  using assms
proof (induction es arbitrary: c)
  case (Cons e es)
  obtain s' k' where e: "e = (s', k')" by (cases e)
  obtain b c' where m: "mark s' c k' = (b, c')"
    by (metis prod.exhaust)
  have "live c' t' k"
    using live_mark [of k k' s' t' c] Cons.prems e m by auto
  with Cons.IH [of c'] Cons.prems e m show ?case
    by (auto split: prod.split)
qed simp

text \<open>
  An admitted pair is refused at every time before its window ends, after any calls that
  happen before its window ends, in whatever order of times.
\<close>

lemma no_double_admit:
  assumes "ok k" and "fst (mark t c k)" and "\<forall>(t', k') \<in> set es. t' < t + W c \<and> ok k'"
    and "s < t + W c" and "0 < W c"
  shows "\<not> fst (mark s (snd (mark_run mark (snd (mark t c k)) es)) k)"
proof -
  have "live (snd (mark t c k)) (t + W c - 1) k"
    using admit [of k c t "t + W c - 1"] assms(1,2,5) answer by simp
  then have "live (snd (mark_run mark (snd (mark t c k)) es)) (t + W c - 1) k"
    using live_run [of k] assms(1,3) by fastforce
  then show ?thesis
    using antimono [of _ "t + W c - 1" k s] assms(4) answer by simp
qed

text \<open>On calls in the order of their times the guard answers like the specification.\<close>

lemma run_refines:
  assumes "\<And>t k. t0 \<le> t \<Longrightarrow> ok k \<Longrightarrow> live c t k = spec_live m t k"
    and "\<forall>e \<in> set es. ok (snd e)" and "sorted (t0 # map fst es)"
  shows "fst (mark_run mark c es) = fst (mark_run (spec_mark (W c)) m es)"
  using assms
proof (induction es arbitrary: c m t0)
  case (Cons e es)
  obtain t k where e: "e = (t, k)" by (cases e)
  with Cons.prems have ok: "ok k" and t: "t0 \<le> t" and s: "sorted (t # map fst es)"
    by auto
  obtain b c' where m: "mark t c k = (b, c')"
    by (metis prod.exhaust)
  define m' where "m' = snd (spec_mark (W c) t m k)"
  have b: "b = fst (spec_mark (W c) t m k)"
    using answer [of t c k] m Cons.prems(1) [OF t ok] by (auto simp: spec_mark_def)
  have "live c' s' k' = spec_live m' s' k'" if "t \<le> s'" "ok k'" for s' k'
  proof (cases "live c t k")
    case True
    then have "c' = c" "m' = m"
      using reject [of c t k] m Cons.prems(1) [OF t ok] by (auto simp: m'_def spec_mark_def)
    with Cons.prems(1) [of s' k'] that t show ?thesis by simp
  next
    case False
    then have "m' = m(k \<mapsto> t + W c)"
      using Cons.prems(1) [OF t ok] by (auto simp: m'_def spec_mark_def)
    with admit [OF ok False that(1)] frame [OF ok that(2) _ that(1), of c] m that t Cons.prems(1) [of s' k']
    show ?thesis by (cases "k' = k") (auto simp: spec_live_def)
  qed
  then have "fst (mark_run mark c' es) = fst (mark_run (spec_mark (W c')) m' es)"
    using Cons.prems(2) s by (intro Cons.IH) auto
  moreover have "W c' = W c"
    using window [of t c k] m by simp
  ultimately show ?case
    using e m b by (auto simp: m'_def split: prod.splits)
qed simp

end

section \<open>The cache meets the contract\<close>

definition rc_ok :: "bytes \<times> bytes \<Rightarrow> bool" where
  "rc_ok k \<longleftrightarrow> length (fst k) = 16 \<and> length (snd k) = 12"

definition rc_mark :: "int \<Rightarrow> ReplayCache \<Rightarrow> bytes \<times> bytes \<Rightarrow> bool \<times> ReplayCache" where
  "rc_mark t c k = MarkSeenOrReject t c (fst k) (snd k)"

definition rc_live :: "ReplayCache \<Rightarrow> int \<Rightarrow> bytes \<times> bytes \<Rightarrow> bool" where
  "rc_live c t k = spec_live (Mapping.lookup (rc_entries c)) t (makeReplayKey (fst k) (snd k))"

definition rc_W :: "ReplayCache \<Rightarrow> int" where
  "rc_W c = go_div (rc_window c) time_Second"

lemma makeReplayKey_inj:
  "rc_ok k \<Longrightarrow> rc_ok k' \<Longrightarrow>
     makeReplayKey (fst k) (snd k) = makeReplayKey (fst k') (snd k') \<longleftrightarrow> k = k'"
  by (auto simp: makeReplayKey_def rc_ok_def prod_eq_iff)

text \<open>
  One call: refused without effect, or admitted, and then every later lookup sees the new
  pair and otherwise what it saw before, whether or not the call swept.
\<close>

lemma MarkSeenOrReject_cases:
  obtains (reject) "rc_live c t k" "rc_mark t c k = (False, c)"
  | (admit) c' where "\<not> rc_live c t k" "rc_mark t c k = (True, c')" "rc_window c' = rc_window c"
      "\<And>t' x. t \<le> t' \<Longrightarrow> spec_live (Mapping.lookup (rc_entries c')) t' x =
        spec_live ((Mapping.lookup (rc_entries c))(makeReplayKey (fst k) (snd k) \<mapsto> t + rc_W c)) t' x"
proof (cases "rc_live c t k")
  case True
  then show thesis
    by (intro reject) (auto simp: rc_mark_def MarkSeenOrReject_def rc_live_def spec_live_def Let_def
        split: option.splits)
next
  case False
  then show thesis
    by (intro admit [of "snd (rc_mark t c k)"])
      (auto simp: rc_mark_def MarkSeenOrReject_def rc_live_def spec_live_def Let_def gcLocked_def rc_W_def
        Mapping.lookup_filter Mapping.lookup_update' split: option.splits)
qed

interpretation rc_guard: replay_guard rc_ok rc_mark rc_live rc_W
proof
  fix t t' :: int and c k k'
  show "fst (rc_mark t c k) = (\<not> rc_live c t k)"
    by (cases rule: MarkSeenOrReject_cases [of c t k]) auto
  show "snd (rc_mark t c k) = c" if "rc_live c t k"
    using that by (cases rule: MarkSeenOrReject_cases [of c t k]) auto
  show "rc_live (snd (rc_mark t c k)) t' k \<longleftrightarrow> t' < t + rc_W c" if "\<not> rc_live c t k" "t \<le> t'"
    using that by (cases rule: MarkSeenOrReject_cases [of c t k])
      (auto simp: rc_live_def spec_live_def)
  show "rc_live (snd (rc_mark t c k)) t' k' \<longleftrightarrow> rc_live c t' k'"
    if "rc_ok k" "rc_ok k'" "k \<noteq> k'" "t \<le> t'"
    using that makeReplayKey_inj [of k k'] by (cases rule: MarkSeenOrReject_cases [of c t k])
      (auto simp: rc_live_def spec_live_def)
  show "rc_live c t k" if "rc_live c t' k" "t \<le> t'"
    using that by (auto simp: rc_live_def spec_live_def split: option.splits)
  show "rc_W (snd (rc_mark t c k)) = rc_W c"
    by (cases rule: MarkSeenOrReject_cases [of c t k]) (auto simp: rc_W_def)
qed

lemma gc_step:
  assumes "x < gcInterval"
  shows "x + 1 \<ge> gcInterval \<longleftrightarrow> x = gcInterval - 1" and "x + 1 \<noteq> 0"
proof -
  have u: "unat x < 1024"
    using assms by (simp add: gcInterval_def word_less_nat_alt)
  then have v: "unat (x + 1) = unat x + 1"
    by (simp add: unat_word_ariths)
  show "x + 1 \<ge> gcInterval \<longleftrightarrow> x = gcInterval - 1"
    using u by (simp add: gcInterval_def word_le_nat_alt word_unat_eq_iff v) arith
  show "x + 1 \<noteq> 0"
    by (simp add: word_unat_eq_iff v)
qed

section \<open>Properties\<close>

text \<open>
  No (UUID, nonce) pair is admitted twice within the window. Once a pair has been admitted
  at time \<open>t\<close>, every later call for it with a clock reading before \<open>t\<close> plus the window is
  refused, whatever calls for other pairs, sweeps included, happen in between with clock
  readings before that time, in whatever order.
\<close>
theorem replay_no_double_admit:
  assumes "length uuid = 16" and "length nonce = 12"
    and "MarkSeenOrReject t c uuid nonce = (True, c')"
    and "\<forall>(t', k) \<in> set es. t' < t + go_div (rc_window c) time_Second \<and> rc_ok k"
    and "mark_run rc_mark c' es = (answers, c'')"
    and "s < t + go_div (rc_window c) time_Second" and "time_Second \<le> rc_window c"
  shows "MarkSeenOrReject s c'' uuid nonce = (False, c'')"
proof -
  have W: "0 < rc_W c"
    using assms(7) by (simp add: rc_W_def ewp_consts go_div_nonneg)
  have m: "rc_mark t c (uuid, nonce) = (True, c')"
    using assms(3) by (simp add: rc_mark_def)
  have "\<not> fst (rc_mark s c'' (uuid, nonce))"
    using rc_guard.no_double_admit [of "(uuid, nonce)" t c es s] assms(1,2,4,5,6) W m
    by (simp add: rc_ok_def rc_W_def)
  then show ?thesis
    using rc_guard.answer [of s c'' "(uuid, nonce)"] rc_guard.reject [of c'' s "(uuid, nonce)"]
    by (simp add: rc_mark_def prod_eq_iff)
qed

theorem replay_no_double_admit_witness:
  "MarkSeenOrReject 1100 (snd (MarkSeenOrReject 1000 (NewReplayCache ReplayWindow) (replicate 16 1) (replicate 12 2)))
     (replicate 16 1) (replicate 12 2) =
   (False, snd (MarkSeenOrReject 1000 (NewReplayCache ReplayWindow) (replicate 16 1) (replicate 12 2)))"
proof (rule replay_no_double_admit [where t = 1000 and es = "[]" and answers = "[]"])
  show "MarkSeenOrReject 1000 (NewReplayCache ReplayWindow) (replicate 16 1) (replicate 12 2) =
      (True, snd (MarkSeenOrReject 1000 (NewReplayCache ReplayWindow) (replicate 16 1) (replicate 12 2)))"
    by (simp add: MarkSeenOrReject_def NewReplayCache_def ewp_consts Let_def)
qed (simp_all add: NewReplayCache_def ewp_consts go_div_nonneg)

text \<open>
  C10: The sweeping cache answers like a table that forgets nothing. For a fresh cache and any
  calls with non-decreasing clock readings, the answers are exactly those of the
  specification that remembers every pair for ever and compares expiry times.
\<close>
theorem replay_cache_refines_spec:
  assumes "\<forall>e \<in> set es. rc_ok (snd e)" and "sorted (map fst es)"
  shows "fst (mark_run rc_mark (NewReplayCache w) es) =
    fst (mark_run (spec_mark (go_div w time_Second)) Map.empty es)"
proof (cases es)
  case (Cons e es')
  have "sorted (fst e # map fst es)"
    using assms(2) Cons by simp
  with assms(1) show ?thesis
    using rc_guard.run_refines [of "fst e" "NewReplayCache w" Map.empty es]
    by (simp add: rc_live_def spec_live_def NewReplayCache_def rc_W_def)
qed simp

theorem replay_cache_refines_spec_witness:
  "fst (mark_run rc_mark (NewReplayCache ReplayWindow)
      [(10, replicate 16 1, replicate 12 2), (20, replicate 16 1, replicate 12 2), (190, replicate 16 1, replicate 12 2)]) =
   [True, False, True]"
  by (subst replay_cache_refines_spec)
    (simp_all add: rc_ok_def spec_mark_def spec_live_def ewp_consts go_div_nonneg)

text \<open>
  The sweep counter never reaches \<^verbatim>\<open>gcInterval\<close> between calls, so a sweep happens at every
  1024th admission, and after the call that sweeps no entry is expired.
\<close>
theorem replay_gc_invariant:
  assumes "rc_gcCounter c < gcInterval" and "MarkSeenOrReject now c uuid nonce = (b, c')"
  shows "rc_gcCounter c' < gcInterval \<and>
    (b \<longrightarrow> rc_gcCounter c' = (if rc_gcCounter c = gcInterval - 1 then 0 else rc_gcCounter c + 1)) \<and>
    (b \<and> rc_gcCounter c' = 0 \<longrightarrow> (\<forall>k exp. Mapping.lookup (rc_entries c') k = Some exp \<longrightarrow> now < exp))"
  using assms gc_step [OF assms(1)]
  by (auto simp: MarkSeenOrReject_def Let_def gcLocked_def Mapping.lookup_filter gcInterval_def not_le
      split: if_splits option.splits)

theorem replay_gc_invariant_witness:
  "rc_gcCounter (snd (MarkSeenOrReject 1000 ((NewReplayCache ReplayWindow)\<lparr>rc_gcCounter := 1023\<rparr>)
     (replicate 16 1) (replicate 12 2))) = 0"
proof -
  let ?c = "(NewReplayCache ReplayWindow)\<lparr>rc_gcCounter := 1023\<rparr>"
  have "rc_gcCounter ?c < gcInterval" by (simp add: gcInterval_def)
  moreover obtain c' where m: "MarkSeenOrReject 1000 ?c (replicate 16 1) (replicate 12 2) = (True, c')"
    by (auto simp: MarkSeenOrReject_def NewReplayCache_def Let_def gcInterval_def)
  ultimately show ?thesis
    using replay_gc_invariant [of ?c 1000 "replicate 16 1" "replicate 12 2" True c'] m
    by (simp add: gcInterval_def)
qed

end
