(* ===== verification/Handshake.thy ===== *)
theory Handshake
  imports Address Frame Replay
begin

text \<open>
  \<^verbatim>\<open>src/handshake.go\<close>: ClientHello and ServerHello, their wire codecs, and the three
  operations of the handshake, \<^verbatim>\<open>WriteClientHello\<close>, \<^verbatim>\<open>AcceptClientHelloWithReplay\<close> and
  \<^verbatim>\<open>ReadServerHello\<close>. Each call of \<^verbatim>\<open>time.Now()\<close> is an argument (unix seconds), the random
  source and the replay cache are passed through and returned, a nil pointer is \<open>None\<close>.
  The \<^verbatim>\<open>send\<close> callback is a function on the state of the transport behind it.

  Shown here: the round trips of both hellos and that their decoders accept only what the
  encoders produce. The theorems on the three operations are in \<^verbatim>\<open>Agreement\<close>.
\<close>

section \<open>Data\<close>

definition CommandTCP :: byte where "CommandTCP = 0x01"
definition CommandUDP :: byte where "CommandUDP = 0x02"
definition chacha20poly1305Overhead :: nat where "chacha20poly1305Overhead = 16"

declare chacha20poly1305Overhead_def [ewp_consts]

record ClientHello =
  ch_Nonce :: bytes
  ch_ClassicalPub :: bytes
  ch_PQPub :: bytes
  ch_Timestamp :: u32
  ch_UUID :: bytes
  ch_Command :: byte
  ch_Address :: Address

record ServerHello =
  sh_NonceEcho :: bytes
  sh_ClassicalPub :: bytes
  sh_PQCipher :: bytes
  sh_ServerTime :: u32
  sh_Status :: byte

record HandshakeResult =
  hr_Keys :: SessionKeys
  hr_ClientHello :: "ClientHello option"
  hr_ServerHello :: "ServerHello option"

record ClientHandshakeState =
  cs_uuid :: bytes
  cs_nonce :: bytes
  cs_x25519Priv :: "bytes option"
  cs_mlkemPriv :: "bytes option"
  cs_hello :: ClientHello

section \<open>Helpers\<close>

definition newHandshakeAEAD :: "bytes \<Rightarrow> ewp_error + bytes" where
  "newHandshakeAEAD key =
     (case newChaChaAEAD key of
        Inl err \<Rightarrow> Inl (ErrWrap ''ewp/v2: handshake AEAD construct'' err)
      | Inr a \<Rightarrow> Inr a)"

definition absDiff :: "int \<Rightarrow> int \<Rightarrow> int" where
  "absDiff a b = (if a > b then a - b else b - a)"

section \<open>Wire codecs\<close>

text \<open>\<^verbatim>\<open>EncodeClientHello\<close> builds the inner plaintext; the second half of its body seals it.\<close>

definition seal_client_hello :: "crypto \<Rightarrow> ClientHello \<Rightarrow> bytes \<Rightarrow> ewp_error + bytes" where
  "seal_client_hello C ch inner =
     (case HandshakeAEADKey C (ch_UUID ch) (ch_Nonce ch) of
        Inl err \<Rightarrow> Inl err
      | Inr key \<Rightarrow>
      (case newHandshakeAEAD key of
         Inl err \<Rightarrow> Inl err
       | Inr aead \<Rightarrow>
         let ctLen = length inner + chacha20poly1305Overhead in
         if ctLen > 65535 then Inl ErrHandshakeLong
         else
           let aad = ch_Nonce ch @ ch_ClassicalPub ch @ ch_PQPub ch @
                 put_be 2 (word_of_nat ctLen :: u16);
               cipher = chacha_Seal C aead (ch_Nonce ch) inner aad;
               out = aad @ cipher;
               mac = OuterMAC C (ch_UUID ch) out in
           Inr (out @ mac)))"

definition EncodeClientHello :: "crypto \<Rightarrow> ClientHello \<Rightarrow> bytes \<Rightarrow> (ewp_error + bytes) \<times> bytes" where
  "EncodeClientHello C ch rnd =
     (case Address_Append (ch_Address ch) [] of
        (addrBuf, Some err) \<Rightarrow> (Inl err, rnd)
      | (addrBuf, None) \<Rightarrow>
        (case SuggestPadLen MinHandshakePad MaxHandshakePad rnd of (padLen, rnd) \<Rightarrow>
        (case io_ReadFull (nat padLen) rnd of
           (Inl err, rnd) \<Rightarrow> (Inl (ErrWrap ''ewp/v2: pad rand'' err), rnd)
         | (Inr pad, rnd) \<Rightarrow>
           let inner = put_be 4 (ch_Timestamp ch) @ ch_UUID ch @ [ch_Command ch] @ addrBuf @
                 put_be 2 (word_of_int padLen :: u16) @ pad in
           (seal_client_hello C ch inner, rnd))))"

text \<open>The parsing of the decrypted inner plaintext, the second half of \<^verbatim>\<open>DecodeClientHello\<close>.\<close>

definition decode_inner :: "bytes \<Rightarrow> bytes \<Rightarrow> bytes \<Rightarrow> bytes \<Rightarrow> ewp_error + ClientHello" where
  "decode_inner nonce cpub pqpub plain =
     (if length plain < 4 + UUIDLen + 1 + 1 + 2 then Inl ErrPlaintextLayout
      else
        let pos = 4 + UUIDLen in
        case DecodeAddress (drop (pos + 1) plain) of
          Inl err \<Rightarrow> Inl (ErrWrap ''address'' ErrPlaintextLayout)
        | Inr (addr, n) \<Rightarrow>
            let pos' = pos + 1 + n in
            if length plain < pos' + 2 then Inl ErrPlaintextLayout
            else
              let padLen = unat (get_be (subslice pos' (pos' + 2) plain) :: u16) in
              if length plain \<noteq> pos' + 2 + padLen then Inl ErrPlaintextLayout
              else Inr \<lparr>ch_Nonce = nonce, ch_ClassicalPub = cpub, ch_PQPub = pqpub,
                        ch_Timestamp = get_be (subslice 0 4 plain),
                        ch_UUID = subslice 4 (4 + UUIDLen) plain,
                        ch_Command = plain ! pos, ch_Address = addr\<rparr>)"

definition DecodeClientHello :: "crypto \<Rightarrow> bytes \<Rightarrow> bytes \<Rightarrow> ewp_error + ClientHello" where
  "DecodeClientHello C msg uuid =
     (let fixedHeader = HandshakeNonce + X25519PubLen + MLKEM768PubLen + 2 in
      if length msg < fixedHeader + chacha20poly1305Overhead + OuterMACLen then Inl ErrHandshakeShort
      else
        let off = HandshakeNonce;
            nonce = subslice 0 off msg;
            cpub = subslice off (off + X25519PubLen) msg;
            off = off + X25519PubLen;
            pqpub = subslice off (off + MLKEM768PubLen) msg;
            off = off + MLKEM768PubLen;
            ctLen = unat (get_be (subslice off (off + 2) msg) :: u16);
            off = off + 2 in
        if ctLen \<le> chacha20poly1305Overhead then Inl ErrHandshakeShort
        else if off + ctLen + OuterMACLen \<noteq> length msg then Inl ErrHandshakeShort
        else
          let cipher = subslice off (off + ctLen) msg;
              aad = take off msg in
          case HandshakeAEADKey C uuid nonce of
            Inl err \<Rightarrow> Inl err
          | Inr key \<Rightarrow>
          (case newHandshakeAEAD key of
             Inl err \<Rightarrow> Inl err
           | Inr aead \<Rightarrow>
             (case chacha_Open C aead nonce cipher aad of
                None \<Rightarrow> Inl ErrAEADHandshake
              | Some plain \<Rightarrow> decode_inner nonce cpub pqpub plain)))"

definition EncodeServerHello :: "crypto \<Rightarrow> ServerHello \<Rightarrow> bytes \<Rightarrow> ewp_error + bytes" where
  "EncodeServerHello C sh uuid =
     (let out = sh_NonceEcho sh @ sh_ClassicalPub sh @ sh_PQCipher sh @
            put_be 4 (sh_ServerTime sh) @ [sh_Status sh];
          mac = OuterMAC C uuid out in
      Inr (out @ mac))"

definition DecodeServerHello :: "crypto \<Rightarrow> bytes \<Rightarrow> bytes \<Rightarrow> ewp_error + ServerHello" where
  "DecodeServerHello C msg uuid =
     (let wireLen = HandshakeNonce + X25519PubLen + MLKEM768CipherL + 4 + 1 + OuterMACLen in
      if length msg \<noteq> wireLen then Inl ErrHandshakeShort
      else
        let macOff = wireLen - OuterMACLen;
            tag = drop macOff msg in
        if \<not> VerifyOuterMAC C uuid (take macOff msg) tag then Inl ErrOuterMAC
        else
          let o1 = HandshakeNonce; o2 = o1 + X25519PubLen; o3 = o2 + MLKEM768CipherL; o4 = o3 + 4 in
          Inr \<lparr>sh_NonceEcho = subslice 0 o1 msg, sh_ClassicalPub = subslice o1 o2 msg,
               sh_PQCipher = subslice o2 o3 msg, sh_ServerTime = get_be (subslice o3 o4 msg),
               sh_Status = msg ! o4\<rparr>)"

section \<open>The client\<close>

definition WriteClientHello ::
  "crypto \<Rightarrow> int \<Rightarrow> ('t \<Rightarrow> bytes \<Rightarrow> ewp_error option \<times> 't) \<Rightarrow> 't \<Rightarrow> bytes \<Rightarrow> byte \<Rightarrow> Address \<Rightarrow> bytes \<Rightarrow>
   (ewp_error + ClientHandshakeState) \<times> 't \<times> bytes" where
  "WriteClientHello C now send tr uuid cmd addr rnd =
     (if cmd \<noteq> CommandTCP \<and> cmd \<noteq> CommandUDP then (Inl ErrCommand, tr, rnd)
      else case x25519_GenerateKey C rnd of
        (None, rnd) \<Rightarrow> (Inl (ErrWrap ''ewp/v2: x25519 keygen'' ErrKeygen), tr, rnd)
      | (Some x25519Priv, rnd) \<Rightarrow>
      (case mlkem_GenerateKey C rnd of
        (None, rnd) \<Rightarrow> (Inl (ErrWrap ''ewp/v2: mlkem keygen'' ErrKeygen), tr, rnd)
      | (Some mlkemPriv, rnd) \<Rightarrow>
      (case io_ReadFull HandshakeNonce rnd of
        (Inl err, rnd) \<Rightarrow> (Inl (ErrWrap ''ewp/v2: nonce rand'' err), tr, rnd)
      | (Inr nonce, rnd) \<Rightarrow>
        let pqPub = mlkem_EncapsulationKey C mlkemPriv in
        if length pqPub \<noteq> MLKEM768PubLen then (Inl (ErrKEMSize (length pqPub)), tr, rnd)
        else
          let hello = \<lparr>ch_Nonce = nonce,
                       ch_ClassicalPub = array_copy X25519PubLen (x25519_PublicKey C x25519Priv),
                       ch_PQPub = pqPub, ch_Timestamp = word_of_int now, ch_UUID = uuid,
                       ch_Command = cmd, ch_Address = addr\<rparr> in
          (case EncodeClientHello C hello rnd of
             (Inl err, rnd) \<Rightarrow> (Inl err, tr, rnd)
           | (Inr wire, rnd) \<Rightarrow>
             (case send tr wire of
                (Some err, tr) \<Rightarrow> (Inl (ErrWrap ''ewp/v2: send ClientHello'' err), tr, rnd)
              | (None, tr) \<Rightarrow>
                  (Inr \<lparr>cs_uuid = uuid, cs_nonce = nonce, cs_x25519Priv = Some x25519Priv,
                        cs_mlkemPriv = Some mlkemPriv, cs_hello = hello\<rparr>, tr, rnd))))))"

definition ReadServerHello ::
  "crypto \<Rightarrow> int \<Rightarrow> ClientHandshakeState \<Rightarrow> bytes \<Rightarrow> (ewp_error + HandshakeResult) \<times> ClientHandshakeState" where
  "ReadServerHello C now s msg =
     (case DecodeServerHello C msg (cs_uuid s) of
        Inl err \<Rightarrow> (Inl err, s)
      | Inr sh \<Rightarrow>
        if sh_NonceEcho sh \<noteq> cs_nonce s then (Inl ErrOuterMAC, s)
        else if sh_Status sh \<noteq> 0x00 then (Inl (ErrServerStatus (sh_Status sh)), s)
        else if absDiff (uint (sh_ServerTime sh)) now > HandshakeTimestampWindow then (Inl ErrTimestamp, s)
        else if \<not> x25519_pub_ok C (sh_ClassicalPub sh) then
          (Inl (ErrWrap ''ewp/v2: parse server x25519 pub'' ErrPublicKey), s)
        else case cs_x25519Priv s of
          None \<Rightarrow> (Inl (Panic ''nil x25519Priv'' ErrNilDeref), s)
        | Some x25519Priv \<Rightarrow>
        (case x25519_ECDH C x25519Priv (sh_ClassicalPub sh) of
          None \<Rightarrow> (Inl (ErrWrap ''ewp/v2: x25519 ecdh'' ErrECDH), s)
        | Some classical \<Rightarrow>
        (case cs_mlkemPriv s of
          None \<Rightarrow> (Inl (Panic ''nil mlkemPriv'' ErrNilDeref), s)
        | Some mlkemPriv \<Rightarrow>
        (case mlkem_Decapsulate C mlkemPriv (sh_PQCipher sh) of
          None \<Rightarrow> (Inl (ErrWrap ''ewp/v2: mlkem decapsulate'' ErrDecapsulate), s)
        | Some pq \<Rightarrow>
        (case DeriveSessionKeys C (array_copy X25519PubLen classical) pq (ch_Nonce (cs_hello s)) (sh_NonceEcho sh) of
          Inl err \<Rightarrow> (Inl err, s)
        | Inr keys \<Rightarrow>
            (Inr \<lparr>hr_Keys = keys, hr_ClientHello = None, hr_ServerHello = Some sh\<rparr>,
             s\<lparr>cs_x25519Priv := None, cs_mlkemPriv := None\<rparr>))))))"

section \<open>The server\<close>

type_synonym UUIDLookup = "bytes \<Rightarrow> bytes \<Rightarrow> ewp_error + bytes"

text \<open>
  \<^verbatim>\<open>AcceptClientHelloWithReplay\<close> in three parts, as its comments divide it: the replay
  check, the asymmetric work with the answer, and the checks before them. \<open>now_check\<close>,
  \<open>now_mark\<close> and \<open>now_hello\<close> are the clock readings of the timestamp check, of the replay
  cache and of the ServerHello. The cache pointer may be nil.
\<close>

definition accept_replay :: "int \<Rightarrow> ReplayCache option \<Rightarrow> ClientHello \<Rightarrow> bool \<times> ReplayCache option" where
  "accept_replay now_mark cache ch =
     (case cache of
        None \<Rightarrow> (True, None)
      | Some c \<Rightarrow> (case MarkSeenOrReject now_mark c (ch_UUID ch) (ch_Nonce ch) of (b, c') \<Rightarrow> (b, Some c')))"

definition accept_respond ::
  "crypto \<Rightarrow> int \<Rightarrow> bytes \<Rightarrow> ClientHello \<Rightarrow> bytes \<Rightarrow> (ewp_error + bytes \<times> HandshakeResult) \<times> bytes" where
  "accept_respond C now_hello uuid ch rnd =
     (case x25519_GenerateKey C rnd of
        (None, rnd) \<Rightarrow> (Inl (ErrWrap ''ewp/v2: server x25519 keygen'' ErrKeygen), rnd)
      | (Some x25519Priv, rnd) \<Rightarrow>
        if \<not> x25519_pub_ok C (ch_ClassicalPub ch) then
          (Inl (ErrWrap ''ewp/v2: parse client x25519 pub'' ErrPublicKey), rnd)
        else case x25519_ECDH C x25519Priv (ch_ClassicalPub ch) of
          None \<Rightarrow> (Inl (ErrWrap ''ewp/v2: server x25519 ecdh'' ErrECDH), rnd)
        | Some classical \<Rightarrow>
          if \<not> mlkem_ek_ok C (ch_PQPub ch) then
            (Inl (ErrWrap ''ewp/v2: parse client mlkem pub'' ErrPublicKey), rnd)
          else case mlkem_Encapsulate C (ch_PQPub ch) rnd of
            ((pqShared, pqCipher), rnd) \<Rightarrow>
            if length pqCipher \<noteq> MLKEM768CipherL then (Inl (ErrKEMSize (length pqCipher)), rnd)
            else
              let sh = \<lparr>sh_NonceEcho = ch_Nonce ch,
                        sh_ClassicalPub = array_copy X25519PubLen (x25519_PublicKey C x25519Priv),
                        sh_PQCipher = pqCipher, sh_ServerTime = word_of_int now_hello,
                        sh_Status = 0x00\<rparr> in
              (case EncodeServerHello C sh uuid of
                 Inl err \<Rightarrow> (Inl err, rnd)
               | Inr helloOut \<Rightarrow>
                 (case DeriveSessionKeys C (array_copy X25519PubLen classical) pqShared
                         (ch_Nonce ch) (sh_NonceEcho sh) of
                    Inl err \<Rightarrow> (Inl err, rnd)
                  | Inr keys \<Rightarrow>
                      (Inr (helloOut, \<lparr>hr_Keys = keys, hr_ClientHello = Some ch,
                                      hr_ServerHello = None\<rparr>), rnd))))"

definition AcceptClientHelloWithReplay ::
  "crypto \<Rightarrow> int \<Rightarrow> int \<Rightarrow> int \<Rightarrow> bytes \<Rightarrow> UUIDLookup \<Rightarrow> ReplayCache option \<Rightarrow> bytes \<Rightarrow>
   (ewp_error + bytes \<times> HandshakeResult) \<times> ReplayCache option \<times> bytes" where
  "AcceptClientHelloWithReplay C now_check now_mark now_hello msg lookup cache rnd =
     (if length msg < OuterMACLen then (Inl ErrHandshakeShort, cache, rnd)
      else
        let macStart = length msg - OuterMACLen;
            outerTag = drop macStart msg in
        case lookup (take macStart msg) outerTag of
          Inl err \<Rightarrow> (Inl err, cache, rnd)
        | Inr uuid \<Rightarrow>
        (case DecodeClientHello C msg uuid of
          Inl err \<Rightarrow> (Inl err, cache, rnd)
        | Inr ch \<Rightarrow>
          if ch_UUID ch \<noteq> uuid then (Inl ErrUUIDMismatch, cache, rnd)
          else if ch_Command ch \<noteq> CommandTCP \<and> ch_Command ch \<noteq> CommandUDP then (Inl ErrCommand, cache, rnd)
          else if absDiff (uint (ch_Timestamp ch)) now_check > HandshakeTimestampWindow then
            (Inl ErrTimestamp, cache, rnd)
          else
            (case accept_replay now_mark cache ch of
               (False, cache) \<Rightarrow> (Inl ErrReplay, cache, rnd)
             | (True, cache) \<Rightarrow>
               (case accept_respond C now_hello uuid ch rnd of (res, rnd) \<Rightarrow> (res, cache, rnd)))))"

definition AcceptClientHello ::
  "crypto \<Rightarrow> int \<Rightarrow> int \<Rightarrow> bytes \<Rightarrow> UUIDLookup \<Rightarrow> bytes \<Rightarrow> (ewp_error + bytes \<times> HandshakeResult) \<times> bytes" where
  "AcceptClientHello C now_check now_hello msg lookup rnd =
     (case AcceptClientHelloWithReplay C now_check 0 now_hello msg lookup None rnd of
        (res, _, rnd') \<Rightarrow> (res, rnd'))"

fun MakeUUIDLookup :: "crypto \<Rightarrow> bytes list \<Rightarrow> UUIDLookup" where
  "MakeUUIDLookup C [] msg tag = Inl ErrUnknownUUID"
| "MakeUUIDLookup C (u # uuids) msg tag =
     (if VerifyOuterMAC C u msg tag then Inr u else MakeUUIDLookup C uuids msg tag)"

section \<open>Hellos on the wire\<close>

text \<open>The declared array lengths of a ClientHello and a ServerHello.\<close>

definition wf_ClientHello :: "ClientHello \<Rightarrow> bool" where
  "wf_ClientHello ch \<longleftrightarrow> length (ch_Nonce ch) = 12 \<and> length (ch_ClassicalPub ch) = 32 \<and>
     length (ch_PQPub ch) = 1184 \<and> length (ch_UUID ch) = 16"

definition wf_ServerHello :: "ServerHello \<Rightarrow> bool" where
  "wf_ServerHello sh \<longleftrightarrow> length (sh_NonceEcho sh) = 12 \<and> length (sh_ClassicalPub sh) = 32 \<and>
     length (sh_PQCipher sh) = 1088"

text \<open>The plaintext, the associated data and the message before the MAC.\<close>

definition hello_inner :: "ClientHello \<Rightarrow> bytes \<Rightarrow> bytes" where
  "hello_inner ch pad = put_be 4 (ch_Timestamp ch) @ ch_UUID ch @ [ch_Command ch] @
     enc_addr (ch_Address ch) @ put_be 2 (word_of_nat (length pad) :: u16) @ pad"

definition hello_aad :: "ClientHello \<Rightarrow> nat \<Rightarrow> bytes" where
  "hello_aad ch n = ch_Nonce ch @ ch_ClassicalPub ch @ ch_PQPub ch @ put_be 2 (word_of_nat n :: u16)"

definition hello_body :: "crypto \<Rightarrow> bytes \<Rightarrow> ClientHello \<Rightarrow> bytes \<Rightarrow> bytes" where
  "hello_body C key ch pad =
     (let inner = hello_inner ch pad; aad = hello_aad ch (length inner + 16) in
      aad @ chacha_Seal C key (ch_Nonce ch) inner aad)"

lemma length_hello_inner:
  "wf_ClientHello ch \<Longrightarrow> encodable (ch_Address ch) \<Longrightarrow>
     length (hello_inner ch pad) = 23 + EncodedLen (ch_Address ch) + length pad"
  by (simp add: hello_inner_def wf_ClientHello_def length_enc_addr)

lemma length_hello_aad: "wf_ClientHello ch \<Longrightarrow> length (hello_aad ch n) = 1230"
  by (simp add: hello_aad_def wf_ClientHello_def)

lemma newHandshakeAEAD_ok [simp]: "length key = 32 \<Longrightarrow> newHandshakeAEAD key = Inr key"
  by (simp add: newHandshakeAEAD_def)

lemma pad_range:
  assumes "SuggestPadLen MinHandshakePad MaxHandshakePad rnd = (n, rnd')"
  shows "64 \<le> n \<and> n \<le> 1024"
  using SuggestPadLen_range [OF assms] by (simp add: ewp_consts)

lemma EncodeClientHello_cases:
  assumes C: "kdf_ok C" and wf: "wf_ClientHello ch" and a: "encodable (ch_Address ch)"
  obtains (ok) key pad rnd' where
      "EncodeClientHello C ch rnd =
        (Inr (hello_body C key ch pad @ OuterMAC C (ch_UUID ch) (hello_body C key ch pad)), rnd')"
      "HandshakeAEADKey C (ch_UUID ch) (ch_Nonce ch) = Inr key" "length key = 32"
      "64 \<le> length pad" "length pad \<le> 1024"
  | (fail) e rnd' where "EncodeClientHello C ch rnd = (Inl (ErrWrap ''ewp/v2: pad rand'' e), rnd')"
      "length rnd < 1028"
proof -
  obtain n r1 where s: "SuggestPadLen MinHandshakePad MaxHandshakePad rnd = (n, r1)"
    by (metis prod.exhaust)
  note n = pad_range [OF s]
  obtain key where k: "HandshakeAEADKey C (ch_UUID ch) (ch_Nonce ch) = Inr key" "length key = 32"
    by (rule HandshakeAEADKey_ok [OF C])
  have e: "EncodedLen (ch_Address ch) \<le> 257"
    using EncodedLen_bounds [OF a] by simp
  show thesis
  proof (cases "nat n \<le> length r1")
    case True
    then obtain pad r2 where r: "io_ReadFull (nat n) r1 = (Inr pad, r2)" and p: "length pad = nat n"
      by (auto simp: io_ReadFull_def)
    have w: "word_of_int n = (word_of_nat (length pad) :: u16)"
      using p n by simp
    have "\<not> length (hello_inner ch pad) + 16 > 65535"
      using length_hello_inner [OF wf a, of pad] e n p nat_mono [of n 1024] by simp
    then have "seal_client_hello C ch (hello_inner ch pad) =
        Inr (hello_body C key ch pad @ OuterMAC C (ch_UUID ch) (hello_body C key ch pad))"
      using k by (simp add: seal_client_hello_def hello_body_def hello_aad_def Let_def ewp_consts)
    then have "EncodeClientHello C ch rnd =
        (Inr (hello_body C key ch pad @ OuterMAC C (ch_UUID ch) (hello_body C key ch pad)), r2)"
      using Append_enc_addr [OF a, of "[]"] s r w by (simp add: EncodeClientHello_def hello_inner_def)
    with k n p show thesis by (intro ok) auto
  next
    case False
    then obtain e r2 where "io_ReadFull (nat n) r1 = (Inl e, r2)"
      by (cases "r1 = []") (auto simp: io_ReadFull_def)
    moreover have "length rnd \<le> length r1 + 4"
      using s by (auto simp: SuggestPadLen_def io_ReadFull_def Let_def split: if_splits)
    ultimately show thesis
      using Append_enc_addr [OF a, of "[]"] s n False
      by (intro fail [of e r2]) (auto simp: EncodeClientHello_def)
  qed
qed

text \<open>The decoders on assembled messages.\<close>

lemma decode_inner_parts:
  assumes "length ts = 4" and "length u = 16" and "length pl = 2"
    and "DecodeAddress (ab @ pl @ pad) = Inr (addr, length ab)"
  shows "decode_inner nonce cpub pqpub (ts @ u @ [cmd] @ ab @ pl @ pad) =
    (if length pad = unat (get_be pl :: u16)
     then Inr \<lparr>ch_Nonce = nonce, ch_ClassicalPub = cpub, ch_PQPub = pqpub, ch_Timestamp = get_be ts,
               ch_UUID = u, ch_Command = cmd, ch_Address = addr\<rparr>
     else Inl ErrPlaintextLayout)"
proof -
  let ?A = "ts @ u @ [cmd] @ ab"
  let ?plain = "?A @ pl @ pad"
  have A: "length ?A = 21 + length ab"
    using assms by simp
  have "subslice (21 + length ab) (23 + length ab) ?plain = pl"
    using A assms(3) by (simp only: subslice_append_right) simp
  moreover have "drop 21 ?plain = ab @ pl @ pad" "subslice 0 4 ?plain = ts" "subslice 4 20 ?plain = u"
    "?plain ! 20 = cmd"
    using assms by (simp_all add: nth_append)
  moreover have "ab \<noteq> []"
    using addr_codec.dec_sound [OF assms(4)] EncodedLen_bounds length_enc_addr by fastforce
  ultimately have "decode_inner nonce cpub pqpub ?plain =
    (if length pad = unat (get_be pl :: u16)
     then Inr \<lparr>ch_Nonce = nonce, ch_ClassicalPub = cpub, ch_PQPub = pqpub, ch_Timestamp = get_be ts,
               ch_UUID = u, ch_Command = cmd, ch_Address = addr\<rparr>
     else Inl ErrPlaintextLayout)"
    using assms A by (simp add: decode_inner_def ewp_consts Let_def Suc_le_eq not_less)
  then show ?thesis by simp
qed

lemma ClientHello_eta:
  "\<lparr>ch_Nonce = ch_Nonce ch, ch_ClassicalPub = ch_ClassicalPub ch, ch_PQPub = ch_PQPub ch,
    ch_Timestamp = ch_Timestamp ch, ch_UUID = ch_UUID ch, ch_Command = ch_Command ch, ch_Address = a\<rparr> =
   ch\<lparr>ch_Address := a\<rparr>"
  by (cases ch) simp

lemma DecodeClientHello_parts:
  assumes C: "kdf_ok C" and l: "length nonce = 12" "length cpub = 32" "length pqpub = 1184" "length mac = 16"
    and n: "n = length c" "16 < n" "n < 65536"
    and aad: "aad = nonce @ cpub @ pqpub @ put_be 2 (word_of_nat n :: u16)"
    and k: "HandshakeAEADKey C uuid nonce = Inr key"
  shows "DecodeClientHello C (aad @ c @ mac) uuid =
    (case chacha_Open C key nonce c aad of
       None \<Rightarrow> Inl ErrAEADHandshake | Some plain \<Rightarrow> decode_inner nonce cpub pqpub plain)"
proof -
  let ?m = "aad @ c @ mac"
  have la: "length aad = 1230" using l by (simp add: aad)
  have kl: "length key = 32"
    using HandshakeAEADKey_ok [OF C, of uuid nonce] k by auto
  have p1: "subslice 0 12 ?m = nonce" "subslice 12 44 ?m = cpub" "subslice 44 1228 ?m = pqpub"
    using l by (simp_all add: aad)
  have p2: "subslice 1228 1230 ?m = put_be 2 (word_of_nat n :: u16)"
    using l by (simp add: aad)
  have u: "unat (word_of_nat n :: u16) = n"
    using n by (intro unat_u16) simp
  have p3: "subslice 1230 (1230 + n) ?m = c" "take 1230 ?m = aad"
    using la n by simp_all
  show ?thesis
    unfolding DecodeClientHello_def
    using n(2) kl by (simp add: ewp_consts Let_def la l n(1) [symmetric] p1 p2 p3 u k cong: option.case_cong
        del: subslice_0 append_assoc take_append)
qed

lemma hello_wire_parts:
  assumes C: "kdf_ok C" "aead_ok C" and wf: "wf_ClientHello ch" "encodable (ch_Address ch)"
    and k: "HandshakeAEADKey C (ch_UUID ch) (ch_Nonce ch) = Inr key" "length key = 32"
    and p: "length pad \<le> 1024"
  shows "DecodeClientHello C (hello_body C key ch pad @ OuterMAC C (ch_UUID ch) (hello_body C key ch pad)) (ch_UUID ch) =
    Inr (ch\<lparr>ch_Address := canon (ch_Address ch)\<rparr>)"
proof -
  let ?n = "length (hello_inner ch pad) + 16"
  let ?aad = "hello_aad ch ?n"
  let ?c = "chacha_Seal C key (ch_Nonce ch) (hello_inner ch pad) ?aad"
  let ?mac = "OuterMAC C (ch_UUID ch) (hello_body C key ch pad)"
  have l: "length (ch_Nonce ch) = 12" "length (ch_ClassicalPub ch) = 32" "length (ch_PQPub ch) = 1184"
    "length (ch_UUID ch) = 16"
    using wf by (simp_all add: wf_ClientHello_def)
  have n: "?n = length ?c" "16 < ?n" "?n < 65536"
    using aead_seal_len [OF C(2) k(2) l(1)] length_hello_inner [OF wf, of pad]
      EncodedLen_bounds [OF wf(2)] p by simp_all
  have "DecodeClientHello C (?aad @ ?c @ ?mac) (ch_UUID ch) =
      decode_inner (ch_Nonce ch) (ch_ClassicalPub ch) (ch_PQPub ch) (hello_inner ch pad)"
    unfolding DecodeClientHello_parts [OF C(1) l(1-3) length_OuterMAC [OF C(1)] n hello_aad_def k(1)]
      aead_open_seal [OF C(2) k(2) l(1)] by simp
  also have "\<dots> = Inr (ch\<lparr>ch_Address := canon (ch_Address ch)\<rparr>)"
    unfolding hello_inner_def using p l DecodeAddress_enc [OF wf(2)]
    by (subst decode_inner_parts) (simp_all add: length_enc_addr [OF wf(2)] unat_u16 ClientHello_eta)
  finally show ?thesis
    by (simp add: hello_body_def Let_def)
qed

lemma length_hello_body:
  assumes "aead_ok C" "wf_ClientHello ch" "encodable (ch_Address ch)" "length key = 32"
  shows "length (hello_body C key ch pad) = 1269 + EncodedLen (ch_Address ch) + length pad"
  using assms length_hello_inner [OF assms(2,3), of pad] length_hello_aad [OF assms(2)]
    aead_seal_len [OF assms(1,4)]
  by (simp add: hello_body_def Let_def wf_ClientHello_def)

text \<open>What a decoded hello looks like: it is the one the wire bytes seal.\<close>

lemma decode_inner_sound:
  assumes "decode_inner nonce cpub pqpub plain = Inr ch"
  obtains pad where "plain = hello_inner ch pad" "length pad < 65536"
    "ch_Nonce ch = nonce" "ch_ClassicalPub ch = cpub" "ch_PQPub ch = pqpub" "length (ch_UUID ch) = 16"
    "encodable (ch_Address ch)" "canon (ch_Address ch) = ch_Address ch"
proof -
  obtain addr n where d: "DecodeAddress (drop 21 plain) = Inr (addr, n)" and l: "24 \<le> length plain"
    using assms by (auto simp: decode_inner_def ewp_consts Let_def split: if_splits sum.splits)
  define pl where "pl = (get_be (subslice (21 + n) (23 + n) plain) :: u16)"
  have l2: "length plain = 23 + n + unat pl" and
    ch: "ch = \<lparr>ch_Nonce = nonce, ch_ClassicalPub = cpub, ch_PQPub = pqpub,
        ch_Timestamp = get_be (take 4 plain), ch_UUID = subslice 4 20 plain,
        ch_Command = plain ! 20, ch_Address = addr\<rparr>"
    using assms d l by (simp_all add: decode_inner_def ewp_consts Let_def pl_def not_less split: if_splits)
  define pad where "pad = drop (23 + n) plain"
  have a: "encodable addr" "canon addr = addr" "enc_addr addr = subslice 21 (21 + n) plain"
    using DecodeAddress_sound [OF d] by (simp_all add: subslice_def)
  have pad: "length pad = unat pl" using l2 by (simp add: pad_def)
  have "put_be 2 pl = subslice (21 + n) (23 + n) plain"
    unfolding pl_def using l2 by (intro put_get_be16) simp
  then have "hello_inner ch pad = subslice 0 4 plain @ subslice 4 20 plain @ subslice 20 21 plain @
      subslice 21 (21 + n) plain @ subslice (21 + n) (23 + n) plain @ subslice (23 + n) (length plain) plain"
    using l l2 a subslice_single [of 20 plain] by (simp add: hello_inner_def ch pad) (simp add: pad_def subslice_def)
  also have "\<dots> = plain"
    using l2 by (simp add: subslice_chain del: subslice_0) simp
  finally show thesis
    using that [of pad] a pad unat_u16_less [of pl] l ch by auto
qed


lemma DecodeClientHello_Inr:
  assumes "DecodeClientHello C msg uuid = Inr ch"
  obtains key n plain where "HandshakeAEADKey C uuid (take 12 msg) = Inr key" "length key = 32"
    "n = unat (get_be (subslice 1228 1230 msg) :: u16)" "16 < n" "length msg = 1246 + n"
    "chacha_Open C key (take 12 msg) (subslice 1230 (1230 + n) msg) (take 1230 msg) = Some plain"
    "decode_inner (take 12 msg) (subslice 12 44 msg) (subslice 44 1228 msg) plain = Inr ch"
proof -
  let ?n = "unat (get_be (subslice 1228 1230 msg) :: u16)"
  have *: "\<exists>key plain. HandshakeAEADKey C uuid (take 12 msg) = Inr key \<and> length key = 32 \<and>
     16 < ?n \<and> length msg = 1246 + ?n \<and>
    chacha_Open C key (take 12 msg) (subslice 1230 (1230 + ?n) msg) (take 1230 msg) = Some plain \<and>
    decode_inner (take 12 msg) (subslice 12 44 msg) (subslice 44 1228 msg) plain = Inr ch"
    using assms by (auto simp: DecodeClientHello_def ewp_consts Let_def newHandshakeAEAD_def newChaChaAEAD_def
       split: if_splits sum.splits option.splits)
  then show thesis using that by blast
qed

lemma DecodeClientHello_sealed:
  assumes C: "aead_ok C" "aead_auth C" and d: "DecodeClientHello C msg uuid = Inr ch"
  obtains key pad mac where "HandshakeAEADKey C uuid (ch_Nonce ch) = Inr key" "length key = 32"
    "msg = hello_body C key ch pad @ mac" "length mac = 16" "wf_ClientHello ch"
    "encodable (ch_Address ch)" "canon (ch_Address ch) = ch_Address ch"
    "23 + EncodedLen (ch_Address ch) + length pad < 65520"
proof -
  from DecodeClientHello_Inr [OF d] obtain key n plain where
    k: "HandshakeAEADKey C uuid (take 12 msg) = Inr key" "length key = 32"
    and n: "n = unat (get_be (subslice 1228 1230 msg) :: u16)" "16 < n" "length msg = 1246 + n"
    and op: "chacha_Open C key (take 12 msg) (subslice 1230 (1230 + n) msg) (take 1230 msg) = Some plain"
    and di: "decode_inner (take 12 msg) (subslice 12 44 msg) (subslice 44 1228 msg) plain = Inr ch" by blast
  from decode_inner_sound [OF di] obtain pad where
    p: "plain = hello_inner ch pad" "ch_Nonce ch = take 12 msg" "ch_ClassicalPub ch = subslice 12 44 msg"
      "ch_PQPub ch = subslice 44 1228 msg" "length (ch_UUID ch) = 16"
      "encodable (ch_Address ch)" "canon (ch_Address ch) = ch_Address ch" by blast
  have ln: "length (take 12 msg) = 12" using n by simp
  have wf: "wf_ClientHello ch" using p n by (simp add: wf_ClientHello_def)
  have s: "subslice 1230 (1230 + n) msg = chacha_Seal C key (take 12 msg) plain (take 1230 msg)"
    by (rule aead_open_sealed [OF C(2) k(2) ln op])
  have "length (subslice 1230 (1230 + n) msg) = n"
    using n(3) by simp
  then have np: "n = length plain + 16"
    unfolding s aead_seal_len [OF C(1) k(2) ln] by simp
  have "put_be 2 (word_of_nat n :: u16) = subslice 1228 1230 msg"
    unfolding n(1) using n(3) by simp
  then have aad: "hello_aad ch n = take 1230 msg"
    using p(2-4) by (simp add: hello_aad_def) (simp add: subslice_chain flip: subslice_0)
  have "msg = take 1230 msg @ subslice 1230 (1230 + n) msg @ drop (1230 + n) msg"
    by (metis append.assoc append_take_drop_id le_add1 take_subslice)
  then have "msg = hello_body C key ch pad @ drop (1230 + n) msg"
    using s aad np p(1,2) by (simp add: hello_body_def Let_def)
  moreover have "23 + EncodedLen (ch_Address ch) + length pad < 65520"
    using length_hello_inner [OF wf p(6), of pad] np p(1) n(1) unat_u16_less [of "get_be (subslice 1228 1230 msg)"] by simp
  ultimately show thesis
    using that [of key pad "drop (1230 + n) msg"] k p wf n(3) by simp
qed

section \<open>ServerHello\<close>

definition server_body :: "ServerHello \<Rightarrow> bytes" where
  "server_body sh = sh_NonceEcho sh @ sh_ClassicalPub sh @ sh_PQCipher sh @ put_be 4 (sh_ServerTime sh) @ [sh_Status sh]"

lemma length_server_body: "wf_ServerHello sh \<Longrightarrow> length (server_body sh) = 1137"
  by (simp add: server_body_def wf_ServerHello_def)

lemma EncodeServerHello_eq:
  "EncodeServerHello C sh uuid = Inr (server_body sh @ OuterMAC C uuid (server_body sh))"
  by (simp add: EncodeServerHello_def server_body_def)

lemma ServerHello_eta [simp]:
  "\<lparr>sh_NonceEcho = sh_NonceEcho sh, sh_ClassicalPub = sh_ClassicalPub sh, sh_PQCipher = sh_PQCipher sh,
    sh_ServerTime = sh_ServerTime sh, sh_Status = sh_Status sh\<rparr> = sh"
  by (cases sh) simp

lemma DecodeServerHello_body:
  assumes wf: "wf_ServerHello sh" and m: "length mac = 16"
  shows "DecodeServerHello C (server_body sh @ mac) uuid =
    (if mac = OuterMAC C uuid (server_body sh) then Inr sh else Inl ErrOuterMAC)"
proof -
  have l: "length (server_body sh) = 1137" by (rule length_server_body [OF wf])
  let ?m = "server_body sh"
  have parts: "subslice 0 12 ?m = sh_NonceEcho sh" "subslice 12 44 ?m = sh_ClassicalPub sh"
    "subslice 44 1132 ?m = sh_PQCipher sh" "subslice 1132 1136 ?m = put_be 4 (sh_ServerTime sh)"
    "?m ! 1136 = sh_Status sh"
    using wf by (simp_all add: server_body_def wf_ServerHello_def nth_append)
  show ?thesis
    unfolding DecodeServerHello_def
    using l m by (simp add: ewp_consts Let_def VerifyOuterMAC_iff parts nth_append del: subslice_0 append_assoc)
qed

lemma DecodeServerHello_sound:
  assumes "DecodeServerHello C msg uuid = Inr sh"
  shows "wf_ServerHello sh \<and> msg = server_body sh @ OuterMAC C uuid (server_body sh)"
proof -
  have l: "length msg = 1153" and v: "drop 1137 msg = OuterMAC C uuid (take 1137 msg)"
    and sh: "sh = \<lparr>sh_NonceEcho = subslice 0 12 msg, sh_ClassicalPub = subslice 12 44 msg,
        sh_PQCipher = subslice 44 1132 msg, sh_ServerTime = get_be (subslice 1132 1136 msg),
        sh_Status = msg ! 1136\<rparr>"
    using assms by (auto simp: DecodeServerHello_def ewp_consts Let_def VerifyOuterMAC_iff split: if_splits)
  have "server_body sh = subslice 0 12 msg @ subslice 12 44 msg @ subslice 44 1132 msg @
      subslice 1132 1136 msg @ subslice 1136 1137 msg"
    using l subslice_single [of 1136 msg] by (simp add: server_body_def sh)
  also have "\<dots> = take 1137 msg"
    by (simp add: subslice_chain del: subslice_0) simp
  finally have "server_body sh = take 1137 msg" .
  with v l show ?thesis
    by (simp add: sh wf_ServerHello_def) (metis append_take_drop_id)
qed

section \<open>Properties\<close>

definition toy_hello :: ClientHello where
  "toy_hello = \<lparr>ch_Nonce = replicate 12 3, ch_ClassicalPub = replicate 32 4, ch_PQPub = replicate 1184 5,
     ch_Timestamp = 1000, ch_UUID = replicate 16 1, ch_Command = CommandTCP,
     ch_Address = Address_zero\<lparr>addr_Domain := [97, 98], addr_Port := 443\<rparr>\<rparr>"

lemma toy_addr:
  "encodable (Address_zero\<lparr>addr_Domain := [97, 98], addr_Port := 443\<rparr>)"
  "canon (Address_zero\<lparr>addr_Domain := [97, 98], addr_Port := 443\<rparr>) =
     Address_zero\<lparr>addr_Domain := [97, 98], addr_Port := 443\<rparr>"
  by (simp_all add: encodable_def wf_Address_def IsDomain_def canon_def ewp_consts
      Address_zero_def AddrPort_zero_def)

lemma toy_hello_wf: "wf_ClientHello toy_hello" "encodable (ch_Address toy_hello)"
  by (simp_all add: toy_hello_def wf_ClientHello_def toy_addr)

text \<open>
  C32: ClientHello round trip. With 1028 bytes of randomness \<^verbatim>\<open>EncodeClientHello\<close> succeeds for every
  well-formed hello with an encodable address, its message has between 1354 and 2566 bytes,
  ends in the outer MAC of the bytes before it, and \<^verbatim>\<open>DecodeClientHello\<close> under the same UUID
  returns the hello, its address in canonical form.
\<close>
theorem client_hello_roundtrip:
  assumes C: "aead_ok C" "kdf_ok C" and wf: "wf_ClientHello ch" "encodable (ch_Address ch)"
    and r: "1028 \<le> length rnd"
  shows "\<exists>body rnd'. EncodeClientHello C ch rnd = (Inr (body @ OuterMAC C (ch_UUID ch) body), rnd') \<and>
    1338 \<le> length body \<and> length body \<le> 2550 \<and>
    DecodeClientHello C (body @ OuterMAC C (ch_UUID ch) body) (ch_UUID ch) =
      Inr (ch\<lparr>ch_Address := canon (ch_Address ch)\<rparr>)"
proof (cases rule: EncodeClientHello_cases [OF C(2) wf, of rnd])
  case (1 key pad rnd')
  then show ?thesis
    using hello_wire_parts [OF C(2,1) wf 1(2,3,5)] length_hello_body [OF C(1) wf 1(3), of pad]
      EncodedLen_bounds [OF wf(2)]
    by (intro exI [of _ "hello_body C key ch pad"] exI [of _ rnd']) simp
next
  case 2
  with r show ?thesis by simp
qed

theorem client_hello_roundtrip_witness:
  "\<exists>body rnd'. EncodeClientHello toy_crypto toy_hello (replicate 2000 9) =
      (Inr (body @ OuterMAC toy_crypto (replicate 16 1) body), rnd') \<and>
    DecodeClientHello toy_crypto (body @ OuterMAC toy_crypto (replicate 16 1) body) (replicate 16 1) = Inr toy_hello"
proof -
  have "toy_hello\<lparr>ch_Address := canon (ch_Address toy_hello)\<rparr> = toy_hello" "ch_UUID toy_hello = replicate 16 1"
    by (simp_all add: toy_hello_def toy_addr)
  then show ?thesis
    using client_hello_roundtrip [OF toy_aead_ok toy_kdf_ok toy_hello_wf, of "replicate 2000 9"] by auto
qed

text \<open>
  \<^verbatim>\<open>DecodeClientHello\<close> accepts only sealed hellos. Whatever bytes it accepts under a UUID are the
  sealing, under the handshake key of that UUID and the message's nonce, of exactly the
  returned hello with some padding, followed by 16 bytes of MAC; the hello is well-formed
  and its address canonical. So nothing in the message is ignored but the padding bytes,
  which are authenticated too.
\<close>
theorem client_hello_decode_sound:
  assumes "aead_ok C" "aead_auth C" and "DecodeClientHello C msg uuid = Inr ch"
  shows "wf_ClientHello ch \<and> encodable (ch_Address ch) \<and> canon (ch_Address ch) = ch_Address ch \<and>
    (\<exists>key pad mac. HandshakeAEADKey C uuid (ch_Nonce ch) = Inr key \<and> length mac = 16 \<and>
       msg = hello_body C key ch pad @ mac)"
  using DecodeClientHello_sealed [OF assms] by metis

theorem client_hello_decode_sound_witness:
  "\<exists>msg key pad mac. DecodeClientHello toy_crypto msg (replicate 16 1) = Inr toy_hello \<and>
     msg = hello_body toy_crypto key toy_hello pad @ mac \<and> length mac = 16"
proof -
  have *: "toy_hello\<lparr>ch_Address := canon (ch_Address toy_hello)\<rparr> = toy_hello" "ch_UUID toy_hello = replicate 16 1"
    by (simp_all add: toy_hello_def toy_addr)
  obtain key where k: "HandshakeAEADKey toy_crypto (ch_UUID toy_hello) (ch_Nonce toy_hello) = Inr key" "length key = 32"
    by (rule HandshakeAEADKey_ok [OF toy_kdf_ok])
  have "DecodeClientHello toy_crypto (hello_body toy_crypto key toy_hello [] @
      OuterMAC toy_crypto (ch_UUID toy_hello) (hello_body toy_crypto key toy_hello [])) (replicate 16 1) = Inr toy_hello"
    using hello_wire_parts [OF toy_kdf_ok toy_aead_ok toy_hello_wf k, of "[]"] * by simp
  then show ?thesis
    using client_hello_decode_sound [OF toy_aead_ok toy_aead_auth] by blast
qed

text \<open>
  ServerHello codec. For a well-formed ServerHello, \<^verbatim>\<open>DecodeServerHello\<close> returns it from exactly
  one message, the one \<^verbatim>\<open>EncodeServerHello\<close> produces under the same UUID: decoding undoes
  encoding, and every other message is refused or decodes to another ServerHello.
\<close>
theorem server_hello_codec:
  assumes "kdf_ok C" and "wf_ServerHello sh"
  shows "DecodeServerHello C msg uuid = Inr sh \<longleftrightarrow> EncodeServerHello C sh uuid = Inr msg"
  using DecodeServerHello_sound [of C msg uuid sh] DecodeServerHello_body [OF assms(2) length_OuterMAC [OF assms(1)]]
  by (auto simp: EncodeServerHello_eq)

theorem server_hello_codec_witness:
  "\<exists>msg. DecodeServerHello toy_crypto msg [7] = Inr \<lparr>sh_NonceEcho = replicate 12 1, sh_ClassicalPub = replicate 32 2,
     sh_PQCipher = replicate 1088 3, sh_ServerTime = 1000, sh_Status = 0\<rparr>"
  by (subst server_hello_codec [OF toy_kdf_ok]) (simp_all add: wf_ServerHello_def EncodeServerHello_eq)

end
