(* ===== verification/Agreement.thy ===== *)
theory Agreement
  imports Handshake
begin

text \<open>
  The handshake of \<^verbatim>\<open>src/handshake.go\<close> as a protocol. First the three operations inverted,
  once and for all: what has happened when each of them succeeds. Then an honest client
  against an honest server: both return, with the same session keys. Then what the server
  has checked when it accepts and the client when it completes. Then the replay cache
  seen through \<^verbatim>\<open>AcceptClientHelloWithReplay\<close>: for how long a recorded hello keeps being
  refused, when it is refused for ever, and when it is not.
\<close>

section \<open>The three operations, inverted\<close>

lemma MakeUUIDLookup_Inr:
  "MakeUUIDLookup C us m tag = Inr u \<Longrightarrow> u \<in> set us \<and> tag = OuterMAC C u m"
  by (induction us) (auto simp: VerifyOuterMAC_iff split: if_splits)

lemma MakeUUIDLookup_unique:
  assumes "u \<in> set us" and "\<forall>v \<in> set us. OuterMAC C v m = OuterMAC C u m \<longrightarrow> v = u"
  shows "MakeUUIDLookup C us m (OuterMAC C u m) = Inr u"
  using assms by (induction us) (auto simp: VerifyOuterMAC_iff)

lemma Accept_Inr:
  assumes "AcceptClientHelloWithReplay C t1 t2 t3 msg lookup cache rnd = (Inr out, cache', rnd')"
  obtains ch where "16 \<le> length msg"
    "lookup (take (length msg - 16) msg) (drop (length msg - 16) msg) = Inr (ch_UUID ch)"
    "DecodeClientHello C msg (ch_UUID ch) = Inr ch"
    "ch_Command ch = CommandTCP \<or> ch_Command ch = CommandUDP"
    "absDiff (uint (ch_Timestamp ch)) t1 \<le> 120" "accept_replay t2 cache ch = (True, cache')"
    "accept_respond C t3 (ch_UUID ch) ch rnd = (Inr out, rnd')"
  using assms
  by (auto simp: AcceptClientHelloWithReplay_def ewp_consts Let_def
      split: if_splits sum.splits prod.splits bool.splits)

lemma Accept_intro:
  assumes "16 \<le> length msg"
    "lookup (take (length msg - 16) msg) (drop (length msg - 16) msg) = Inr (ch_UUID ch)"
    "DecodeClientHello C msg (ch_UUID ch) = Inr ch"
    "ch_Command ch = CommandTCP \<or> ch_Command ch = CommandUDP"
    "absDiff (uint (ch_Timestamp ch)) t1 \<le> 120" "accept_replay t2 cache ch = (True, cache')"
    "accept_respond C t3 (ch_UUID ch) ch rnd = (res, rnd')"
  shows "AcceptClientHelloWithReplay C t1 t2 t3 msg lookup cache rnd = (res, cache', rnd')"
  using assms by (auto simp: AcceptClientHelloWithReplay_def ewp_consts Let_def)

lemma accept_respond_Inr:
  assumes "accept_respond C t uuid ch rnd = (Inr (out, res), rnd')"
  obtains b r1 classical ss ct keys where
    "x25519_GenerateKey C rnd = (Some b, r1)" "x25519_pub_ok C (ch_ClassicalPub ch)"
    "x25519_ECDH C b (ch_ClassicalPub ch) = Some classical" "mlkem_ek_ok C (ch_PQPub ch)"
    "mlkem_Encapsulate C (ch_PQPub ch) r1 = ((ss, ct), rnd')" "length ct = 1088"
    "DeriveSessionKeys C (array_copy 32 classical) ss (ch_Nonce ch) (ch_Nonce ch) = Inr keys"
    "res = \<lparr>hr_Keys = keys, hr_ClientHello = Some ch, hr_ServerHello = None\<rparr>"
    "EncodeServerHello C \<lparr>sh_NonceEcho = ch_Nonce ch, sh_ClassicalPub = array_copy 32 (x25519_PublicKey C b),
       sh_PQCipher = ct, sh_ServerTime = word_of_int t, sh_Status = 0\<rparr> uuid = Inr out"
  using assms
  by (auto simp: accept_respond_def ewp_consts Let_def split: if_splits sum.splits prod.splits option.splits)

lemma accept_respond_intro:
  assumes "kdf_ok C" "x25519_GenerateKey C rnd = (Some b, r1)" "x25519_pub_ok C (ch_ClassicalPub ch)"
    "x25519_ECDH C b (ch_ClassicalPub ch) = Some classical" "mlkem_ek_ok C (ch_PQPub ch)"
    "mlkem_Encapsulate C (ch_PQPub ch) r1 = ((ss, ct), rnd')" "length ct = 1088"
    and sh: "sh = \<lparr>sh_NonceEcho = ch_Nonce ch, sh_ClassicalPub = array_copy 32 (x25519_PublicKey C b),
       sh_PQCipher = ct, sh_ServerTime = word_of_int t, sh_Status = 0\<rparr>"
  obtains keys where "DeriveSessionKeys C (array_copy 32 classical) ss (ch_Nonce ch) (ch_Nonce ch) = Inr keys"
    "accept_respond C t uuid ch rnd = (Inr (server_body sh @ OuterMAC C uuid (server_body sh),
       \<lparr>hr_Keys = keys, hr_ClientHello = Some ch, hr_ServerHello = None\<rparr>), rnd')"
proof -
  obtain keys where "DeriveSessionKeys C (array_copy 32 classical) ss (ch_Nonce ch) (ch_Nonce ch) = Inr keys"
    by (rule DeriveSessionKeys_ok [OF assms(1)])
  with assms show thesis
    by (intro that) (simp_all add: accept_respond_def ewp_consts Let_def EncodeServerHello_eq)
qed

definition new_hello :: "crypto \<Rightarrow> int \<Rightarrow> bytes \<Rightarrow> byte \<Rightarrow> Address \<Rightarrow> bytes \<Rightarrow> bytes \<Rightarrow> bytes \<Rightarrow> ClientHello" where
  "new_hello C now uuid cmd addr priv dk nonce = \<lparr>ch_Nonce = nonce, ch_ClassicalPub = x25519_PublicKey C priv,
    ch_PQPub = mlkem_EncapsulationKey C dk, ch_Timestamp = word_of_int now, ch_UUID = uuid,
    ch_Command = cmd, ch_Address = addr\<rparr>"

lemma WriteClientHello_eq:
  assumes C: "dh_ok C" "kem_ok C" and g: "cmd = CommandTCP \<or> cmd = CommandUDP"
    "x25519_GenerateKey C rnd = (Some priv, r1)" "mlkem_GenerateKey C r1 = (Some dk, r2)"
    "io_ReadFull 12 r2 = (Inr nonce, r3)"
  shows "WriteClientHello C now send tr uuid cmd addr rnd =
    (case EncodeClientHello C (new_hello C now uuid cmd addr priv dk nonce) r3 of
       (Inl err, rnd) \<Rightarrow> (Inl err, tr, rnd)
     | (Inr wire, rnd) \<Rightarrow>
       (case send tr wire of
          (Some err, tr) \<Rightarrow> (Inl (ErrWrap ''ewp/v2: send ClientHello'' err), tr, rnd)
        | (None, tr) \<Rightarrow>
            (Inr \<lparr>cs_uuid = uuid, cs_nonce = nonce, cs_x25519Priv = Some priv, cs_mlkemPriv = Some dk,
                  cs_hello = new_hello C now uuid cmd addr priv dk nonce\<rparr>, tr, rnd)))"
  using g dh_public [OF C(1) g(2)] kem_public [OF C(2) g(3)]
  by (auto simp: WriteClientHello_def ewp_consts Let_def new_hello_def split: prod.split sum.split option.split)

lemma wf_new_hello:
  assumes "dh_ok C" "kem_ok C" "x25519_GenerateKey C rnd = (Some priv, r1)"
    "mlkem_GenerateKey C r1 = (Some dk, r2)" "io_ReadFull 12 r2 = (Inr nonce, r3)" "length uuid = 16"
  shows "wf_ClientHello (new_hello C now uuid cmd addr priv dk nonce)"
  using dh_public [OF assms(1,3)] kem_public [OF assms(2,4)] assms(5,6)
  by (auto simp: new_hello_def wf_ClientHello_def io_ReadFull_Inr)

lemma WriteClientHello_Inr:
  assumes C: "kdf_ok C" "dh_ok C" "kem_ok C" and u: "length uuid = 16" and a: "encodable addr"
    and w: "WriteClientHello C now send tr uuid cmd addr rnd = (Inr s, tr', rnd')"
  obtains priv r1 dk r2 key pad where
    "cmd = CommandTCP \<or> cmd = CommandUDP"
    "x25519_GenerateKey C rnd = (Some priv, r1)" "mlkem_GenerateKey C r1 = (Some dk, r2)"
    "cs_uuid s = uuid" "cs_nonce s = ch_Nonce (cs_hello s)"
    "cs_x25519Priv s = Some priv" "cs_mlkemPriv s = Some dk"
    "wf_ClientHello (cs_hello s)" "ch_UUID (cs_hello s) = uuid" "ch_Command (cs_hello s) = cmd"
    "ch_Address (cs_hello s) = addr" "ch_Timestamp (cs_hello s) = word_of_int now"
    "ch_ClassicalPub (cs_hello s) = x25519_PublicKey C priv"
    "ch_PQPub (cs_hello s) = mlkem_EncapsulationKey C dk"
    "HandshakeAEADKey C uuid (ch_Nonce (cs_hello s)) = Inr key" "length key = 32"
    "64 \<le> length pad" "length pad \<le> 1024"
    "send tr (hello_body C key (cs_hello s) pad @ OuterMAC C uuid (hello_body C key (cs_hello s) pad)) = (None, tr')"
proof -
  from w obtain priv r1 dk r2 nonce r3 where g: "cmd = CommandTCP \<or> cmd = CommandUDP"
    "x25519_GenerateKey C rnd = (Some priv, r1)" "mlkem_GenerateKey C r1 = (Some dk, r2)"
    "io_ReadFull 12 r2 = (Inr nonce, r3)"
    by (auto simp: WriteClientHello_def ewp_consts split: if_splits prod.splits option.splits sum.splits)
  define hello where "hello = new_hello C now uuid cmd addr priv dk nonce"
  have wf: "wf_ClientHello hello" "encodable (ch_Address hello)"
    using wf_new_hello [OF C(2,3) g(2-4) u] a by (simp_all add: hello_def) (simp add: new_hello_def)
  note W = WriteClientHello_eq [OF C(2,3) g, of now send tr uuid addr, folded hello_def]
  show thesis
  proof (cases rule: EncodeClientHello_cases [OF C(1) wf, of r3])
    case (1 key pad r4)
    from 1(1) w W have "s = \<lparr>cs_uuid = uuid, cs_nonce = nonce, cs_x25519Priv = Some priv,
        cs_mlkemPriv = Some dk, cs_hello = hello\<rparr>"
      "send tr (hello_body C key hello pad @ OuterMAC C (ch_UUID hello) (hello_body C key hello pad)) = (None, tr')"
      by (auto split: prod.splits option.splits)
    with 1 g wf show thesis
      by (intro that [of priv r1 dk r2 key pad]) (simp_all add: hello_def new_hello_def)
  next
    case 2
    with w W show thesis by simp
  qed
qed

text \<open>With working key generation and 1040 more random bytes the client sends its hello.\<close>

lemma WriteClientHello_sends:
  assumes C: "kdf_ok C" "dh_ok C" "kem_ok C" and u: "length uuid = 16" and a: "encodable addr"
    and g: "cmd = CommandTCP \<or> cmd = CommandUDP"
    "x25519_GenerateKey C rnd = (Some priv, r1)" "mlkem_GenerateKey C r1 = (Some dk, r2)" "1040 \<le> length r2"
  obtains s msg rnd' where
    "WriteClientHello C now (\<lambda>q m. (None, q @ [m])) [] uuid cmd addr rnd = (Inr s, [msg], rnd')"
    "ch_Timestamp (cs_hello s) = word_of_int now"
proof -
  have r: "io_ReadFull 12 r2 = (Inr (take 12 r2), drop 12 r2)"
    using g(4) by (simp add: io_ReadFull_Inr)
  have wf: "wf_ClientHello (new_hello C now uuid cmd addr priv dk (take 12 r2))"
    "encodable (ch_Address (new_hello C now uuid cmd addr priv dk (take 12 r2)))"
    using wf_new_hello [OF C(2,3) g(2,3) r u] a by simp (simp add: new_hello_def a)
  show thesis
  proof (cases rule: EncodeClientHello_cases [OF C(1) wf, of "drop 12 r2"])
    case (1 key pad r4)
    show thesis
      by (rule that [unfolded WriteClientHello_eq [OF C(2,3) g(1-3) r] 1(1)]) (simp, simp add: new_hello_def)
  next
    case 2
    then show thesis using g(4) by simp
  qed
qed

lemma ReadServerHello_Inr:
  assumes "ReadServerHello C now s msg = (Inr res, s')"
  obtains sh priv classical dk ss keys where "DecodeServerHello C msg (cs_uuid s) = Inr sh"
    "sh_NonceEcho sh = cs_nonce s" "sh_Status sh = 0" "absDiff (uint (sh_ServerTime sh)) now \<le> 120"
    "cs_x25519Priv s = Some priv" "x25519_pub_ok C (sh_ClassicalPub sh)"
    "x25519_ECDH C priv (sh_ClassicalPub sh) = Some classical" "cs_mlkemPriv s = Some dk"
    "mlkem_Decapsulate C dk (sh_PQCipher sh) = Some ss"
    "DeriveSessionKeys C (array_copy 32 classical) ss (ch_Nonce (cs_hello s)) (sh_NonceEcho sh) = Inr keys"
    "res = \<lparr>hr_Keys = keys, hr_ClientHello = None, hr_ServerHello = Some sh\<rparr>"
    "s' = s\<lparr>cs_x25519Priv := None, cs_mlkemPriv := None\<rparr>"
  using assms
  by (auto simp: ReadServerHello_def ewp_consts Let_def split: if_splits sum.splits option.splits)

lemma ReadServerHello_intro:
  assumes "DecodeServerHello C msg (cs_uuid s) = Inr sh"
    "sh_NonceEcho sh = cs_nonce s" "sh_Status sh = 0" "absDiff (uint (sh_ServerTime sh)) now \<le> 120"
    "cs_x25519Priv s = Some priv" "x25519_pub_ok C (sh_ClassicalPub sh)"
    "x25519_ECDH C priv (sh_ClassicalPub sh) = Some classical" "cs_mlkemPriv s = Some dk"
    "mlkem_Decapsulate C dk (sh_PQCipher sh) = Some ss"
    "DeriveSessionKeys C (array_copy 32 classical) ss (ch_Nonce (cs_hello s)) (sh_NonceEcho sh) = Inr keys"
  shows "ReadServerHello C now s msg = (Inr \<lparr>hr_Keys = keys, hr_ClientHello = None, hr_ServerHello = Some sh\<rparr>,
    s\<lparr>cs_x25519Priv := None, cs_mlkemPriv := None\<rparr>)"
  using assms by (simp add: ReadServerHello_def ewp_consts)

section \<open>Honest runs\<close>

text \<open>A hello sent by an honest client, seen by the server.\<close>

lemma honest_hello:
  assumes C: "aead_ok C" "kdf_ok C" "dh_ok C" "kem_ok C" and u: "length uuid = 16" and a: "encodable addr"
    and w: "WriteClientHello C t0 send tr uuid cmd addr rnd = (Inr s, tr', rnd')"
  obtains priv r1 dk r2 msg body where
    "x25519_GenerateKey C rnd = (Some priv, r1)" "mlkem_GenerateKey C r1 = (Some dk, r2)"
    "send tr msg = (None, tr')" "msg = body @ OuterMAC C uuid body"
    "DecodeClientHello C msg uuid = Inr ((cs_hello s)\<lparr>ch_Address := canon addr\<rparr>)"
    "cmd = CommandTCP \<or> cmd = CommandUDP" "ch_Command (cs_hello s) = cmd" "ch_UUID (cs_hello s) = uuid"
    "ch_Timestamp (cs_hello s) = word_of_int t0" "length (ch_Nonce (cs_hello s)) = 12"
    "ch_ClassicalPub (cs_hello s) = x25519_PublicKey C priv" "ch_PQPub (cs_hello s) = mlkem_EncapsulationKey C dk"
    "cs_uuid s = uuid" "cs_nonce s = ch_Nonce (cs_hello s)" "cs_x25519Priv s = Some priv" "cs_mlkemPriv s = Some dk"
proof (rule WriteClientHello_Inr [OF C(2-4) u a w])
  fix priv r1 dk r2 key pad
  assume W: "cmd = CommandTCP \<or> cmd = CommandUDP"
    "x25519_GenerateKey C rnd = (Some priv, r1)" "mlkem_GenerateKey C r1 = (Some dk, r2)"
    "cs_uuid s = uuid" "cs_nonce s = ch_Nonce (cs_hello s)"
    "cs_x25519Priv s = Some priv" "cs_mlkemPriv s = Some dk"
    "wf_ClientHello (cs_hello s)" "ch_UUID (cs_hello s) = uuid" "ch_Command (cs_hello s) = cmd"
    "ch_Address (cs_hello s) = addr" "ch_Timestamp (cs_hello s) = word_of_int t0"
    "ch_ClassicalPub (cs_hello s) = x25519_PublicKey C priv"
    "ch_PQPub (cs_hello s) = mlkem_EncapsulationKey C dk"
    "HandshakeAEADKey C uuid (ch_Nonce (cs_hello s)) = Inr key" "length key = 32" "length pad \<le> 1024"
    "send tr (hello_body C key (cs_hello s) pad @ OuterMAC C uuid (hello_body C key (cs_hello s) pad)) = (None, tr')"
  have "DecodeClientHello C (hello_body C key (cs_hello s) pad @ OuterMAC C uuid (hello_body C key (cs_hello s) pad)) uuid =
      Inr ((cs_hello s)\<lparr>ch_Address := canon addr\<rparr>)"
    using hello_wire_parts [OF C(2,1) W(8), of key pad] W a by simp
  with W show thesis
    by (intro that [OF W(2,3,18) refl]) (simp_all add: wf_ClientHello_def)
qed

text \<open>\<open>fresh cache t uuid nonce\<close>: a nil cache, or one in which the pair is not live.\<close>

definition fresh_in :: "ReplayCache option \<Rightarrow> int \<Rightarrow> bytes \<Rightarrow> bytes \<Rightarrow> bool" where
  "fresh_in cache t uuid nonce = (case cache of None \<Rightarrow> True | Some c \<Rightarrow> \<not> rc_live c t (uuid, nonce))"

lemma accept_replay_fresh:
  assumes "fresh_in cache t (ch_UUID ch) (ch_Nonce ch)"
  obtains cache' where "accept_replay t cache ch = (True, cache')"
proof (cases cache)
  case None
  then show thesis by (intro that) (simp add: accept_replay_def)
next
  case (Some c)
  then show thesis
    using assms rc_guard.answer [of t c "(ch_UUID ch, ch_Nonce ch)"]
    by (intro that [of "Some (snd (rc_mark t c (ch_UUID ch, ch_Nonce ch)))"])
      (auto simp: accept_replay_def fresh_in_def rc_mark_def split: prod.splits)
qed

text \<open>The server's answer to a hello with the keys of an honest client, and the client's reading of it.\<close>

lemma honest_answer:
  assumes C: "kdf_ok C" "dh_ok C" "kem_ok C"
    and g: "x25519_GenerateKey C r0 = (Some priv, r1)" "mlkem_GenerateKey C r2 = (Some dk, r3)"
      "x25519_GenerateKey C rnd = (Some b, rnd1)"
    and ch: "ch_ClassicalPub ch = x25519_PublicKey C priv" "ch_PQPub ch = mlkem_EncapsulationKey C dk"
      "length (ch_Nonce ch) = 12"
    and s: "cs_uuid s = uuid" "cs_nonce s = ch_Nonce ch" "ch_Nonce (cs_hello s) = ch_Nonce ch"
      "cs_x25519Priv s = Some priv" "cs_mlkemPriv s = Some dk"
    and t: "0 \<le> t3" "t3 < 2 ^ 32" "absDiff t3 t4 \<le> 120"
  obtains out keys rnd2 sh where "wf_keys keys"
    "accept_respond C t3 uuid ch rnd =
      (Inr (out, \<lparr>hr_Keys = keys, hr_ClientHello = Some ch, hr_ServerHello = None\<rparr>), rnd2)"
    "ReadServerHello C t4 s out = (Inr \<lparr>hr_Keys = keys, hr_ClientHello = None, hr_ServerHello = Some sh\<rparr>,
       s\<lparr>cs_x25519Priv := None, cs_mlkemPriv := None\<rparr>)"
proof -
  obtain z where z: "x25519_ECDH C priv (x25519_PublicKey C b) = Some z"
    "x25519_ECDH C b (x25519_PublicKey C priv) = Some z" "length z = 32"
    by (rule dh_agree [OF C(2) g(1,3)])
  obtain ss ct rnd2 where e: "mlkem_Encapsulate C (mlkem_EncapsulationKey C dk) rnd1 = ((ss, ct), rnd2)"
    by (metis prod.exhaust)
  note k = kem_agree [OF C(3) g(2) e] and kp = kem_public [OF C(3) g(2)]
    and dp = dh_public [OF C(2) g(1)] and db = dh_public [OF C(2) g(3)]
  define sh where "sh = \<lparr>sh_NonceEcho = ch_Nonce ch, sh_ClassicalPub = array_copy 32 (x25519_PublicKey C b),
       sh_PQCipher = ct, sh_ServerTime = word_of_int t3, sh_Status = 0\<rparr>"
  have wf: "wf_ServerHello sh"
    using k ch by (simp add: sh_def wf_ServerHello_def)
  obtain keys where keys: "DeriveSessionKeys C (array_copy 32 z) ss (ch_Nonce ch) (ch_Nonce ch) = Inr keys"
    and r: "accept_respond C t3 uuid ch rnd = (Inr (server_body sh @ OuterMAC C uuid (server_body sh),
       \<lparr>hr_Keys = keys, hr_ClientHello = Some ch, hr_ServerHello = None\<rparr>), rnd2)"
    using accept_respond_intro [OF C(1) g(3) _ _ _ _ _ sh_def, of z ss rnd2 uuid] z e k kp dp ch by metis
  have "wf_keys keys"
    using DeriveSessionKeys_ok [OF C(1)] keys by (metis sum.inject(2))
  moreover have "ReadServerHello C t4 s (server_body sh @ OuterMAC C uuid (server_body sh)) =
      (Inr \<lparr>hr_Keys = keys, hr_ClientHello = None, hr_ServerHello = Some sh\<rparr>,
       s\<lparr>cs_x25519Priv := None, cs_mlkemPriv := None\<rparr>)"
  proof (rule ReadServerHello_intro [where priv = priv and dk = dk and classical = z and ss = ss])
    show "DecodeServerHello C (server_body sh @ OuterMAC C uuid (server_body sh)) (cs_uuid s) = Inr sh"
      using DecodeServerHello_body [OF wf length_OuterMAC [OF C(1)]] s(1) by simp
  qed (use s keys k z db t in \<open>simp_all add: sh_def uint_u32\<close>)
  ultimately show thesis using r that by blast
qed

lemma handshake_run:
  assumes C: "aead_ok C" "kdf_ok C" "dh_ok C" "kem_ok C" and u: "length uuid = 16" and a: "encodable addr"
    and w: "WriteClientHello C t0 (\<lambda>q m. (None, q @ [m])) [] uuid cmd addr rnd = (Inr s, [msg], rnd')"
    and us: "uuid \<in> set us" "\<forall>u \<in> set us. OuterMAC C u (take (length msg - 16) msg) =
      OuterMAC C uuid (take (length msg - 16) msg) \<longrightarrow> u = uuid"
    and t: "0 \<le> t0" "t0 < 2 ^ 32" "absDiff t0 t1 \<le> 120" "0 \<le> t3" "t3 < 2 ^ 32" "absDiff t3 t4 \<le> 120"
    and f: "fresh_in cache t2 uuid (cs_nonce s)"
    and b: "x25519_GenerateKey C rnd2 = (Some b, rnd2')"
  obtains out sres cres cache' rnd3 s' where
    "AcceptClientHelloWithReplay C t1 t2 t3 msg (MakeUUIDLookup C us) cache rnd2 =
       (Inr (out, sres), cache', rnd3)"
    "accept_replay t2 cache (cs_hello s) = (True, cache')"
    "ReadServerHello C t4 s out = (Inr cres, s')" "hr_Keys cres = hr_Keys sres" "wf_keys (hr_Keys sres)"
    "hr_ClientHello sres = Some ((cs_hello s)\<lparr>ch_Address := canon addr\<rparr>)"
    "ch_Command (cs_hello s) = cmd"
proof -
  obtain priv r1 dk r2 msg' body where h':
    "x25519_GenerateKey C rnd = (Some priv, r1)" "mlkem_GenerateKey C r1 = (Some dk, r2)"
    "(None, [] @ [msg']) = (None :: ewp_error option, [msg])" "msg' = body @ OuterMAC C uuid body"
    "DecodeClientHello C msg' uuid = Inr ((cs_hello s)\<lparr>ch_Address := canon addr\<rparr>)"
    "cmd = CommandTCP \<or> cmd = CommandUDP" "ch_Command (cs_hello s) = cmd" "ch_UUID (cs_hello s) = uuid"
    "ch_Timestamp (cs_hello s) = word_of_int t0" "length (ch_Nonce (cs_hello s)) = 12"
    "ch_ClassicalPub (cs_hello s) = x25519_PublicKey C priv" "ch_PQPub (cs_hello s) = mlkem_EncapsulationKey C dk"
    "cs_uuid s = uuid" "cs_nonce s = ch_Nonce (cs_hello s)" "cs_x25519Priv s = Some priv" "cs_mlkemPriv s = Some dk"
    by (rule honest_hello [OF C u a w]) (rule that; assumption)
  have m': "msg' = msg" using h'(3) by simp
  note h = h'(1,2) h'(4-16) [unfolded m']
  define ch where "ch = (cs_hello s)\<lparr>ch_Address := canon addr\<rparr>"
  obtain cache' where cache: "accept_replay t2 cache (cs_hello s) = (True, cache')"
    using accept_replay_fresh [of cache t2 "cs_hello s"] f h by auto
  have m: "take (length msg - 16) msg = body" "drop (length msg - 16) msg = OuterMAC C uuid body"
    using length_OuterMAC [OF C(2)] h(3) by simp_all
  have q: "ch_ClassicalPub ch = x25519_PublicKey C priv" "ch_PQPub ch = mlkem_EncapsulationKey C dk"
    "length (ch_Nonce ch) = 12" "cs_nonce s = ch_Nonce ch" "ch_Nonce (cs_hello s) = ch_Nonce ch"
    using h by (simp_all add: ch_def)
  obtain out keys rnd3 sh where r: "wf_keys keys"
    "accept_respond C t3 uuid ch rnd2 =
      (Inr (out, \<lparr>hr_Keys = keys, hr_ClientHello = Some ch, hr_ServerHello = None\<rparr>), rnd3)"
    "ReadServerHello C t4 s out = (Inr \<lparr>hr_Keys = keys, hr_ClientHello = None, hr_ServerHello = Some sh\<rparr>,
       s\<lparr>cs_x25519Priv := None, cs_mlkemPriv := None\<rparr>)"
    by (rule honest_answer [OF C(2-4) h(1,2) b q(1-3) h(12) q(4,5) h(14,15) t(4-6)])
  have "AcceptClientHelloWithReplay C t1 t2 t3 msg (MakeUUIDLookup C us) cache rnd2 =
    (Inr (out, \<lparr>hr_Keys = keys, hr_ClientHello = Some ch, hr_ServerHello = None\<rparr>), cache', rnd3)"
  proof (rule Accept_intro [where ch = ch])
    show "MakeUUIDLookup C us (take (length msg - 16) msg) (drop (length msg - 16) msg) = Inr (ch_UUID ch)"
      using MakeUUIDLookup_unique [OF us(1), of C body] us(2) m h by (simp add: ch_def)
    show "16 \<le> length msg" using length_OuterMAC [OF C(2)] h(3) by simp
    show "absDiff (uint (ch_Timestamp ch)) t1 \<le> 120"
      using t h by (simp add: ch_def uint_u32)
    show "accept_replay t2 cache ch = (True, cache')"
      using cache by (simp add: ch_def accept_replay_def cong: option.case_cong)
  qed (use h r in \<open>auto simp: ch_def\<close>)
  with that r cache h show thesis by (simp add: ch_def)
qed

section \<open>Replays\<close>

text \<open>
  A server's calls of \<^verbatim>\<open>AcceptClientHelloWithReplay\<close> against its one cache, in order. A call is
  given by its three clock readings, its message and its randomness.
\<close>

type_synonym accept_call = "int \<times> int \<times> int \<times> bytes \<times> bytes"

fun accept_run :: "crypto \<Rightarrow> UUIDLookup \<Rightarrow> ReplayCache option \<Rightarrow> accept_call list \<Rightarrow>
    (ewp_error + bytes \<times> HandshakeResult) list \<times> ReplayCache option" where
  "accept_run C lookup cache [] = ([], cache)"
| "accept_run C lookup cache ((t1, t2, t3, msg, rnd) # calls) =
     (case AcceptClientHelloWithReplay C t1 t2 t3 msg lookup cache rnd of (res, cache', _) \<Rightarrow>
      (case accept_run C lookup cache' calls of (rs, cache'') \<Rightarrow> (res # rs, cache'')))"

lemma mark_run_append:
  "snd (mark_run mark c (es @ fs)) = snd (mark_run mark (snd (mark_run mark c es)) fs)"
proof (induction es arbitrary: c)
  case (Cons e es)
  obtain t k where "e = (t, k)" by (cases e)
  with Cons show ?case by (auto split: prod.splits) (metis snd_conv)+
qed simp

lemma DecodeClientHello_rc_ok:
  assumes "DecodeClientHello C msg uuid = Inr ch"
  shows "rc_ok (ch_UUID ch, ch_Nonce ch)"
proof -
  from DecodeClientHello_Inr [OF assms] obtain n plain where "length msg = 1246 + n"
    "decode_inner (take 12 msg) (subslice 12 44 msg) (subslice 44 1228 msg) plain = Inr ch" by metis
  then show ?thesis
    by (elim decode_inner_sound) (simp add: rc_ok_def)
qed

text \<open>A call changes the cache by at most one marking, at its own time.\<close>

lemma accept_cache:
  assumes "AcceptClientHelloWithReplay C t1 t2 t3 msg lookup (Some c) rnd = (res, cache', rnd')"
  obtains es where "cache' = Some (snd (mark_run rc_mark c es))" "\<forall>(t, k) \<in> set es. t = t2 \<and> rc_ok k"
proof -
  have "cache' = Some c \<or>
      (\<exists>ch uuid. DecodeClientHello C msg uuid = Inr ch \<and> cache' = snd (accept_replay t2 (Some c) ch))"
    using assms by (auto simp: AcceptClientHelloWithReplay_def Let_def split: if_splits sum.splits prod.splits bool.splits)
  then show thesis
  proof
    assume "cache' = Some c"
    then show thesis by (intro that [of "[]"]) simp_all
  next
    assume "\<exists>ch uuid. DecodeClientHello C msg uuid = Inr ch \<and> cache' = snd (accept_replay t2 (Some c) ch)"
    then obtain ch uuid where d: "DecodeClientHello C msg uuid = Inr ch"
      and c: "cache' = snd (accept_replay t2 (Some c) ch)" by blast
    from DecodeClientHello_rc_ok [OF d] c show thesis
      by (intro that [of "[(t2, ch_UUID ch, ch_Nonce ch)]"])
        (auto simp: accept_replay_def rc_mark_def split: prod.splits)
  qed
qed

lemma accept_run_cache:
  assumes "accept_run C lookup (Some c) calls = (rs, cache')" and "\<forall>(t1, t2, r) \<in> set calls. P t2"
  obtains es where "cache' = Some (snd (mark_run rc_mark c es))" "\<forall>(t, k) \<in> set es. P t \<and> rc_ok k"
  using assms
proof (induction calls arbitrary: c rs thesis)
  case Nil
  then show ?case by (intro Nil(1) [of "[]"]) auto
next
  case (Cons call calls)
  obtain t1 t2 t3 msg rnd where call: "call = (t1, t2, t3, msg, rnd)" by (cases call)
  obtain res c1 r1 where a: "AcceptClientHelloWithReplay C t1 t2 t3 msg lookup (Some c) rnd = (res, c1, r1)"
    by (metis prod.exhaust)
  from accept_cache [OF a] obtain es where es: "c1 = Some (snd (mark_run rc_mark c es))"
    "\<forall>(t, k) \<in> set es. t = t2 \<and> rc_ok k" by blast
  obtain rs' c2 where r: "accept_run C lookup c1 calls = (rs', c2)"
    by (metis prod.exhaust)
  have c2: "c2 = cache'"
    using Cons.prems(2) call a r by simp
  from Cons.IH [OF _ r [unfolded es(1) c2]] Cons.prems(3) obtain fs where
    fs: "cache' = Some (snd (mark_run rc_mark (snd (mark_run rc_mark c es)) fs))" "\<forall>(t, k) \<in> set fs. P t \<and> rc_ok k"
    by auto
  with fs es Cons.prems(3) call show ?case
    by (intro Cons.prems(1) [of "es @ fs"]) (auto simp: mark_run_append)
qed

text \<open>The second presentation of an accepted message.\<close>

lemma accept_again:
  assumes "AcceptClientHelloWithReplay C t1 t2 t3 msg lookup (Some c) rnd = (Inr out, cache1, rnd1)"
  obtains ch c1 where "hr_ClientHello (snd out) = Some ch" "rc_ok (ch_UUID ch, ch_Nonce ch)"
    "rc_mark t2 c (ch_UUID ch, ch_Nonce ch) = (True, c1)" "cache1 = Some c1"
    "\<And>s1 s2 s3 c2 rnd2. AcceptClientHelloWithReplay C s1 s2 s3 msg lookup (Some c2) rnd2 =
       (if absDiff (uint (ch_Timestamp ch)) s1 > 120 then (Inl ErrTimestamp, Some c2, rnd2)
        else case rc_mark s2 c2 (ch_UUID ch, ch_Nonce ch) of
          (False, c3) \<Rightarrow> (Inl ErrReplay, Some c3, rnd2)
        | (True, c3) \<Rightarrow> (case accept_respond C s3 (ch_UUID ch) ch rnd2 of (res, rnd3) \<Rightarrow> (res, Some c3, rnd3)))"
    "\<And>s1 s3 rnd2. AcceptClientHello C s1 s3 msg lookup rnd2 =
       (if absDiff (uint (ch_Timestamp ch)) s1 > 120 then (Inl ErrTimestamp, rnd2)
        else accept_respond C s3 (ch_UUID ch) ch rnd2)"
proof (rule Accept_Inr [OF assms])
  fix ch :: ClientHello
  assume a: "16 \<le> length msg"
    "lookup (take (length msg - 16) msg) (drop (length msg - 16) msg) = Inr (ch_UUID ch)"
    "DecodeClientHello C msg (ch_UUID ch) = Inr ch"
    "ch_Command ch = CommandTCP \<or> ch_Command ch = CommandUDP"
    "accept_replay t2 (Some c) ch = (True, cache1)"
    "accept_respond C t3 (ch_UUID ch) ch rnd = (Inr out, rnd1)"
  have out: "hr_ClientHello (snd out) = Some ch"
    using a(6) by (cases out) (auto elim: accept_respond_Inr)
  have m: "rc_mark t2 c (ch_UUID ch, ch_Nonce ch) = (True, the cache1)" "cache1 = Some (the cache1)"
    using a(5) by (auto simp: accept_replay_def rc_mark_def split: prod.splits)
  show thesis
  proof (rule that [OF out DecodeClientHello_rc_ok [OF a(3)] m])
    show "AcceptClientHelloWithReplay C s1 s2 s3 msg lookup (Some c2) rnd2 =
       (if absDiff (uint (ch_Timestamp ch)) s1 > 120 then (Inl ErrTimestamp, Some c2, rnd2)
        else case rc_mark s2 c2 (ch_UUID ch, ch_Nonce ch) of
          (False, c3) \<Rightarrow> (Inl ErrReplay, Some c3, rnd2)
        | (True, c3) \<Rightarrow> (case accept_respond C s3 (ch_UUID ch) ch rnd2 of (res, rnd3) \<Rightarrow> (res, Some c3, rnd3)))"
      for s1 s2 s3 c2 rnd2
      using a(1-4) by (auto simp: AcceptClientHelloWithReplay_def ewp_consts Let_def accept_replay_def rc_mark_def
          split: prod.splits bool.splits)
    show "AcceptClientHello C s1 s3 msg lookup rnd2 =
       (if absDiff (uint (ch_Timestamp ch)) s1 > 120 then (Inl ErrTimestamp, rnd2)
        else accept_respond C s3 (ch_UUID ch) ch rnd2)" for s1 s3 rnd2
      using a(1-4) by (auto simp: AcceptClientHello_def AcceptClientHelloWithReplay_def ewp_consts Let_def
          accept_replay_def split: prod.splits bool.splits)
  qed
qed

lemma rc_W_ReplayWindow: "rc_window c = ReplayWindow \<Longrightarrow> rc_W c = 180"
  by (simp add: rc_W_def ewp_consts go_div_nonneg)

lemma replay_refused:
  assumes a: "AcceptClientHelloWithReplay C t1 t2 t3 msg lookup (Some c) rnd = (Inr out, cache1, rnd1)"
    and w: "rc_window c = ReplayWindow" and r: "accept_run C lookup cache1 calls = (rs, cache2)"
    and b: "\<forall>(u1, u2, r) \<in> set calls. u2 < t2 + 180" and s: "s2 < t2 + 180"
  shows "fst (AcceptClientHelloWithReplay C s1 s2 s3 msg lookup cache2 rnd2) \<in> {Inl ErrTimestamp, Inl ErrReplay}"
proof (rule accept_again [OF a])
  fix ch :: ClientHello and c1
  let ?k = "(ch_UUID ch, ch_Nonce ch)"
  assume k: "rc_ok ?k" and m: "rc_mark t2 c ?k = (True, c1)" and c1: "cache1 = Some c1"
    and again: "\<And>s1 s2 s3 c2 rnd2. AcceptClientHelloWithReplay C s1 s2 s3 msg lookup (Some c2) rnd2 =
       (if absDiff (uint (ch_Timestamp ch)) s1 > 120 then (Inl ErrTimestamp, Some c2, rnd2)
        else case rc_mark s2 c2 ?k of
          (False, c3) \<Rightarrow> (Inl ErrReplay, Some c3, rnd2)
        | (True, c3) \<Rightarrow> (case accept_respond C s3 (ch_UUID ch) ch rnd2 of (res, rnd3) \<Rightarrow> (res, Some c3, rnd3)))"
  from accept_run_cache [OF r [unfolded c1] b] obtain es where
    es: "cache2 = Some (snd (mark_run rc_mark c1 es))" "\<forall>(t, k) \<in> set es. t < t2 + 180 \<and> rc_ok k"
    by blast
  have "\<not> fst (rc_mark s2 (snd (mark_run rc_mark (snd (rc_mark t2 c ?k)) es)) ?k)"
    using rc_guard.no_double_admit [of ?k t2 c es s2] k m es(2) s rc_W_ReplayWindow [OF w] by simp
  then show ?thesis
    using m es(1) again by (auto split: prod.splits)
qed

section \<open>A concrete run\<close>

text \<open>The toy client sends a hello at time \<open>t\<close>; the toy server, which knows its UUID, answers.\<close>

abbreviation toy_uuid :: bytes where "toy_uuid \<equiv> replicate 16 1"

lemma toy_write:
  obtains s msg rnd' where
    "WriteClientHello toy_crypto t (\<lambda>q m. (None, q @ [m])) [] toy_uuid CommandTCP
       (Address_zero\<lparr>addr_Domain := [97, 98], addr_Port := 443\<rparr>) (replicate 2000 0) = (Inr s, [msg], rnd')"
    "ch_Timestamp (cs_hello s) = word_of_int t"
proof (rule WriteClientHello_sends [OF toy_kdf_ok toy_dh_ok toy_kem_ok _ toy_addr(1)])
  show "x25519_GenerateKey toy_crypto (replicate 2000 0) = (Some (replicate 32 0), replicate 1968 0)"
    by (simp add: toy_crypto_def toy_gen_def)
  show "mlkem_GenerateKey toy_crypto (replicate 1968 0) = (Some (replicate 64 0), replicate 1904 0)"
    by (simp add: toy_crypto_def toy_gen_def)
qed (auto intro: that)

lemma toy_server_keygen: "x25519_GenerateKey toy_crypto (replicate 200 7) = (Some (replicate 32 7), replicate 168 7)"
  by (simp add: toy_crypto_def toy_gen_def)

lemma toy_accept:
  assumes "0 \<le> t0" "t0 < 2 ^ 32" "absDiff t0 t1 \<le> 120" "0 \<le> t3" "t3 < 2 ^ 32"
  obtains msg out sres c' rnd3 ch where
    "AcceptClientHelloWithReplay toy_crypto t1 t2 t3 msg (MakeUUIDLookup toy_crypto [toy_uuid])
       (Some (NewReplayCache ReplayWindow)) (replicate 200 7) = (Inr (out, sres), Some c', rnd3)"
    "hr_ClientHello sres = Some ch" "ch_Timestamp ch = word_of_int t0"
proof -
  obtain s msg rnd' where w: "WriteClientHello toy_crypto t0 (\<lambda>q m. (None, q @ [m])) [] toy_uuid CommandTCP
       (Address_zero\<lparr>addr_Domain := [97, 98], addr_Port := 443\<rparr>) (replicate 2000 0) = (Inr s, [msg], rnd')"
    and t: "ch_Timestamp (cs_hello s) = word_of_int t0" by (rule toy_write)
  have f: "fresh_in (Some (NewReplayCache ReplayWindow)) t2 toy_uuid (cs_nonce s)"
    by (simp add: fresh_in_def rc_live_def spec_live_def NewReplayCache_def)
  show thesis
  proof (rule handshake_run [OF toy_aead_ok toy_kdf_ok toy_dh_ok toy_kem_ok _ toy_addr(1) w, of "[toy_uuid]" t1 t3 t3])
    fix out sres cache' rnd3
    assume a: "AcceptClientHelloWithReplay toy_crypto t1 t2 t3 msg (MakeUUIDLookup toy_crypto [toy_uuid])
       (Some (NewReplayCache ReplayWindow)) (replicate 200 7) = (Inr (out, sres), cache', rnd3)"
      and c: "accept_replay t2 (Some (NewReplayCache ReplayWindow)) (cs_hello s) = (True, cache')"
      and h: "hr_ClientHello sres = Some ((cs_hello s)\<lparr>ch_Address := canon (Address_zero\<lparr>addr_Domain := [97, 98], addr_Port := 443\<rparr>)\<rparr>)"
    from c obtain c' where "cache' = Some c'"
      by (auto simp: accept_replay_def split: prod.splits)
    with a h t show thesis by (intro that [OF _ h]) auto
  qed (use assms f toy_server_keygen in \<open>auto simp: absDiff_def\<close>)
qed

section \<open>Properties\<close>

text \<open>
  C12: The handshake completes and both sides hold the same session keys. Let a client have sent a
  hello. If the server knows its UUID and no other known UUID has the same MAC on that
  message, both clocks are within the timestamp window and the pair of UUID and nonce is
  fresh in the replay cache, then \<^verbatim>\<open>AcceptClientHelloWithReplay\<close> accepts, \<^verbatim>\<open>ReadServerHello\<close>
  accepts its answer, the session keys are equal and of the declared lengths, and the
  server has the client's hello, command and (canonical) address included.
\<close>
theorem handshake_agreement:
  assumes "aead_ok C" and "kdf_ok C" and "dh_ok C" and "kem_ok C"
    and "length uuid = 16" and "encodable addr"
    and "WriteClientHello C t0 (\<lambda>q m. (None, q @ [m])) [] uuid cmd addr rnd = (Inr s, [msg], rnd')"
    and "uuid \<in> set us"
    and "\<forall>u \<in> set us. OuterMAC C u (take (length msg - 16) msg) =
           OuterMAC C uuid (take (length msg - 16) msg) \<longrightarrow> u = uuid"
    and "0 \<le> t0" and "t0 < 2 ^ 32" and "absDiff t0 t1 \<le> 120"
    and "0 \<le> t3" and "t3 < 2 ^ 32" and "absDiff t3 t4 \<le> 120"
    and "fresh_in cache t2 uuid (cs_nonce s)"
    and "x25519_GenerateKey C rnd2 = (Some b, rnd2')"
  shows "\<exists>out sres cres cache' rnd3 s'.
    AcceptClientHelloWithReplay C t1 t2 t3 msg (MakeUUIDLookup C us) cache rnd2 =
      (Inr (out, sres), cache', rnd3) \<and>
    ReadServerHello C t4 s out = (Inr cres, s') \<and>
    hr_Keys cres = hr_Keys sres \<and> wf_keys (hr_Keys sres) \<and>
    hr_ClientHello sres = Some ((cs_hello s)\<lparr>ch_Address := canon addr\<rparr>) \<and> ch_Command (cs_hello s) = cmd"
  by (rule handshake_run [OF assms]) blast

theorem handshake_agreement_witness:
  "\<exists>s msg rnd' out sres cres cache' rnd3 s'.
    WriteClientHello toy_crypto 1000 (\<lambda>q m. (None, q @ [m])) [] toy_uuid CommandTCP
       (Address_zero\<lparr>addr_Domain := [97, 98], addr_Port := 443\<rparr>) (replicate 2000 0) = (Inr s, [msg], rnd') \<and>
    AcceptClientHelloWithReplay toy_crypto 1010 1010 1011 msg (MakeUUIDLookup toy_crypto [toy_uuid])
       (Some (NewReplayCache ReplayWindow)) (replicate 200 7) = (Inr (out, sres), cache', rnd3) \<and>
    ReadServerHello toy_crypto 1005 s out = (Inr cres, s') \<and> hr_Keys cres = hr_Keys sres"
proof -
  obtain s msg rnd' where w: "WriteClientHello toy_crypto 1000 (\<lambda>q m. (None, q @ [m])) [] toy_uuid CommandTCP
       (Address_zero\<lparr>addr_Domain := [97, 98], addr_Port := 443\<rparr>) (replicate 2000 0) = (Inr s, [msg], rnd')"
    by (rule toy_write)
  have "fresh_in (Some (NewReplayCache ReplayWindow)) 1010 toy_uuid (cs_nonce s)"
    by (simp add: fresh_in_def rc_live_def spec_live_def NewReplayCache_def)
  then show ?thesis
    using handshake_agreement [OF toy_aead_ok toy_kdf_ok toy_dh_ok toy_kem_ok _ toy_addr(1) w, of "[toy_uuid]" 1010
        1011 1005 "Some (NewReplayCache ReplayWindow)" 1010 "replicate 200 7"] w toy_server_keygen
    by (simp add: absDiff_def) metis
qed

text \<open>
  C6: What the server has checked when it accepts. The message is the sealing, under the key of a UUID
  the server knows, of the hello it reports, followed by the outer MAC of that UUID; the
  hello carries that UUID, a valid command, a canonical address and a timestamp within 120
  seconds of the clock; the pair of UUID and nonce was fresh and has been marked; and the
  session keys have their declared lengths.
\<close>
theorem accept_sound:
  assumes "aead_ok C" and "aead_auth C" and "kdf_ok C"
    and "AcceptClientHelloWithReplay C t1 t2 t3 msg (MakeUUIDLookup C us) cache rnd = (Inr (out, res), cache', rnd')"
  shows "\<exists>ch key pad body. hr_ClientHello res = Some ch \<and> ch_UUID ch \<in> set us \<and>
    HandshakeAEADKey C (ch_UUID ch) (ch_Nonce ch) = Inr key \<and> body = hello_body C key ch pad \<and>
    msg = body @ OuterMAC C (ch_UUID ch) body \<and> wf_ClientHello ch \<and>
    (ch_Command ch = CommandTCP \<or> ch_Command ch = CommandUDP) \<and> canon (ch_Address ch) = ch_Address ch \<and>
    \<bar>uint (ch_Timestamp ch) - t1\<bar> \<le> 120 \<and> fresh_in cache t2 (ch_UUID ch) (ch_Nonce ch) \<and>
    accept_replay t2 cache ch = (True, cache') \<and> wf_keys (hr_Keys res)"
proof (rule Accept_Inr [OF assms(4)])
  fix ch
  assume a: "16 \<le> length msg"
    "MakeUUIDLookup C us (take (length msg - 16) msg) (drop (length msg - 16) msg) = Inr (ch_UUID ch)"
    "DecodeClientHello C msg (ch_UUID ch) = Inr ch"
    "ch_Command ch = CommandTCP \<or> ch_Command ch = CommandUDP"
    "absDiff (uint (ch_Timestamp ch)) t1 \<le> 120" "accept_replay t2 cache ch = (True, cache')"
    "accept_respond C t3 (ch_UUID ch) ch rnd = (Inr (out, res), rnd')"
  obtain key pad mac where d: "HandshakeAEADKey C (ch_UUID ch) (ch_Nonce ch) = Inr key"
    "msg = hello_body C key ch pad @ mac" "length mac = 16" "wf_ClientHello ch" "canon (ch_Address ch) = ch_Address ch"
    using DecodeClientHello_sealed [OF assms(1,2) a(3)] by metis
  have u: "ch_UUID ch \<in> set us" "mac = OuterMAC C (ch_UUID ch) (hello_body C key ch pad)"
    using MakeUUIDLookup_Inr [OF a(2)] d(2,3) by simp_all
  have f: "fresh_in cache t2 (ch_UUID ch) (ch_Nonce ch)"
    using a(6) rc_guard.answer [of t2 "the cache" "(ch_UUID ch, ch_Nonce ch)"]
    by (auto simp: fresh_in_def accept_replay_def rc_mark_def split: option.splits prod.splits)
  have k: "hr_ClientHello res = Some ch" "wf_keys (hr_Keys res)"
    using a(7) DeriveSessionKeys_ok [OF assms(3)] by (auto elim!: accept_respond_Inr) (metis sum.inject(2))
  from a(5) have t: "\<bar>uint (ch_Timestamp ch) - t1\<bar> \<le> 120"
    by (auto simp: absDiff_def split: if_splits)
  show ?thesis
    using k u d(1,2,4,5) a(4,6) t f by blast
qed

theorem accept_sound_witness:
  "\<exists>msg out res cache' rnd' ch. AcceptClientHelloWithReplay toy_crypto 1010 1010 1011 msg
      (MakeUUIDLookup toy_crypto [toy_uuid]) (Some (NewReplayCache ReplayWindow)) (replicate 200 7) =
      (Inr (out, res), cache', rnd') \<and> hr_ClientHello res = Some ch \<and> ch_UUID ch = toy_uuid"
proof -
  obtain msg out sres c' rnd3 ch where a:
    "AcceptClientHelloWithReplay toy_crypto 1010 1010 1011 msg (MakeUUIDLookup toy_crypto [toy_uuid])
       (Some (NewReplayCache ReplayWindow)) (replicate 200 7) = (Inr (out, sres), Some c', rnd3)"
    by (rule toy_accept [of 1000 1010 1011]) (simp_all add: absDiff_def)
  from accept_sound [OF toy_aead_ok toy_aead_auth toy_kdf_ok a] obtain ch' where
    "hr_ClientHello sres = Some ch'" "ch_UUID ch' = toy_uuid" by auto
  with a show ?thesis by blast
qed

text \<open>
  C33: What the client has checked when its handshake completes. The message is exactly the encoding of
  a ServerHello under the client's own UUID, echoing the client's own nonce, with status 0
  and a server time within 120 seconds of the clock; the private keys are dropped from the
  state; and a failed call changes nothing, the private keys included, so that the
  client may still read another message.
\<close>
theorem client_completion_sound:
  assumes "kdf_ok C" and "ReadServerHello C now s msg = (res, s')"
  shows "case res of
      Inl e \<Rightarrow> s' = s
    | Inr r \<Rightarrow> cs_x25519Priv s' = None \<and> cs_mlkemPriv s' = None \<and> wf_keys (hr_Keys r) \<and>
        (\<exists>sh. hr_ServerHello r = Some sh \<and> EncodeServerHello C sh (cs_uuid s) = Inr msg \<and>
           sh_NonceEcho sh = cs_nonce s \<and> sh_Status sh = 0 \<and> \<bar>uint (sh_ServerTime sh) - now\<bar> \<le> 120)"
proof (cases res)
  case (Inl e)
  with assms(2) show ?thesis
    by (auto simp: ReadServerHello_def split: if_splits sum.splits option.splits)
next
  case (Inr r)
  have "wf_keys keys" if "DeriveSessionKeys C a b c d = Inr keys" for a b c d keys
    using DeriveSessionKeys_ok [OF assms(1)] that by (metis sum.inject(2))
  moreover have "\<bar>x - y\<bar> \<le> 120" if "absDiff x y \<le> 120" for x y
    using that by (simp add: absDiff_def split: if_splits)
  ultimately show ?thesis
    using assms(2) [unfolded Inr] Inr DecodeServerHello_sound [of C msg "cs_uuid s"]
    by (elim ReadServerHello_Inr) (auto simp: EncodeServerHello_eq)
qed

theorem client_completion_sound_witness:
  "\<exists>s out cres s' sh. ReadServerHello toy_crypto 1005 s out = (Inr cres, s') \<and>
     cs_x25519Priv s \<noteq> None \<and> cs_x25519Priv s' = None \<and>
     hr_ServerHello cres = Some sh \<and> EncodeServerHello toy_crypto sh toy_uuid = Inr out"
proof -
  obtain s msg rnd' where w: "WriteClientHello toy_crypto 1000 (\<lambda>q m. (None, q @ [m])) [] toy_uuid CommandTCP
       (Address_zero\<lparr>addr_Domain := [97, 98], addr_Port := 443\<rparr>) (replicate 2000 0) = (Inr s, [msg], rnd')"
    by (rule toy_write)
  obtain out cres s' where r: "ReadServerHello toy_crypto 1005 s out = (Inr cres, s')"
    by (rule handshake_run [OF toy_aead_ok toy_kdf_ok toy_dh_ok toy_kem_ok _ toy_addr(1) w, of "[toy_uuid]" 1010
        1011 1005 None 1010 "replicate 200 7"]) (simp_all add: absDiff_def fresh_in_def toy_server_keygen)
  have "cs_x25519Priv s \<noteq> None" "cs_uuid s = toy_uuid"
    by (rule WriteClientHello_Inr [OF toy_kdf_ok toy_dh_ok toy_kem_ok _ toy_addr(1) w]; simp)+
  moreover obtain sh where "cs_x25519Priv s' = None" "hr_ServerHello cres = Some sh"
    "EncodeServerHello toy_crypto sh (cs_uuid s) = Inr out"
    using client_completion_sound [OF toy_kdf_ok r] by auto
  ultimately show ?thesis using r by metis
qed

text \<open>
  A replayed hello is refused while the cache remembers it. After a server whose cache has the
  default window accepted a message at time \<open>t2\<close>, and after any further calls of
  \<^verbatim>\<open>AcceptClientHelloWithReplay\<close> with clock readings before \<open>t2 + 180\<close>, the same bytes
  presented before \<open>t2 + 180\<close> are answered with \<^verbatim>\<open>ErrReplay\<close> or \<^verbatim>\<open>ErrTimestamp\<close>.
\<close>
theorem replayed_hello_refused:
  assumes "AcceptClientHelloWithReplay C t1 t2 t3 msg lookup (Some c) rnd = (Inr out, cache1, rnd1)"
    and "rc_window c = ReplayWindow" and "accept_run C lookup cache1 calls = (rs, cache2)"
    and "\<forall>(u1, u2, u3, m, r) \<in> set calls. u2 < t2 + 180" and "s2 < t2 + 180"
  shows "fst (AcceptClientHelloWithReplay C s1 s2 s3 msg lookup cache2 rnd2) \<in> {Inl ErrTimestamp, Inl ErrReplay}"
  using assms(4) by (intro replay_refused [OF assms(1-3) _ assms(5)]) auto

theorem replayed_hello_refused_witness:
  "\<exists>msg out c1 rnd1. AcceptClientHelloWithReplay toy_crypto 1000 1000 1000 msg (MakeUUIDLookup toy_crypto [toy_uuid])
       (Some (NewReplayCache ReplayWindow)) (replicate 200 7) = (Inr out, c1, rnd1) \<and>
     fst (AcceptClientHelloWithReplay toy_crypto 1100 1100 1100 msg (MakeUUIDLookup toy_crypto [toy_uuid]) c1
       (replicate 200 7)) \<in> {Inl ErrTimestamp, Inl ErrReplay}"
proof -
  obtain msg out sres c' rnd3 where a: "AcceptClientHelloWithReplay toy_crypto 1000 1000 1000 msg (MakeUUIDLookup toy_crypto [toy_uuid])
       (Some (NewReplayCache ReplayWindow)) (replicate 200 7) = (Inr (out, sres), Some c', rnd3)"
    by (rule toy_accept [of 1000 1000 1000 1000]) (simp_all add: absDiff_def)
  have "fst (AcceptClientHelloWithReplay toy_crypto 1100 1100 1100 msg (MakeUUIDLookup toy_crypto [toy_uuid]) (Some c')
       (replicate 200 7)) \<in> {Inl ErrTimestamp, Inl ErrReplay}"
    by (rule replayed_hello_refused [OF a, of "[]" "[]"]) (simp_all add: NewReplayCache_def)
  with a show ?thesis by blast
qed

text \<open>
  C7: A hello whose timestamp is not too far ahead is refused after it was accepted. The server
  accepts it, recording it at \<open>t2\<close>; any calls follow; then the same bytes are presented again,
  their timestamp checked against the clock at \<open>s1\<close> and the cache asked at \<open>s2\<close>. They are
  refused, however much later that is, if the timestamp is less than \<open>60 - (s2 - s1)\<close> seconds
  ahead of \<open>t2\<close>, that is, less than a minute less the seconds that go by between the two clock
  readings, and if no call in between asked the cache at a later time than \<open>s2\<close>. A hello
  whose timestamp is further ahead can be accepted again.
\<close>
theorem accepted_hello_refused:
  assumes "AcceptClientHelloWithReplay C t1 t2 t3 msg lookup (Some c) rnd = (Inr out, cache1, rnd1)"
    and "rc_window c = ReplayWindow" and "accept_run C lookup cache1 calls = (rs, cache2)"
    and "\<forall>(u1, u2, u3, m, r) \<in> set calls. u2 \<le> s2"
    and "hr_ClientHello (snd out) = Some ch" and "uint (ch_Timestamp ch) + (s2 - s1) < t2 + 60"
  shows "fst (AcceptClientHelloWithReplay C s1 s2 s3 msg lookup cache2 rnd2) \<in> {Inl ErrTimestamp, Inl ErrReplay}"
proof (cases "s2 < t2 + 180")
  case True
  with assms(4) show ?thesis
    by (intro replay_refused [OF assms(1-3)]) auto
next
  case False
  then have late: "absDiff (uint (ch_Timestamp ch)) s1 > 120"
    using assms(6) by (simp add: absDiff_def)
  show ?thesis
  proof (rule accept_again [OF assms(1)])
    fix ch' :: ClientHello and c1
    assume ch: "hr_ClientHello (snd out) = Some ch'" and c1: "cache1 = Some c1"
      and again: "\<And>s1 s2 s3 c2 rnd2. AcceptClientHelloWithReplay C s1 s2 s3 msg lookup (Some c2) rnd2 =
       (if absDiff (uint (ch_Timestamp ch')) s1 > 120 then (Inl ErrTimestamp, Some c2, rnd2)
        else case rc_mark s2 c2 (ch_UUID ch', ch_Nonce ch') of
          (False, c3) \<Rightarrow> (Inl ErrReplay, Some c3, rnd2)
        | (True, c3) \<Rightarrow> (case accept_respond C s3 (ch_UUID ch') ch' rnd2 of (res, rnd3) \<Rightarrow> (res, Some c3, rnd3)))"
    obtain c2 where "cache2 = Some c2"
      using accept_run_cache [OF assms(3) [unfolded c1], of "\<lambda>_. True"] by auto
    with late ch assms(5) again show ?thesis by simp
  qed
qed

theorem accepted_hello_refused_witness:
  "\<exists>msg out c1 rnd1. AcceptClientHelloWithReplay toy_crypto 1000 1000 1000 msg (MakeUUIDLookup toy_crypto [toy_uuid])
       (Some (NewReplayCache ReplayWindow)) (replicate 200 7) = (Inr out, c1, rnd1) \<and>
     fst (AcceptClientHelloWithReplay toy_crypto 1175 1185 1185 msg (MakeUUIDLookup toy_crypto [toy_uuid]) c1
       (replicate 200 7)) \<in> {Inl ErrTimestamp, Inl ErrReplay}"
proof -
  obtain msg out sres c' rnd3 ch where a: "AcceptClientHelloWithReplay toy_crypto 1000 1000 1000 msg (MakeUUIDLookup toy_crypto [toy_uuid])
       (Some (NewReplayCache ReplayWindow)) (replicate 200 7) = (Inr (out, sres), Some c', rnd3)"
    and h: "hr_ClientHello sres = Some ch" "ch_Timestamp ch = word_of_int 1030"
    by (rule toy_accept [of 1030 1000 1000 1000]) (simp_all add: absDiff_def)
  have "fst (AcceptClientHelloWithReplay toy_crypto 1175 1185 1185 msg (MakeUUIDLookup toy_crypto [toy_uuid]) (Some c')
       (replicate 200 7)) \<in> {Inl ErrTimestamp, Inl ErrReplay}"
    using h by (intro accepted_hello_refused [OF a, where ch = ch and calls = "[]" and rs = "[]"]) (simp_all add: NewReplayCache_def uint_u32)
  with a show ?thesis by blast
qed

text \<open>
  C36: The cache forgets a hello 180 seconds after accepting it, however long its timestamp stays
  valid: presented again at \<open>t2 + 180\<close> or later to the cache as the acceptance left it, a
  message that passes the remaining checks is accepted again, exactly as by a server with
  no replay cache. Timestamps pass for up to 240 seconds (120 on either side of the clock),
  so a hello with a timestamp 60 seconds or more ahead can be accepted twice.
\<close>
theorem hello_accepted_twice:
  assumes "AcceptClientHelloWithReplay C t1 t2 t3 msg lookup (Some c) rnd = (Inr out, cache1, rnd1)"
    and "rc_window c = ReplayWindow" and "t2 + 180 \<le> s2"
    and "AcceptClientHello C s1 s3 msg lookup rnd2 = (Inr out2, rnd3)"
  shows "\<exists>cache2. AcceptClientHelloWithReplay C s1 s2 s3 msg lookup cache1 rnd2 = (Inr out2, cache2, rnd3)"
proof (rule accept_again [OF assms(1)])
  fix ch :: ClientHello and c1
  let ?k = "(ch_UUID ch, ch_Nonce ch)"
  assume a: "rc_ok ?k" "rc_mark t2 c ?k = (True, c1)" "cache1 = Some c1"
    "\<And>s1 s2 s3 c2 rnd2. AcceptClientHelloWithReplay C s1 s2 s3 msg lookup (Some c2) rnd2 =
       (if absDiff (uint (ch_Timestamp ch)) s1 > 120 then (Inl ErrTimestamp, Some c2, rnd2)
        else case rc_mark s2 c2 ?k of
          (False, c3) \<Rightarrow> (Inl ErrReplay, Some c3, rnd2)
        | (True, c3) \<Rightarrow> (case accept_respond C s3 (ch_UUID ch) ch rnd2 of (res, rnd3) \<Rightarrow> (res, Some c3, rnd3)))"
    "\<And>s1 s3 rnd2. AcceptClientHello C s1 s3 msg lookup rnd2 =
       (if absDiff (uint (ch_Timestamp ch)) s1 > 120 then (Inl ErrTimestamp, rnd2)
        else accept_respond C s3 (ch_UUID ch) ch rnd2)"
  have "\<not> rc_live c1 s2 ?k"
    using rc_guard.admit [OF a(1), of c t2 s2] rc_guard.answer [of t2 c ?k] a(2) assms(3)
      rc_W_ReplayWindow [OF assms(2)] by simp
  then have "fst (rc_mark s2 c1 ?k)"
    using rc_guard.answer [of s2 c1 ?k] by simp
  then show ?thesis
    using a(3-5) assms(4) by (auto split: prod.splits bool.splits if_splits)
qed

theorem hello_accepted_twice_witness:
  "\<exists>msg out c1 rnd1 out2 c2 rnd2.
     AcceptClientHelloWithReplay toy_crypto 1000 1000 1000 msg (MakeUUIDLookup toy_crypto [toy_uuid])
       (Some (NewReplayCache ReplayWindow)) (replicate 200 7) = (Inr out, c1, rnd1) \<and>
     AcceptClientHelloWithReplay toy_crypto 1180 1180 1000 msg (MakeUUIDLookup toy_crypto [toy_uuid]) c1
       (replicate 200 7) = (Inr out2, c2, rnd2)"
proof -
  let ?L = "MakeUUIDLookup toy_crypto [toy_uuid]"
  obtain msg out sres c' rnd3 ch where a: "AcceptClientHelloWithReplay toy_crypto 1000 1000 1000 msg ?L
       (Some (NewReplayCache ReplayWindow)) (replicate 200 7) = (Inr (out, sres), Some c', rnd3)"
    and h: "hr_ClientHello sres = Some ch" "ch_Timestamp ch = word_of_int 1120"
    by (rule toy_accept [of 1120 1000 1000 1000]) (simp_all add: absDiff_def)
  have "AcceptClientHello toy_crypto 1180 1000 msg ?L (replicate 200 7) = (Inr (out, sres), rnd3)"
  proof (rule Accept_Inr [OF a])
    fix ch'
    assume "16 \<le> length msg"
      "?L (take (length msg - 16) msg) (drop (length msg - 16) msg) = Inr (ch_UUID ch')"
      "DecodeClientHello toy_crypto msg (ch_UUID ch') = Inr ch'"
      "ch_Command ch' = CommandTCP \<or> ch_Command ch' = CommandUDP"
      and r: "accept_respond toy_crypto 1000 (ch_UUID ch') ch' (replicate 200 7) = (Inr (out, sres), rnd3)"
    moreover from r h have "absDiff (uint (ch_Timestamp ch')) 1180 \<le> 120"
      by (auto elim!: accept_respond_Inr simp: absDiff_def)
    ultimately have "AcceptClientHelloWithReplay toy_crypto 1180 0 1000 msg ?L None (replicate 200 7) =
        (Inr (out, sres), None, rnd3)"
      by (intro Accept_intro [where ch = ch']) (simp_all add: accept_replay_def)
    then show ?thesis by (simp add: AcceptClientHello_def)
  qed
  from hello_accepted_twice [OF a _ _ this, of 1180] a show ?thesis
    by (auto simp: NewReplayCache_def) blast
qed

text \<open>
  \<^verbatim>\<open>MakeUUIDLookup\<close> returns the first configured UUID whose outer MAC over the message is the tag,
  and \<^verbatim>\<open>ErrUnknownUUID\<close> exactly when there is none.
\<close>
theorem uuid_lookup_first_match:
  "MakeUUIDLookup C us m tag =
     (case find (\<lambda>u. OuterMAC C u m = tag) us of Some u \<Rightarrow> Inr u | None \<Rightarrow> Inl ErrUnknownUUID)"
  by (induction us) (auto simp: VerifyOuterMAC_iff)

end
