(* ===== verification/Padding.thy ===== *)
theory Padding
  imports Frame
begin

text \<open>
  \<^verbatim>\<open>src/padding_policy.go\<close>: the choice of a pad length for a frame about to be sent. Go's
  \<^verbatim>\<open>int\<close> is \<open>int\<close>; the random source is threaded through.

  Shown: the pad is always one the frame encoder accepts and never pushes the frame past
  the limit; small frames always land on a bucket of the ladder; and where the clamp to
  \<^verbatim>\<open>MaxFramePad\<close> bites, the wire length follows the plaintext length one for one.
\<close>

section \<open>Operations\<close>

definition steadyBuckets :: "int list" where
  "steadyBuckets = [256, 512, 1024, 1500, 2048, 4096, 8192, 12288, 16384]"

definition handshakeBuckets :: "int list" where
  "handshakeBuckets = [1500, 4096, 8192, 16384]"

definition handshakePhaseFrames :: int where "handshakePhaseFrames = 16"
definition bucketUpProbBP :: int where "bucketUpProbBP = 4500"

declare handshakePhaseFrames_def [ewp_consts] bucketUpProbBP_def [ewp_consts]

definition secureRandIntn :: "int \<Rightarrow> bytes \<Rightarrow> int \<times> bytes" where
  "secureRandIntn n rnd =
     (if n \<le> 1 then (0, rnd)
      else case io_ReadFull 4 rnd of
        (Inl err, rnd') \<Rightarrow> (0, rnd')
      | (Inr b, rnd') \<Rightarrow> (rand31 b mod n, rnd'))"

text \<open>The search for the smallest bucket that holds the frame; \<open>-1\<close> if there is none.\<close>

fun bucket_idx :: "int \<Rightarrow> int list \<Rightarrow> int \<Rightarrow> int" where
  "bucket_idx rawWireLen [] i = -1"
| "bucket_idx rawWireLen (b # ladder) i =
     (if b \<ge> rawWireLen then i else bucket_idx rawWireLen ladder (i + 1))"

text \<open>The tail of \<^verbatim>\<open>padToBucket\<close>: from the target size to the pad length.\<close>

definition pad_to_target :: "int \<Rightarrow> int \<Rightarrow> int" where
  "pad_to_target rawWireLen target =
     (let maxWire = MaxFrameSize - 4;
          pad = target - rawWireLen;
          pad = (if pad < 0 then 0 else pad);
          pad = (if pad > MaxFramePad then MaxFramePad else pad) in
      if rawWireLen + pad > maxWire then
        let pad = maxWire - rawWireLen in if pad < 0 then 0 else pad
      else pad)"

definition padToBucket :: "int \<Rightarrow> int list \<Rightarrow> bytes \<Rightarrow> int \<times> bytes" where
  "padToBucket rawWireLen ladder rnd =
     (let maxWire = MaxFrameSize - 4;
          idx = bucket_idx rawWireLen ladder 0 in
      if idx = -1 then
        let t = go_div (rawWireLen + 1023) 1024 * 1024 in
        if t > maxWire then (0, rnd) else (pad_to_target rawWireLen t, rnd)
      else if idx + 1 < int (length ladder) then
        (case secureRandIntn 10000 rnd of (x, rnd') \<Rightarrow>
           if x < bucketUpProbBP then (pad_to_target rawWireLen (ladder ! nat (idx + 1)), rnd')
           else (pad_to_target rawWireLen (ladder ! nat idx), rnd'))
      else (pad_to_target rawWireLen (ladder ! nat idx), rnd))"

definition suggestStreamPad :: "int \<Rightarrow> int \<Rightarrow> bytes \<Rightarrow> int \<times> bytes" where
  "suggestStreamPad rawWireLen phaseFrameIndex rnd =
     (let ladder = (if phaseFrameIndex < handshakePhaseFrames then handshakeBuckets else steadyBuckets) in
      padToBucket rawWireLen ladder rnd)"

section \<open>Lemmas\<close>

lemma secureRandIntn_range: "0 < n \<Longrightarrow> 0 \<le> fst (secureRandIntn n rnd) \<and> fst (secureRandIntn n rnd) < n"
  by (auto simp: secureRandIntn_def split: prod.split sum.split)

lemma pad_to_target_bounds:
  "0 \<le> pad_to_target raw tgt \<and> pad_to_target raw tgt \<le> 4096 \<and>
   (raw \<le> 65532 \<longrightarrow> raw + pad_to_target raw tgt \<le> 65532)"
  by (auto simp: pad_to_target_def ewp_consts Let_def)

text \<open>A target within reach is hit; one out of reach gives the largest pad.\<close>

lemma pad_to_target_hit:
  "raw \<le> tgt \<Longrightarrow> tgt \<le> 65532 \<Longrightarrow>
     pad_to_target raw tgt = (if tgt - raw \<le> 4096 then tgt - raw else 4096)"
  by (auto simp: pad_to_target_def ewp_consts Let_def)

text \<open>The search: no bucket, or the first one that is large enough.\<close>

lemma bucket_idx_cases:
  obtains (none) "bucket_idx raw ladder i = -1" "\<forall>b \<in> set ladder. b < raw"
  | (some) k where "bucket_idx raw ladder i = i + int k" "k < length ladder" "raw \<le> ladder ! k"
      "\<forall>j < k. ladder ! j < raw"
proof (induction ladder arbitrary: i thesis)
  case Nil
  then show ?case by simp
next
  case (Cons b ladder)
  show ?case
  proof (cases "b \<ge> raw")
    case True
    then show ?thesis by (intro Cons.prems(2) [of 0]) auto
  next
    case False
    show ?thesis
    proof (rule Cons.IH [of "i + 1"])
      assume "bucket_idx raw ladder (i + 1) = -1" "\<forall>b \<in> set ladder. b < raw"
      with False show thesis by (intro Cons.prems(1)) auto
    next
      fix k assume "bucket_idx raw ladder (i + 1) = i + 1 + int k" "k < length ladder"
        "raw \<le> ladder ! k" "\<forall>j < k. ladder ! j < raw"
      with False show thesis
        by (intro Cons.prems(2) [of "Suc k"]) (auto simp: less_Suc_eq_0_disj)
    qed
  qed
qed

text \<open>Every answer of \<^verbatim>\<open>padToBucket\<close>, by the target it aims at.\<close>

lemma padToBucket_cases [case_names above bucket]:
  obtains (above) "\<forall>b \<in> set ladder. b < raw" "fst (padToBucket raw ladder rnd) =
      (let t = go_div (raw + 1023) 1024 * 1024 in if t > 65532 then 0 else pad_to_target raw t)"
  | (bucket) k j where "k < length ladder" "raw \<le> ladder ! k" "\<forall>i < k. ladder ! i < raw"
      "j \<in> {k, Suc k}" "j < length ladder" "fst (padToBucket raw ladder rnd) = pad_to_target raw (ladder ! j)"
proof (rule bucket_idx_cases [of raw ladder 0])
  assume "bucket_idx raw ladder 0 = -1" "\<forall>b \<in> set ladder. b < raw"
  then show thesis
    by (intro above) (simp_all add: padToBucket_def Let_def ewp_consts)
next
  fix k assume k: "bucket_idx raw ladder 0 = 0 + int k" "k < length ladder" "raw \<le> ladder ! k"
    "\<forall>j < k. ladder ! j < raw"
  have "\<exists>j \<in> {k, Suc k}. j < length ladder \<and>
      fst (padToBucket raw ladder rnd) = pad_to_target raw (ladder ! j)"
    using k(1,2)
    by (cases "Suc k < length ladder")
      (auto simp: padToBucket_def Let_def nat_add_distrib split: prod.split)
  with k bucket show thesis by blast
qed

lemma padToBucket_bounds:
  "0 \<le> fst (padToBucket raw ladder rnd) \<and> fst (padToBucket raw ladder rnd) \<le> 4096 \<and>
   (raw \<le> 65532 \<longrightarrow> raw + fst (padToBucket raw ladder rnd) \<le> 65532)"
  by (rule padToBucket_cases [of ladder raw rnd])
    (use pad_to_target_bounds [of raw] in \<open>auto simp: Let_def\<close>)

lemma stream_pad_range:
  "0 \<le> fst (suggestStreamPad raw idx rnd) \<and> fst (suggestStreamPad raw idx rnd) \<le> MaxFramePad \<and>
   (if raw \<le> 65532 then raw + fst (suggestStreamPad raw idx rnd) \<le> 65532
    else fst (suggestStreamPad raw idx rnd) = 0)"
proof -
  have above: "fst (padToBucket raw ladder rnd) = 0" if "65532 < raw" for ladder
  proof (rule padToBucket_cases [of ladder raw rnd])
    assume "fst (padToBucket raw ladder rnd) =
      (let t = go_div (raw + 1023) 1024 * 1024 in if t > 65532 then 0 else pad_to_target raw t)"
    moreover have "65532 < (raw + 1023) div 1024 * 1024"
      using that by linarith
    ultimately show ?thesis using that by (simp add: go_div_nonneg)
  next
    fix j assume "fst (padToBucket raw ladder rnd) = pad_to_target raw (ladder ! j)"
    with that show ?thesis by (auto simp: pad_to_target_def Let_def ewp_consts)
  qed
  show ?thesis
    using padToBucket_bounds [of raw _ rnd] above
    by (auto simp: suggestStreamPad_def Let_def MaxFramePad_def)
qed

section \<open>Properties\<close>

text \<open>
  C40: The pad chosen for a stream frame is always acceptable: between 0 and \<^verbatim>\<open>MaxFramePad\<close>, and
  a frame of at most 65532 bytes without padding is at most 65532 bytes with it, in either
  phase and whatever the random source does.
\<close>
theorem stream_pad_bounds:
  "0 \<le> fst (suggestStreamPad raw idx rnd) \<and> fst (suggestStreamPad raw idx rnd) \<le> MaxFramePad \<and>
   (if raw \<le> 65532 then raw + fst (suggestStreamPad raw idx rnd) \<le> 65532
    else fst (suggestStreamPad raw idx rnd) = 0)"
  by (rule stream_pad_range)

text \<open>
  Small frames land on the ladder. A frame whose unpadded size is at most 1500 bytes in the
  handshake phase, or at most 2048 bytes afterwards, goes out with a wire size that is one of
  two buckets, the smallest that holds it or the one above, whatever the random source does.
\<close>
theorem stream_pad_lands_on_bucket:
  assumes "0 \<le> raw" and "raw \<le> (if idx < handshakePhaseFrames then 1500 else 2048)"
    and "ladder = (if idx < handshakePhaseFrames then handshakeBuckets else steadyBuckets)"
  shows "\<exists>k. Suc k < length ladder \<and> raw \<le> ladder ! k \<and> (\<forall>i < k. ladder ! i < raw) \<and>
    raw + fst (suggestStreamPad raw idx rnd) \<in> {ladder ! k, ladder ! Suc k}"
proof (rule padToBucket_cases [of ladder raw rnd])
  assume "\<forall>b \<in> set ladder. b < raw"
  with assms show ?thesis by (simp add: handshakeBuckets_def steadyBuckets_def split: if_splits)
next
  fix k j assume k: "k < length ladder" "raw \<le> ladder ! k" "\<forall>i < k. ladder ! i < raw"
    and j: "j \<in> {k, Suc k}" "fst (padToBucket raw ladder rnd) = pad_to_target raw (ladder ! j)"
  have "k \<in> (if idx < handshakePhaseFrames then {0} else {0, 1, 2, 3, 4})"
  proof (cases "idx < handshakePhaseFrames")
    case True
    with k(3) assms(2,3) show ?thesis by (cases k) (auto simp: handshakeBuckets_def)
  next
    case False
    with k(3) assms(2,3) have "\<not> 4 < k"
      by (auto simp: steadyBuckets_def dest!: spec [of _ 4])
    with False show ?thesis by auto
  qed
  with j k assms have "pad_to_target raw (ladder ! j) = ladder ! j - raw" "Suc k < length ladder"
    by (auto simp: handshakeBuckets_def steadyBuckets_def pad_to_target_hit split: if_splits)
  with j k assms(3) show ?thesis
    by (intro exI [of _ k]) (auto simp: suggestStreamPad_def)
qed

theorem stream_pad_lands_on_bucket_witness:
  "\<exists>k. Suc k < length steadyBuckets \<and> 200 \<le> steadyBuckets ! k \<and> (\<forall>i < k. steadyBuckets ! i < 200) \<and>
    200 + fst (suggestStreamPad 200 20 [0, 0, 0, 1]) \<in> {steadyBuckets ! k, steadyBuckets ! Suc k}"
  using stream_pad_lands_on_bucket [of 200 20 steadyBuckets "[0, 0, 0, 1]"] by (simp add: handshakePhaseFrames_def)

text \<open>
  Where the clamp to \<^verbatim>\<open>MaxFramePad\<close> bites, bucketing is lost. In the handshake phase every
  frame with an unpadded size strictly between 8192 and 12288 bytes gets exactly 4096 bytes of
  padding, so its wire size is no bucket and determines the plaintext size exactly.
\<close>
theorem handshake_pad_clamped:
  assumes "8192 < raw" and "raw < 12288" and "idx < handshakePhaseFrames"
  shows "fst (suggestStreamPad raw idx rnd) = MaxFramePad \<and>
    raw + fst (suggestStreamPad raw idx rnd) \<notin> set handshakeBuckets"
proof -
  have "fst (padToBucket raw handshakeBuckets rnd) = 4096"
  proof (rule padToBucket_cases [of handshakeBuckets raw rnd])
    assume "\<forall>b \<in> set handshakeBuckets. b < raw"
    with assms show ?thesis by (simp add: handshakeBuckets_def)
  next
    fix k j assume k: "k < length handshakeBuckets" "raw \<le> handshakeBuckets ! k"
      and j: "j \<in> {k, Suc k}" "j < length handshakeBuckets"
        "fst (padToBucket raw handshakeBuckets rnd) = pad_to_target raw (handshakeBuckets ! j)"
    have "k = 3"
      using k assms(1) by (auto simp: handshakeBuckets_def less_Suc_eq)
    with j assms show ?thesis
      by (auto simp: handshakeBuckets_def pad_to_target_hit)
  qed
  with assms show ?thesis
    by (simp add: suggestStreamPad_def MaxFramePad_def handshakeBuckets_def)
qed

theorem handshake_pad_clamped_witness:
  "fst (suggestStreamPad 9000 0 []) = MaxFramePad \<and> 9000 + fst (suggestStreamPad 9000 0 []) \<notin> set handshakeBuckets"
  by (rule handshake_pad_clamped) (simp_all add: handshakePhaseFrames_def)

end
