(* ===== verification/Transport.thy ===== *)
theory Transport
  imports Kdf "HOL-Library.Extended_Nat"
begin

text \<open>
  The connection under a session: \<^verbatim>\<open>net.Conn\<close> as the package uses it, deadlines included; the
  interface \<^verbatim>\<open>MessageTransport\<close> of \<^verbatim>\<open>src/securestream.go\<close> as a record of its methods, with
  \<^verbatim>\<open>SetDeadline\<close> where the transport has it (\<^verbatim>\<open>deadlineSetter\<close>); and \<^verbatim>\<open>LengthFramer\<close> of
  \<^verbatim>\<open>src/client.go\<close>, which implements the one on the other; its scratch buffer is in \<open>Buffers\<close>.

  \<open>message_transport\<close> is the contract the session layer relies on: a message is sent
  whole or not at all as far as the peer can tell, and what was sent is read back, message
  by message and in order. \<open>deadline_transport\<close> adds what the handshakes rely on: no call
  outlasts the deadline in force. \<open>lf\<close> and \<open>lfd\<close> interpret them on \<^verbatim>\<open>LengthFramer\<close>.
\<close>

section \<open>Connections\<close>

text \<open>
  \<^verbatim>\<open>*net.UDPAddr\<close> and \<^verbatim>\<open>*net.TCPAddr\<close> with IP, port and zone, \<^verbatim>\<open>FqdnAddr\<close>, and a value of
  any other type.
\<close>

datatype net_Addr =
    UDPAddr bytes int string
  | TCPAddr bytes int string
  | FqdnAddr bytes u16
  | OtherAddr

text \<open>
  One end of a byte stream: the bytes on their way in; all bytes written so far; how many
  more the connection will take before a write fails; whether this end was closed; and
  whether the peer stays silent after its last byte instead of closing. A failing write may
  have written a prefix. Closing twice is an error, as it is for TCP and TLS connections.
  The bytes on their way in are a finite list: a peer that never stops sending is a transport
  of its own, and what \<open>Conn\<close> and \<open>Packet\<close> show of reading loops holds for every transport.

  Time is a number of nanoseconds, \<open>\<infinity>\<close> for never. \<open>nc_clock\<close> is when the last call
  returned, and \<open>nc_times\<close> the times before which the next reads and writes cannot complete
  (the network and the peer are slow; no entry means no delay). The two deadlines are
  absolute times, \<open>\<infinity>\<close> for none, which is what the zero \<^verbatim>\<open>time.Time\<close> sets.
\<close>

record net_conn =
  nc_in :: bytes
  nc_out :: bytes
  nc_room :: nat
  nc_closed :: bool
  nc_silent :: bool
  nc_times :: "nat list"
  nc_clock :: enat
  nc_rdl :: enat
  nc_wdl :: enat
  nc_laddr :: "net_Addr option"
  nc_raddr :: "net_Addr option"

text \<open>
  A connection without delays: the \<open>b\<close> that comes in, then end of file, and \<open>room\<close> bytes to
  write.
\<close>

abbreviation prompt_conn :: "bytes \<Rightarrow> nat \<Rightarrow> net_conn" where
  "prompt_conn b room \<equiv> \<lparr>nc_in = b, nc_out = [], nc_room = room, nc_closed = False, nc_silent = False, nc_times = [],
     nc_clock = 0, nc_rdl = \<infinity>, nc_wdl = \<infinity>, nc_laddr = None, nc_raddr = None\<rparr>"

text \<open>
  A call waits until it can complete or until the deadline, whichever comes first; with the
  deadline past it fails at once. A write that fails at its deadline writes nothing here; Go's
  may have written a prefix. Its caller closes the session in either case.
\<close>

definition conn_wait :: "enat \<Rightarrow> net_conn \<Rightarrow> bool \<times> net_conn" where
  "conn_wait dl c =
     (let due = (case nc_times c of [] \<Rightarrow> nc_clock c | t # _ \<Rightarrow> max (nc_clock c) (enat t)) in
      if due \<le> dl then (True, c\<lparr>nc_clock := due, nc_times := tl (nc_times c)\<rparr>)
      else (False, c\<lparr>nc_clock := max (nc_clock c) dl\<rparr>))"

definition conn_Write :: "net_conn \<Rightarrow> bytes \<Rightarrow> ewp_error option \<times> net_conn" where
  "conn_Write c b =
     (if nc_closed c then (Some ErrClosedConn, c)
      else case conn_wait (nc_wdl c) c of
        (False, c) \<Rightarrow> (Some ErrDeadlineExceeded, c)
      | (True, c) \<Rightarrow>
          if length b \<le> nc_room c then (None, c\<lparr>nc_out := nc_out c @ b, nc_room := nc_room c - length b\<rparr>)
          else (Some ErrConnWrite, c\<lparr>nc_out := nc_out c @ take (nc_room c) b, nc_room := 0\<rparr>))"

text \<open>
  \<^verbatim>\<open>io.ReadFull(conn, buf)\<close>: it does not call \<^verbatim>\<open>Read\<close> at all for an empty buffer. If the bytes
  do not suffice and the peer is silent, it waits for the deadline; without one it does not
  return, which is the clock at \<open>\<infinity>\<close>.
\<close>

definition conn_ReadFull :: "nat \<Rightarrow> net_conn \<Rightarrow> (ewp_error + bytes) \<times> net_conn" where
  "conn_ReadFull n c =
     (if n = 0 then (Inr [], c)
      else if nc_closed c then (Inl ErrClosedConn, c)
      else case conn_wait (nc_rdl c) c of
        (False, c) \<Rightarrow> (Inl ErrDeadlineExceeded, c)
      | (True, c) \<Rightarrow>
        (case io_ReadFull n (nc_in c) of
           (Inr b, rest) \<Rightarrow> (Inr b, c\<lparr>nc_in := rest\<rparr>)
         | (Inl err, rest) \<Rightarrow>
             if nc_silent c then
               (Inl ErrDeadlineExceeded, c\<lparr>nc_in := rest, nc_clock := max (nc_clock c) (nc_rdl c)\<rparr>)
             else (Inl err, c\<lparr>nc_in := rest\<rparr>)))"

definition conn_Close :: "net_conn \<Rightarrow> ewp_error option \<times> net_conn" where
  "conn_Close c = (if nc_closed c then (Some ErrClosedConn, c) else (None, c\<lparr>nc_closed := True\<rparr>))"

definition conn_SetDeadline :: "enat \<Rightarrow> net_conn \<Rightarrow> ewp_error option \<times> net_conn" where
  "conn_SetDeadline t c =
     (if nc_closed c then (Some ErrClosedConn, c) else (None, c\<lparr>nc_rdl := t, nc_wdl := t\<rparr>))"

definition conn_SetReadDeadline :: "enat \<Rightarrow> net_conn \<Rightarrow> ewp_error option \<times> net_conn" where
  "conn_SetReadDeadline t c = (if nc_closed c then (Some ErrClosedConn, c) else (None, c\<lparr>nc_rdl := t\<rparr>))"

definition conn_SetWriteDeadline :: "enat \<Rightarrow> net_conn \<Rightarrow> ewp_error option \<times> net_conn" where
  "conn_SetWriteDeadline t c = (if nc_closed c then (Some ErrClosedConn, c) else (None, c\<lparr>nc_wdl := t\<rparr>))"

text \<open>
  \<open>conn_on_time dl c\<close>: everything the connection still waits for comes before \<open>dl\<close>.
  \<open>conn_ready c\<close>: the connection is open and nothing will time out; an open connection
  without deadlines is ready.
\<close>

definition conn_on_time :: "enat \<Rightarrow> net_conn \<Rightarrow> bool" where
  "conn_on_time dl c \<longleftrightarrow> nc_clock c \<le> dl \<and> list_all (\<lambda>t. enat t \<le> dl) (nc_times c)"

definition conn_ready :: "net_conn \<Rightarrow> bool" where
  "conn_ready c \<longleftrightarrow> \<not> nc_closed c \<and> conn_on_time (nc_rdl c) c \<and> conn_on_time (nc_wdl c) c"

lemma conn_on_time_infinity [simp]: "conn_on_time \<infinity> c"
  by (simp add: conn_on_time_def list_all_iff)

lemma conn_ready_prompt [simp]: "conn_ready (prompt_conn b room)"
  by (simp add: conn_ready_def)

lemma conn_wait_facts:
  assumes "conn_wait dl c = (ok, c')"
  shows "c' = c\<lparr>nc_clock := nc_clock c', nc_times := nc_times c'\<rparr>"
    and "nc_clock c \<le> nc_clock c'" and "nc_clock c' \<le> max (nc_clock c) dl"
    and "conn_on_time dl' c' = conn_on_time dl' c" and "conn_on_time dl c \<Longrightarrow> ok"
  using assms
  by (auto simp: conn_wait_def conn_on_time_def Let_def max_def split: if_splits list.splits)

lemma conn_on_time_more [simp]:
  "conn_on_time dl (c\<lparr>nc_in := i\<rparr>) = conn_on_time dl c"
  "conn_on_time dl (c\<lparr>nc_out := i\<rparr>) = conn_on_time dl c"
  "conn_on_time dl (c\<lparr>nc_room := r\<rparr>) = conn_on_time dl c"
  "conn_on_time dl (c\<lparr>nc_closed := b\<rparr>) = conn_on_time dl c"
  "conn_on_time dl (c\<lparr>nc_rdl := d\<rparr>) = conn_on_time dl c"
  "conn_on_time dl (c\<lparr>nc_wdl := d\<rparr>) = conn_on_time dl c"
  by (simp_all add: conn_on_time_def)

text \<open>What a write and a read do to the rest of the connection.\<close>

definition conn_same :: "net_conn \<Rightarrow> net_conn \<Rightarrow> bool" where
  "conn_same c c' \<longleftrightarrow> nc_closed c' = nc_closed c \<and> nc_rdl c' = nc_rdl c \<and> nc_wdl c' = nc_wdl c \<and>
     nc_silent c' = nc_silent c \<and> nc_laddr c' = nc_laddr c \<and> nc_raddr c' = nc_raddr c \<and> nc_clock c \<le> nc_clock c'"

lemma conn_same_refl [simp]: "conn_same c c"
  by (simp add: conn_same_def)

lemma conn_same_trans: "conn_same a b \<Longrightarrow> conn_same b c \<Longrightarrow> conn_same a c"
  by (auto simp: conn_same_def)

lemma conn_wait_same:
  assumes "conn_wait dl c = (ok, c')"
  shows "conn_same c c' \<and> nc_in c' = nc_in c \<and> nc_out c' = nc_out c \<and> nc_room c' = nc_room c \<and> nc_silent c' = nc_silent c"
  using assms by (auto simp: conn_wait_def conn_same_def Let_def max_def split: if_splits list.splits)

lemma conn_Write_cases:
  assumes "conn_Write c b = (res, c')"
  obtains (closed) "nc_closed c" "res = Some ErrClosedConn" "c' = c"
  | (late) "\<not> nc_closed c" "conn_wait (nc_wdl c) c = (False, c')" "res = Some ErrDeadlineExceeded"
  | (full) c1 where "\<not> nc_closed c" "conn_wait (nc_wdl c) c = (True, c1)" "nc_room c < length b" "res = Some ErrConnWrite"
      "c' = c1\<lparr>nc_out := nc_out c @ take (nc_room c) b, nc_room := 0\<rparr>"
  | (complete) c1 where "\<not> nc_closed c" "conn_wait (nc_wdl c) c = (True, c1)" "length b \<le> nc_room c" "res = None"
      "c' = c1\<lparr>nc_out := nc_out c @ b, nc_room := nc_room c - length b\<rparr>"
proof -
  obtain ok c1 where w: "conn_wait (nc_wdl c) c = (ok, c1)" by (metis prod.exhaust)
  note s = conn_wait_same [OF w]
  consider "nc_closed c" | "\<not> nc_closed c" "\<not> ok" | "\<not> nc_closed c" "ok" "length b \<le> nc_room c" | "\<not> nc_closed c" "ok" "nc_room c < length b"
    by linarith
  then show thesis
  proof cases
    case 1
    with assms show thesis by (intro closed) (simp_all add: conn_Write_def)
  next
    case 2
    with assms w show thesis by (intro late) (simp_all add: conn_Write_def)
  next
    case 3
    with assms w s show thesis by (intro complete [of c1]) (simp_all add: conn_Write_def)
  next
    case 4
    with assms w s show thesis by (intro full [of c1]) (simp_all add: conn_Write_def)
  qed
qed

lemma conn_Write_facts:
  assumes "conn_Write c b = (res, c')"
  shows "conn_same c c'" and "nc_in c' = nc_in c" and "\<exists>w. nc_out c' = nc_out c @ w"
    and "res = None \<Longrightarrow> nc_out c' = nc_out c @ b \<and> nc_room c' = nc_room c - length b \<and> \<not> nc_closed c"
    and "conn_on_time dl c' = conn_on_time dl c" and "nc_clock c' \<le> max (nc_clock c) (nc_wdl c)"
    and "conn_ready c \<Longrightarrow> length b \<le> nc_room c \<Longrightarrow> res = None"
proof -
  have k: "conn_same c c' \<and> nc_in c' = nc_in c \<and> (\<exists>w. nc_out c' = nc_out c @ w) \<and>
      conn_on_time dl c' = conn_on_time dl c \<and> nc_clock c' \<le> max (nc_clock c) (nc_wdl c)"
    using assms
  proof (cases rule: conn_Write_cases)
    case late
    with conn_wait_same [OF late(2)] conn_wait_facts(3,4) [OF late(2)] show ?thesis by simp
  next
    case (full c1)
    with conn_wait_same [OF full(2)] conn_wait_facts(3,4) [OF full(2)] show ?thesis by (simp add: conn_same_def)
  next
    case (complete c1)
    with conn_wait_same [OF complete(2)] conn_wait_facts(3,4) [OF complete(2)] show ?thesis by (simp add: conn_same_def)
  qed simp
  then show "conn_same c c'" "nc_in c' = nc_in c" "\<exists>w. nc_out c' = nc_out c @ w"
    "conn_on_time dl c' = conn_on_time dl c" "nc_clock c' \<le> max (nc_clock c) (nc_wdl c)"
    by blast+
  show "res = None \<Longrightarrow> nc_out c' = nc_out c @ b \<and> nc_room c' = nc_room c - length b \<and> \<not> nc_closed c"
    using assms by (cases rule: conn_Write_cases) simp_all
  show "conn_ready c \<Longrightarrow> length b \<le> nc_room c \<Longrightarrow> res = None"
    using assms by (cases rule: conn_Write_cases) (auto simp: conn_ready_def dest: conn_wait_facts(5))
qed

lemma conn_ReadFull_cases:
  assumes "conn_ReadFull n c = (res, c')"
  obtains (empty) "n = 0" "res = Inr []" "c' = c"
  | (closed) "0 < n" "nc_closed c" "res = Inl ErrClosedConn" "c' = c"
  | (late) "0 < n" "\<not> nc_closed c" "conn_wait (nc_rdl c) c = (False, c')" "res = Inl ErrDeadlineExceeded"
  | (short) c1 err rest where "0 < n" "\<not> nc_closed c" "conn_wait (nc_rdl c) c = (True, c1)" "length (nc_in c) < n" "res = Inl err"
      "c' = c1\<lparr>nc_in := rest, nc_clock := (if nc_silent c then max (nc_clock c1) (nc_rdl c) else nc_clock c1)\<rparr>"
  | (complete) c1 where "0 < n" "\<not> nc_closed c" "conn_wait (nc_rdl c) c = (True, c1)" "n \<le> length (nc_in c)" "res = Inr (take n (nc_in c))"
      "c' = c1\<lparr>nc_in := drop n (nc_in c)\<rparr>"
proof -
  obtain ok c1 where w: "conn_wait (nc_rdl c) c = (ok, c1)" by (metis prod.exhaust)
  note s = conn_wait_same [OF w, unfolded conn_same_def]
  consider "n = 0" | "0 < n" "nc_closed c" | "0 < n" "\<not> nc_closed c" "\<not> ok"
    | "0 < n" "\<not> nc_closed c" "ok" "n \<le> length (nc_in c)" | "0 < n" "\<not> nc_closed c" "ok" "length (nc_in c) < n"
    by linarith
  then show thesis
  proof cases
    case 1
    with assms show thesis by (intro empty) (simp_all add: conn_ReadFull_def)
  next
    case 2
    with assms show thesis by (intro closed) (simp_all add: conn_ReadFull_def)
  next
    case 3
    with assms w show thesis by (intro late) (simp_all add: conn_ReadFull_def)
  next
    case 4
    with assms w s show thesis by (intro complete [of c1]) (simp_all add: conn_ReadFull_def io_ReadFull_def)
  next
    case 5
    with assms w s show thesis
      by (intro short [of c1 "if nc_silent c then ErrDeadlineExceeded else if nc_in c = [] then EOF else ErrUnexpectedEOF" "[]"])
        (auto simp: conn_ReadFull_def io_ReadFull_def split: if_splits)
  qed
qed

lemma conn_ReadFull_facts:
  assumes "conn_ReadFull n c = (res, c')"
  shows "conn_same c c'" and "nc_out c' = nc_out c" and "nc_room c' = nc_room c"
    and "conn_on_time dl c' \<Longrightarrow> conn_on_time dl c" and "nc_clock c' \<le> max (nc_clock c) (nc_rdl c)"
    and "res = Inr b \<Longrightarrow> n = length b \<and> nc_in c = b @ nc_in c' \<and> (n = 0 \<or> \<not> nc_closed c)"
    and "res = Inr b \<Longrightarrow> conn_on_time dl c' = conn_on_time dl c"
    and "conn_ready c \<Longrightarrow> n \<le> length (nc_in c) \<Longrightarrow> res = Inr (take n (nc_in c))"
proof -
  have k: "conn_same c c' \<and> nc_out c' = nc_out c \<and> nc_room c' = nc_room c \<and>
      (conn_on_time dl c' \<longrightarrow> conn_on_time dl c) \<and> nc_clock c' \<le> max (nc_clock c) (nc_rdl c) \<and>
      (res = Inr b \<longrightarrow> conn_on_time dl c' = conn_on_time dl c)"
    using assms
  proof (cases rule: conn_ReadFull_cases)
    case late
    with conn_wait_same [OF late(3)] conn_wait_facts(3,4) [OF late(3)] show ?thesis by simp
  next
    case (short c1 err rest)
    note f = conn_wait_facts [OF short(3)] conn_wait_same [OF short(3)]
    have "conn_on_time dl c' \<Longrightarrow> conn_on_time dl c"
      using short(6) f(4) [of dl] by (simp add: conn_on_time_def split: if_splits)
    moreover have "max (nc_clock c1) (nc_rdl c) \<le> max (nc_clock c) (nc_rdl c)"
      using f(3) by simp
    moreover have "nc_clock c \<le> max (nc_clock c1) (nc_rdl c)"
      using f(2) by (simp add: le_max_iff_disj)
    ultimately show ?thesis
      using short f(2,3,6) by (simp add: conn_same_def del: max_less_iff_conj)
  next
    case (complete c1)
    with conn_wait_same [OF complete(3)] conn_wait_facts(3,4) [OF complete(3)] show ?thesis by (simp add: conn_same_def)
  qed simp_all
  then show "conn_same c c'" "nc_out c' = nc_out c" "nc_room c' = nc_room c" "conn_on_time dl c' \<Longrightarrow> conn_on_time dl c"
    "nc_clock c' \<le> max (nc_clock c) (nc_rdl c)" "res = Inr b \<Longrightarrow> conn_on_time dl c' = conn_on_time dl c"
    by blast+
  show "res = Inr b \<Longrightarrow> n = length b \<and> nc_in c = b @ nc_in c' \<and> (n = 0 \<or> \<not> nc_closed c)"
    using assms by (cases rule: conn_ReadFull_cases) auto
  show "conn_ready c \<Longrightarrow> n \<le> length (nc_in c) \<Longrightarrow> res = Inr (take n (nc_in c))"
    using assms by (cases rule: conn_ReadFull_cases) (auto simp: conn_ready_def dest: conn_wait_facts(5))
qed

section \<open>Message transports\<close>

text \<open>
  \<open>tr_SetDeadline\<close> is \<open>None\<close> for a transport that does not implement \<^verbatim>\<open>deadlineSetter\<close>, so
  that the type assertion \<^verbatim>\<open>tr.(deadlineSetter)\<close> of the source is a case distinction.
\<close>

record 't transport =
  tr_SendMessage :: "'t \<Rightarrow> bytes \<Rightarrow> ewp_error option \<times> 't"
  tr_ReadMessage :: "'t \<Rightarrow> (ewp_error + bytes) \<times> 't"
  tr_Close :: "'t \<Rightarrow> ewp_error option \<times> 't"
  tr_SetDeadline :: "(enat \<Rightarrow> 't \<Rightarrow> ewp_error option \<times> 't) option"

record LengthFramer =
  lf_c :: net_conn

definition NewLengthFramer :: "net_conn \<Rightarrow> LengthFramer" where
  "NewLengthFramer c = \<lparr>lf_c = c\<rparr>"

definition LengthFramer_SendMessage :: "LengthFramer \<Rightarrow> bytes \<Rightarrow> ewp_error option \<times> LengthFramer" where
  "LengthFramer_SendMessage f msg =
     (if int (length msg) > MaxFrameSize then (Some ErrFrameTooLarge, f)
      else
        let hdr = put_be 4 (word_of_nat (length msg) :: u32) in
        case conn_Write (lf_c f) hdr of
          (Some err, c) \<Rightarrow> (Some err, f\<lparr>lf_c := c\<rparr>)
        | (None, c) \<Rightarrow>
          (case conn_Write c msg of
             (Some err, c) \<Rightarrow> (Some err, f\<lparr>lf_c := c\<rparr>)
           | (None, c) \<Rightarrow> (None, f\<lparr>lf_c := c\<rparr>)))"

definition LengthFramer_ReadMessage :: "LengthFramer \<Rightarrow> (ewp_error + bytes) \<times> LengthFramer" where
  "LengthFramer_ReadMessage f =
     (case conn_ReadFull 4 (lf_c f) of
        (Inl err, c) \<Rightarrow> (Inl err, f\<lparr>lf_c := c\<rparr>)
      | (Inr hdr, c) \<Rightarrow>
        let n = (get_be hdr :: u32) in
        if uint n > MaxFrameSize then (Inl ErrFrameTooLarge, f\<lparr>lf_c := c\<rparr>)
        else
          (case conn_ReadFull (unat n) c of
             (Inl err, c) \<Rightarrow> (Inl err, f\<lparr>lf_c := c\<rparr>)
           | (Inr out, c) \<Rightarrow> (Inr out, f\<lparr>lf_c := c\<rparr>)))"

definition LengthFramer_Close :: "LengthFramer \<Rightarrow> ewp_error option \<times> LengthFramer" where
  "LengthFramer_Close f = (case conn_Close (lf_c f) of (err, c) \<Rightarrow> (err, f\<lparr>lf_c := c\<rparr>))"

definition LengthFramer_SetDeadline :: "enat \<Rightarrow> LengthFramer \<Rightarrow> ewp_error option \<times> LengthFramer" where
  "LengthFramer_SetDeadline t f = (case conn_SetDeadline t (lf_c f) of (err, c) \<Rightarrow> (err, f\<lparr>lf_c := c\<rparr>))"

definition lf_transport :: "LengthFramer transport" where
  "lf_transport =
     \<lparr>tr_SendMessage = LengthFramer_SendMessage,
      tr_ReadMessage = LengthFramer_ReadMessage,
      tr_Close = LengthFramer_Close,
      tr_SetDeadline = Some LengthFramer_SetDeadline\<rparr>"

text \<open>
  The field \<^verbatim>\<open>underlying\<close> of the connections handed to the application is a \<^verbatim>\<open>net.Conn\<close>: the
  methods of it that are called there, acting on the state of the transport. For \<^verbatim>\<open>LengthFramer\<close>
  they are the methods of the connection inside it.
\<close>

record 't net_methods =
  nm_Close :: "'t \<Rightarrow> ewp_error option \<times> 't"
  nm_LocalAddr :: "'t \<Rightarrow> net_Addr option"
  nm_RemoteAddr :: "'t \<Rightarrow> net_Addr option"
  nm_SetDeadline :: "enat \<Rightarrow> 't \<Rightarrow> ewp_error option \<times> 't"
  nm_SetReadDeadline :: "enat \<Rightarrow> 't \<Rightarrow> ewp_error option \<times> 't"
  nm_SetWriteDeadline :: "enat \<Rightarrow> 't \<Rightarrow> ewp_error option \<times> 't"

definition on_conn :: "(net_conn \<Rightarrow> ewp_error option \<times> net_conn) \<Rightarrow> LengthFramer \<Rightarrow> ewp_error option \<times> LengthFramer" where
  "on_conn op f = (case op (lf_c f) of (err, c) \<Rightarrow> (err, f\<lparr>lf_c := c\<rparr>))"

definition lf_underlying :: "LengthFramer net_methods" where
  "lf_underlying =
     \<lparr>nm_Close = on_conn conn_Close,
      nm_LocalAddr = (\<lambda>f. nc_laddr (lf_c f)),
      nm_RemoteAddr = (\<lambda>f. nc_raddr (lf_c f)),
      nm_SetDeadline = (\<lambda>t. on_conn (conn_SetDeadline t)),
      nm_SetReadDeadline = (\<lambda>t. on_conn (conn_SetReadDeadline t)),
      nm_SetWriteDeadline = (\<lambda>t. on_conn (conn_SetWriteDeadline t))\<rparr>"

section \<open>The contract\<close>

text \<open>Sending messages until one fails, and reading a number of messages until one fails.\<close>

fun send_all :: "'t transport \<Rightarrow> 't \<Rightarrow> bytes list \<Rightarrow> ewp_error option \<times> 't" where
  "send_all T t [] = (None, t)"
| "send_all T t (m # ms) =
     (case tr_SendMessage T t m of (Some e, t') \<Rightarrow> (Some e, t') | (None, t') \<Rightarrow> send_all T t' ms)"

fun read_all :: "'t transport \<Rightarrow> nat \<Rightarrow> 't \<Rightarrow> (ewp_error + bytes list) \<times> 't" where
  "read_all T 0 t = (Inr [], t)"
| "read_all T (Suc n) t =
     (case tr_ReadMessage T t of
        (Inl e, t') \<Rightarrow> (Inl e, t')
      | (Inr m, t') \<Rightarrow> (case read_all T n t' of (Inl e, t'') \<Rightarrow> (Inl e, t'') | (Inr ms, t'') \<Rightarrow> (Inr (m # ms), t'')))"

text \<open>
  \<open>outp\<close> and \<open>inp\<close> are what has gone out and what is coming in, in whatever units the
  transport has (bytes for \<^verbatim>\<open>LengthFramer\<close>), \<open>enc\<close> what a message becomes, \<open>okm\<close> the
  messages it carries; \<open>opn\<close> says that reading works (it is open and nothing will time out),
  \<open>shut\<close> that it was closed.
\<close>

locale message_transport =
  fixes T :: "'t transport"
    and okm :: "bytes \<Rightarrow> bool"
    and enc :: "bytes \<Rightarrow> 'w list"
    and outp :: "'t \<Rightarrow> 'w list"
    and inp :: "'t \<Rightarrow> 'w list"
    and opn :: "'t \<Rightarrow> bool"
    and shut :: "'t \<Rightarrow> bool"
  assumes enc_nonempty: "enc m \<noteq> []"
    and shut_opn: "shut t \<Longrightarrow> \<not> opn t"
    and send_ok: "tr_SendMessage T t m = (None, t') \<Longrightarrow>
      okm m \<and> opn t' = opn t \<and> \<not> shut t \<and> \<not> shut t' \<and> outp t' = outp t @ enc m \<and> inp t' = inp t"
    and send_err: "tr_SendMessage T t m = (Some e, t') \<Longrightarrow>
      opn t' = opn t \<and> shut t' = shut t \<and> inp t' = inp t \<and> (\<exists>w. outp t' = outp t @ w)"
    and read_ok: "opn t \<Longrightarrow> okm m \<Longrightarrow> inp t = enc m @ rest \<Longrightarrow>
      \<exists>t'. tr_ReadMessage T t = (Inr m, t') \<and> opn t' \<and> inp t' = rest \<and> outp t' = outp t"
    and read_sound: "tr_ReadMessage T t = (Inr m, t') \<Longrightarrow>
      okm m \<and> opn t' = opn t \<and> \<not> shut t \<and> \<not> shut t' \<and> inp t = enc m @ inp t' \<and> outp t' = outp t"
    and read_err: "tr_ReadMessage T t = (Inl e, t') \<Longrightarrow> shut t' = shut t \<and> outp t' = outp t"
    and close_shuts: "tr_Close T t = (res, t') \<Longrightarrow> shut t' \<and> outp t' = outp t"
begin

lemma send_all_out:
  "send_all T t ms = (None, t') \<Longrightarrow>
     list_all okm ms \<and> outp t' = outp t @ concat (map enc ms) \<and> inp t' = inp t"
proof (induction ms arbitrary: t)
  case (Cons m ms)
  then obtain t1 where "tr_SendMessage T t m = (None, t1)" "send_all T t1 ms = (None, t')"
    by (auto split: prod.splits option.splits)
  with Cons.IH [of t1] send_ok [of t m t1] show ?case by simp
qed simp

lemma read_all_in:
  assumes "opn t" and "list_all okm ms" and "inp t = concat (map enc ms) @ rest"
  shows "\<exists>t'. read_all T (length ms) t = (Inr ms, t') \<and> opn t' \<and> inp t' = rest \<and> outp t' = outp t"
  using assms
proof (induction ms arbitrary: t)
  case (Cons m ms)
  then obtain t1 where t1: "tr_ReadMessage T t = (Inr m, t1)" "opn t1"
    "inp t1 = concat (map enc ms) @ rest" "outp t1 = outp t"
    using read_ok [of t m "concat (map enc ms) @ rest"] by auto
  with Cons.IH [of t1] Cons.prems(2) show ?case by auto
qed simp

text \<open>First in, first out: the peer reads back the messages that were sent, in order.\<close>

lemma fifo:
  assumes "send_all T t ms = (None, t')" and "outp t' = outp t @ w" and "opn r" and "inp r = w @ rest"
  shows "\<exists>r'. read_all T (length ms) r = (Inr ms, r') \<and> inp r' = rest"
  using send_all_out [OF assms(1)] read_all_in [OF assms(3), of ms rest] assms(2,4) by auto

text \<open>Every message read uses up input, so a reader cannot go on for ever.\<close>

lemma read_shrinks: "tr_ReadMessage T t = (Inr m, t') \<Longrightarrow> length (inp t') < length (inp t)"
  using read_sound [of t m t'] enc_nonempty [of m] by simp

end

text \<open>
  A transport with deadlines. \<open>clock t\<close> is the time when the last call returned and
  \<open>limit t\<close> the deadline in force.
\<close>

locale deadline_transport = message_transport +
  fixes setdl :: "enat \<Rightarrow> 't \<Rightarrow> ewp_error option \<times> 't"
    and clock :: "'t \<Rightarrow> enat"
    and limit :: "'t \<Rightarrow> enat"
  assumes has_setdl: "tr_SetDeadline T = Some setdl"
    and set_keeps: "setdl d t = (e, t') \<Longrightarrow>
      shut t' = shut t \<and> clock t' = clock t \<and> outp t' = outp t \<and> inp t' = inp t"
    and set_limit: "setdl d t = (e, t') \<Longrightarrow> \<not> shut t \<Longrightarrow> limit t' = d"
    and clear_opens: "setdl \<infinity> t = (e, t') \<Longrightarrow> \<not> shut t \<Longrightarrow> opn t'"
    and send_in_time: "tr_SendMessage T t m = (r, t') \<Longrightarrow> limit t' = limit t \<and> clock t' \<le> max (clock t) (limit t)"
    and read_in_time: "tr_ReadMessage T t = (r', t') \<Longrightarrow> limit t' = limit t \<and> clock t' \<le> max (clock t) (limit t)"
    and close_in_time: "tr_Close T t = (r, t') \<Longrightarrow> clock t' = clock t"
begin

text \<open>Within a bound that covers the clock and the deadline, every call stays.\<close>

definition bounded_by :: "enat \<Rightarrow> 't \<Rightarrow> bool" where
  "bounded_by d t \<longleftrightarrow> clock t \<le> d \<and> limit t \<le> d"

lemma within_send: "bounded_by d t \<Longrightarrow> tr_SendMessage T t m = (r, t') \<Longrightarrow> bounded_by d t'"
  using send_in_time [of t m r t'] by (auto simp: bounded_by_def intro: order_trans)

lemma within_read: "bounded_by d t \<Longrightarrow> tr_ReadMessage T t = (r', t') \<Longrightarrow> bounded_by d t'"
  using read_in_time [of t r' t'] by (auto simp: bounded_by_def intro: order_trans)

lemma within_set: "clock t \<le> d \<Longrightarrow> \<not> shut t \<Longrightarrow> setdl d t = (e, t') \<Longrightarrow> bounded_by d t'"
  using set_keeps [of d t e t'] set_limit [of d t e t'] by (simp add: bounded_by_def)

lemma within_close: "bounded_by d t \<Longrightarrow> tr_Close T t = (r, t') \<Longrightarrow> clock t' \<le> d"
  using close_in_time [of t r t'] by (simp add: bounded_by_def)

end

section \<open>LengthFramer meets the contract\<close>

definition lf_ok :: "bytes \<Rightarrow> bool" where "lf_ok m \<longleftrightarrow> length m \<le> 65536"
definition lf_enc :: "bytes \<Rightarrow> bytes" where "lf_enc m = put_be 4 (word_of_nat (length m) :: u32) @ m"
definition lf_out :: "LengthFramer \<Rightarrow> bytes" where "lf_out f = nc_out (lf_c f)"
definition lf_in :: "LengthFramer \<Rightarrow> bytes" where "lf_in f = nc_in (lf_c f)"
definition lf_open :: "LengthFramer \<Rightarrow> bool" where "lf_open f \<longleftrightarrow> conn_ready (lf_c f)"
definition lf_shut :: "LengthFramer \<Rightarrow> bool" where "lf_shut f \<longleftrightarrow> nc_closed (lf_c f)"
definition lf_clock :: "LengthFramer \<Rightarrow> enat" where "lf_clock f = nc_clock (lf_c f)"
definition lf_limit :: "LengthFramer \<Rightarrow> enat" where "lf_limit f = max (nc_rdl (lf_c f)) (nc_wdl (lf_c f))"

lemmas lf_defs = lf_transport_def lf_ok_def lf_enc_def lf_out_def lf_in_def lf_open_def lf_shut_def lf_clock_def lf_limit_def

lemma unat_u32: "n < 2 ^ 32 \<Longrightarrow> unat (word_of_nat n :: u32) = n"
  by (simp add: unat_of_nat)

lemma lf_open_not_shut: "lf_open f \<Longrightarrow> \<not> lf_shut f"
  by (simp add: lf_open_def lf_shut_def conn_ready_def)

text \<open>Sending: two writes.\<close>

lemma SendMessage_facts:
  assumes "LengthFramer_SendMessage f m = (res, f')"
  shows "conn_same (lf_c f) (lf_c f')" and "lf_in f' = lf_in f" and "\<exists>w. lf_out f' = lf_out f @ w"
    and "res = None \<Longrightarrow> lf_ok m \<and> lf_out f' = lf_out f @ lf_enc m \<and> \<not> lf_shut f \<and>
      nc_room (lf_c f') = nc_room (lf_c f) - (4 + length m)"
    and "lf_open f' = lf_open f" and "lf_clock f' \<le> max (lf_clock f) (nc_wdl (lf_c f))"
proof -
  let ?h = "put_be 4 (word_of_nat (length m) :: u32)"
  obtain r1 c1 where w1: "conn_Write (lf_c f) ?h = (r1, c1)" by (metis prod.exhaust)
  obtain r2 c2 where w2: "conn_Write c1 m = (r2, c2)" by (metis prod.exhaust)
  note k1 = conn_Write_facts [OF w1] and k2 = conn_Write_facts [OF w2]
  consider "65536 < int (length m)" "res \<noteq> None" "f' = f" | "res \<noteq> None" "lf_c f' = c1"
    | "int (length m) \<le> 65536" "r1 = None" "res = r2" "lf_c f' = c2"
    using assms w1 w2 by (auto simp: LengthFramer_SendMessage_def Let_def ewp_consts split: if_splits option.splits)
  then have "conn_same (lf_c f) (lf_c f') \<and> lf_in f' = lf_in f \<and> (\<exists>w. lf_out f' = lf_out f @ w) \<and>
      (res = None \<longrightarrow> lf_ok m \<and> lf_out f' = lf_out f @ lf_enc m \<and> \<not> lf_shut f \<and>
        nc_room (lf_c f') = nc_room (lf_c f) - (4 + length m)) \<and>
      lf_open f' = lf_open f \<and> lf_clock f' \<le> max (lf_clock f) (nc_wdl (lf_c f))"
  proof cases
    case 1
    then show ?thesis by auto
  next
    case 2
    with k1 show ?thesis
      by (auto simp: lf_in_def lf_out_def lf_open_def lf_clock_def conn_ready_def conn_same_def le_max_iff_disj)
  next
    case 3
    have "nc_clock c2 \<le> max (lf_clock f) (nc_wdl (lf_c f))"
      using k1(1,6) k2(6) by (auto simp: conn_same_def lf_clock_def le_max_iff_disj intro: order_trans)
    with 3 k1(1-5) k2(1-5) show ?thesis
      by (auto simp: lf_in_def lf_out_def lf_open_def lf_clock_def conn_ready_def conn_same_def lf_ok_def lf_enc_def lf_shut_def)
  qed
  then show "conn_same (lf_c f) (lf_c f')" "lf_in f' = lf_in f" "\<exists>w. lf_out f' = lf_out f @ w"
    "res = None \<Longrightarrow> lf_ok m \<and> lf_out f' = lf_out f @ lf_enc m \<and> \<not> lf_shut f \<and>
      nc_room (lf_c f') = nc_room (lf_c f) - (4 + length m)"
    "lf_open f' = lf_open f" "lf_clock f' \<le> max (lf_clock f) (nc_wdl (lf_c f))"
    by blast+
qed

lemma SendMessage_room:
  assumes "lf_open f" and "lf_ok m" and "4 + length m \<le> nc_room (lf_c f)"
  shows "\<exists>f'. LengthFramer_SendMessage f m = (None, f') \<and> lf_open f' \<and>
    nc_room (lf_c f') = nc_room (lf_c f) - (4 + length m)"
proof -
  obtain r1 c1 where w1: "conn_Write (lf_c f) (put_be 4 (word_of_nat (length m) :: u32)) = (r1, c1)" by (metis prod.exhaust)
  note k1 = conn_Write_facts [OF w1]
  have 1: "r1 = None" "nc_room c1 = nc_room (lf_c f) - 4" "conn_ready c1"
    using k1(1,4,5,7) assms(1,3) by (auto simp: lf_open_def conn_ready_def conn_same_def)
  obtain r2 c2 where w2: "conn_Write c1 m = (r2, c2)" by (metis prod.exhaust)
  have "r2 = None"
    using conn_Write_facts(7) [OF w2 1(3)] 1(2) assms(3) by simp
  with w1 w2 1(1) assms(2) have "LengthFramer_SendMessage f m = (None, f\<lparr>lf_c := c2\<rparr>)"
    by (simp add: LengthFramer_SendMessage_def Let_def lf_ok_def ewp_consts)
  with SendMessage_facts(4,5) [OF this] assms(1) show ?thesis by blast
qed


text \<open>Reading: the length, then the message.\<close>

lemma ReadMessage_cases:
  assumes "LengthFramer_ReadMessage f = (res, f')"
  obtains (hdr) r e where "conn_ReadFull 4 (lf_c f) = (r, lf_c f')" "res = Inl e"
  | (body) hdr c1 where "conn_ReadFull 4 (lf_c f) = (Inr hdr, c1)" "uint (get_be hdr :: u32) \<le> 65536"
      "conn_ReadFull (unat (get_be hdr :: u32)) c1 = (res, lf_c f')"
  using assms
  by (auto simp: LengthFramer_ReadMessage_def Let_def ewp_consts split: if_splits prod.splits sum.splits)

lemma ReadMessage_facts:
  assumes "LengthFramer_ReadMessage f = (res, f')"
  shows "conn_same (lf_c f) (lf_c f')" and "lf_out f' = lf_out f" and "nc_room (lf_c f') = nc_room (lf_c f)"
    and "lf_clock f' \<le> max (lf_clock f) (lf_limit f)"
proof -
  have "conn_same (lf_c f) (lf_c f') \<and> lf_out f' = lf_out f \<and> nc_room (lf_c f') = nc_room (lf_c f) \<and>
      lf_clock f' \<le> max (lf_clock f) (lf_limit f)"
    using assms
  proof (cases rule: ReadMessage_cases)
    case (hdr r e)
    with conn_ReadFull_facts [OF hdr(1)] show ?thesis
      by (auto simp: lf_out_def lf_clock_def lf_limit_def le_max_iff_disj)
  next
    case (body hdr c1)
    note k = conn_ReadFull_facts [OF body(1)] conn_ReadFull_facts [OF body(3)]
    have "lf_clock f' \<le> max (lf_clock f) (lf_limit f)"
      using k(1,5) k(13) by (auto simp: conn_same_def lf_clock_def lf_limit_def le_max_iff_disj intro: order_trans)
    with k(2,3,10,11) conn_same_trans [OF k(1) k(9)] show ?thesis by (simp add: lf_out_def)
  qed
  then show "conn_same (lf_c f) (lf_c f')" "lf_out f' = lf_out f" "nc_room (lf_c f') = nc_room (lf_c f)"
    "lf_clock f' \<le> max (lf_clock f) (lf_limit f)"
    by blast+
qed

lemma ReadMessage_Inr:
  assumes "LengthFramer_ReadMessage f = (Inr m, f')"
  shows "lf_ok m \<and> lf_open f' = lf_open f \<and> \<not> lf_shut f \<and> lf_in f = lf_enc m @ lf_in f'"
  using assms
proof (cases rule: ReadMessage_cases)
  case (body hdr c1)
  let ?n = "get_be hdr :: u32"
  note k = conn_ReadFull_facts [OF body(1)] conn_ReadFull_facts [OF body(3)]
  have h: "4 = length hdr" "nc_in (lf_c f) = hdr @ nc_in c1" "\<not> nc_closed (lf_c f)" "unat ?n = length m" "nc_in c1 = m @ lf_in f'"
    using k(6) [OF refl] k(14) [OF refl] by (auto simp: lf_in_def)
  have "length m \<le> 65536"
    using nat_mono [OF body(2)] h(4) by simp
  moreover have "put_be 4 ?n = hdr"
    using h(1) by (intro put_get_be32) simp
  then have "lf_enc m = hdr @ m"
    using h(4) by (simp add: lf_enc_def flip: h(4))
  moreover have "conn_on_time dl (lf_c f') = conn_on_time dl (lf_c f)" for dl
    using conn_ReadFull_facts(7) [OF body(1) refl, of dl] conn_ReadFull_facts(7) [OF body(3) refl, of dl] by simp
  then have "lf_open f' = lf_open f"
    using k(1,9) by (auto simp: lf_open_def conn_ready_def conn_same_def)
  ultimately show ?thesis
    using h(2,3,5) by (simp add: lf_ok_def lf_shut_def lf_in_def)
qed simp

lemma ReadMessage_enc:
  assumes "lf_open f" and "lf_in f = lf_enc m @ rest" and "lf_ok m"
  obtains f' where "LengthFramer_ReadMessage f = (Inr m, f')" "lf_open f'" "lf_in f' = rest"
proof -
  have u: "unat (word_of_nat (length m) :: u32) = length m"
    using assms(3) by (intro unat_u32) (simp add: lf_ok_def)
  then have i: "uint (word_of_nat (length m) :: u32) = int (length m)"
    by (metis uint_nat)
  obtain r1 c1 where r1: "conn_ReadFull 4 (lf_c f) = (r1, c1)" by (metis prod.exhaust)
  note k1 = conn_ReadFull_facts [OF r1]
  have e1: "r1 = Inr (put_be 4 (word_of_nat (length m) :: u32))" "nc_in c1 = m @ rest"
    using k1(6) [of "put_be 4 (word_of_nat (length m) :: u32)"] k1(8) assms(1,2) by (auto simp: lf_open_def lf_in_def lf_enc_def)
  have o: "conn_ready c1"
    using k1(1) conn_ReadFull_facts(7) [OF r1 e1(1)] assms(1) by (auto simp: lf_open_def conn_ready_def conn_same_def)
  obtain r2 c2 where r2: "conn_ReadFull (length m) c1 = (r2, c2)" by (metis prod.exhaust)
  have "r2 = Inr m"
    using conn_ReadFull_facts(8) [OF r2 o] e1(2) by simp
  with r1 r2 e1 u i assms(3) have f: "LengthFramer_ReadMessage f = (Inr m, f\<lparr>lf_c := c2\<rparr>)"
    by (simp add: LengthFramer_ReadMessage_def Let_def lf_ok_def ewp_consts)
  with ReadMessage_Inr [OF f] assms(1,2) show thesis by (intro that [OF f]) auto
qed

text \<open>
  How reading spends time: no later than the read deadline; and it ends at all, as long as
  there is a deadline or the peer does not stay silent.
\<close>

definition conn_answers :: "net_conn \<Rightarrow> bool" where
  "conn_answers c \<longleftrightarrow> nc_clock c \<noteq> \<infinity> \<and> (nc_silent c \<longrightarrow> nc_rdl c \<noteq> \<infinity>)"

definition read_timed :: "net_conn \<Rightarrow> net_conn \<Rightarrow> bool" where
  "read_timed c c' \<longleftrightarrow> nc_rdl c' = nc_rdl c \<and> nc_silent c' = nc_silent c \<and>
     nc_clock c' \<le> max (nc_clock c) (nc_rdl c) \<and> (conn_answers c \<longrightarrow> conn_answers c')"

lemma read_timed_refl [simp]: "read_timed c c"
  by (simp add: read_timed_def)

lemma read_timed_trans: "read_timed a b \<Longrightarrow> read_timed b c \<Longrightarrow> read_timed a c"
  by (auto simp: read_timed_def le_max_iff_disj intro: order_trans)

lemma conn_wait_finite: "conn_wait dl c = (ok, c') \<Longrightarrow> nc_clock c \<noteq> \<infinity> \<Longrightarrow> nc_clock c' \<noteq> \<infinity>"
  by (cases "nc_clock c"; cases dl) (auto simp: conn_wait_def Let_def max_def split: if_splits list.splits)

lemma conn_ReadFull_timed:
  assumes "conn_ReadFull n c = (res, c')"
  shows "read_timed c c'"
proof -
  have "nc_silent c' = nc_silent c \<and> (conn_answers c \<longrightarrow> nc_clock c' \<noteq> \<infinity>)"
    using assms
  proof (cases rule: conn_ReadFull_cases)
    case late
    with conn_wait_same [OF late(3)] conn_wait_finite [OF late(3)] show ?thesis by (simp add: conn_answers_def)
  next
    case (short c1 err rest)
    with conn_wait_same [OF short(3)] conn_wait_finite [OF short(3)] show ?thesis
      by (auto simp: conn_answers_def max_def)
  next
    case (complete c1)
    with conn_wait_same [OF complete(3)] conn_wait_finite [OF complete(3)] show ?thesis by (simp add: conn_answers_def)
  qed (simp_all add: conn_answers_def)
  with conn_ReadFull_facts(1,5) [OF assms] show ?thesis
    by (auto simp: read_timed_def conn_answers_def conn_same_def)
qed

lemma ReadMessage_timed:
  assumes "LengthFramer_ReadMessage f = (res, f')"
  shows "read_timed (lf_c f) (lf_c f')"
  using assms
  by (cases rule: ReadMessage_cases) (auto dest: conn_ReadFull_timed intro: read_timed_trans)

lemma Close_timed: "LengthFramer_Close f = (res, f') \<Longrightarrow> read_timed (lf_c f) (lf_c f')"
  by (auto simp: LengthFramer_Close_def conn_Close_def read_timed_def conn_answers_def split: if_splits)

interpretation lf: message_transport lf_transport lf_ok lf_enc lf_out lf_in lf_open lf_shut
proof
  show "lf_enc m \<noteq> []" for m
    using length_put_be [of 4 "word_of_nat (length m) :: u32"] by (auto simp: lf_enc_def simp del: length_put_be)
next
  show "lf_shut t \<Longrightarrow> \<not> lf_open t" for t
    using lf_open_not_shut by blast
next
  fix t m t'
  assume "tr_SendMessage lf_transport t m = (None, t')"
  from SendMessage_facts [OF this [unfolded lf_transport_def, simplified]]
  show "lf_ok m \<and> lf_open t' = lf_open t \<and> \<not> lf_shut t \<and> \<not> lf_shut t' \<and> lf_out t' = lf_out t @ lf_enc m \<and> lf_in t' = lf_in t"
    by (simp add: lf_shut_def conn_same_def)
next
  fix t m e t'
  assume "tr_SendMessage lf_transport t m = (Some e, t')"
  from SendMessage_facts [OF this [unfolded lf_transport_def, simplified]]
  show "lf_open t' = lf_open t \<and> lf_shut t' = lf_shut t \<and> lf_in t' = lf_in t \<and> (\<exists>w. lf_out t' = lf_out t @ w)"
    by (simp add: lf_shut_def conn_same_def)
next
  fix t m rest
  assume "lf_open t" "lf_ok m" "lf_in t = lf_enc m @ rest"
  then obtain t' where "LengthFramer_ReadMessage t = (Inr m, t')" "lf_open t'" "lf_in t' = rest"
    using ReadMessage_enc by blast
  then show "\<exists>t'. tr_ReadMessage lf_transport t = (Inr m, t') \<and> lf_open t' \<and> lf_in t' = rest \<and> lf_out t' = lf_out t"
    using ReadMessage_facts(2) by (auto simp: lf_transport_def)
next
  fix t m t'
  assume "tr_ReadMessage lf_transport t = (Inr m, t')"
  then have r: "LengthFramer_ReadMessage t = (Inr m, t')" by (simp add: lf_transport_def)
  from ReadMessage_facts [OF r] ReadMessage_Inr [OF r]
  show "lf_ok m \<and> lf_open t' = lf_open t \<and> \<not> lf_shut t \<and> \<not> lf_shut t' \<and> lf_in t = lf_enc m @ lf_in t' \<and> lf_out t' = lf_out t"
    by (simp add: lf_shut_def conn_same_def)
next
  fix t e t'
  assume "tr_ReadMessage lf_transport t = (Inl e, t')"
  from ReadMessage_facts [OF this [unfolded lf_transport_def, simplified]]
  show "lf_shut t' = lf_shut t \<and> lf_out t' = lf_out t"
    by (simp add: lf_shut_def conn_same_def)
next
  fix t e t'
  assume "tr_Close lf_transport t = (e, t')"
  then show "lf_shut t' \<and> lf_out t' = lf_out t"
    by (auto simp: lf_defs LengthFramer_Close_def conn_Close_def split: if_splits)
qed

interpretation lfd: deadline_transport lf_transport lf_ok lf_enc lf_out lf_in lf_open lf_shut LengthFramer_SetDeadline lf_clock lf_limit
proof
  fix d t e t' m r r'
  show "tr_SetDeadline lf_transport = Some LengthFramer_SetDeadline"
    by (simp add: lf_transport_def)
  show "tr_SendMessage lf_transport t m = (r, t') \<Longrightarrow> lf_limit t' = lf_limit t \<and> lf_clock t' \<le> max (lf_clock t) (lf_limit t)"
    using SendMessage_facts(1,6) [of t m r t'] by (auto simp: lf_transport_def lf_limit_def conn_same_def le_max_iff_disj)
  show "tr_ReadMessage lf_transport t = (r', t') \<Longrightarrow> lf_limit t' = lf_limit t \<and> lf_clock t' \<le> max (lf_clock t) (lf_limit t)"
    using ReadMessage_facts(1,4) [of t r' t'] by (simp add: lf_transport_def lf_limit_def conn_same_def)
qed (auto simp: lf_defs LengthFramer_SetDeadline_def conn_SetDeadline_def LengthFramer_Close_def conn_Close_def conn_ready_def
    split: if_splits)

lemma send_all_room:
  assumes "lf_open f" and "list_all lf_ok ms" and "sum_list (map (\<lambda>m. 4 + length m) ms) \<le> nc_room (lf_c f)"
  shows "\<exists>f'. send_all lf_transport f ms = (None, f')"
  using assms
proof (induction ms arbitrary: f)
  case (Cons m ms)
  then obtain f1 where f1: "LengthFramer_SendMessage f m = (None, f1)" "lf_open f1"
    "nc_room (lf_c f1) = nc_room (lf_c f) - (4 + length m)"
    using SendMessage_room [of f m] by auto
  moreover have "\<exists>f'. send_all lf_transport f1 ms = (None, f')"
    using f1 Cons.prems by (intro Cons.IH) auto
  ultimately show ?case by (auto simp: lf_transport_def)
qed simp

section \<open>Properties\<close>

text \<open>
  \<^verbatim>\<open>LengthFramer\<close> is a FIFO of messages. On an open connection on which nothing times out and that has
  room for them, messages of at most 65536 bytes are all sent; and a peer whose incoming bytes
  are the bytes written, followed by anything, reads back exactly these messages in order and is left with what
  follows.
\<close>
theorem length_framer_fifo:
  assumes "conn_ready (lf_c f)" and "\<forall>m \<in> set ms. length m \<le> 65536"
    and "sum_list (map (\<lambda>m. 4 + length m) ms) \<le> nc_room (lf_c f)"
  shows "\<exists>f'. send_all lf_transport f ms = (None, f') \<and>
    (\<forall>g rest. conn_ready (lf_c g) \<and>
       nc_in (lf_c g) = drop (length (nc_out (lf_c f))) (nc_out (lf_c f')) @ rest \<longrightarrow>
       (\<exists>g'. read_all lf_transport (length ms) g = (Inr ms, g') \<and> nc_in (lf_c g') = rest))"
proof -
  have ok: "list_all lf_ok ms" "lf_open f"
    using assms(1,2) by (simp_all add: list_all_iff lf_ok_def lf_open_def)
  obtain f' where s: "send_all lf_transport f ms = (None, f')"
    using send_all_room [OF ok(2,1) assms(3)] by auto
  from lf.send_all_out [OF s] have "lf_out f' = lf_out f @ concat (map lf_enc ms)" by simp
  with lf.fifo [OF s] s show ?thesis
    by (auto simp: lf_out_def lf_in_def lf_open_def)
qed

theorem length_framer_fifo_witness:
  "\<exists>f' g'. send_all lf_transport (NewLengthFramer (prompt_conn [] 20))
       [[1, 2], [], [3]] = (None, f') \<and>
     read_all lf_transport (length [[1, 2], [], [3 :: byte]])
       (NewLengthFramer (prompt_conn (nc_out (lf_c f')) 0)) =
       (Inr [[1, 2], [], [3]], g')"
proof -
  let ?f = "NewLengthFramer (prompt_conn [] 20)"
  have p: "conn_ready (lf_c ?f)" "\<forall>m \<in> set [[1, 2], [], [3 :: byte]]. length m \<le> 65536"
    "sum_list (map (\<lambda>m. 4 + length m) [[1, 2], [], [3 :: byte]]) \<le> nc_room (lf_c ?f)" "nc_out (lf_c ?f) = []"
    by (simp_all add: NewLengthFramer_def conn_ready_def)
  obtain f' where f': "send_all lf_transport ?f [[1, 2], [], [3]] = (None, f')"
    and r: "\<And>g rest. conn_ready (lf_c g) \<and> nc_in (lf_c g) = nc_out (lf_c f') @ rest \<Longrightarrow>
       \<exists>g'. read_all lf_transport (length [[1, 2], [], [3 :: byte]]) g = (Inr [[1, 2], [], [3]], g')"
    using length_framer_fifo [OF p(1-3)] unfolding p(4) by (metis drop0 list.size(3))
  from f' r [of "NewLengthFramer (prompt_conn (nc_out (lf_c f')) 0)" "[]"]
  show ?thesis by (auto simp: NewLengthFramer_def conn_ready_def)
qed

text \<open>
  \<^verbatim>\<open>ReadMessage\<close> returns only what was framed: when it returns a message, that message has at most
  65536 bytes, and the bytes consumed are exactly its 4-byte big-endian length and itself.
\<close>
theorem length_framer_read_sound:
  assumes "LengthFramer_ReadMessage f = (Inr m, f')"
  shows "length m \<le> 65536 \<and>
    nc_in (lf_c f) = put_be 4 (word_of_nat (length m) :: u32) @ m @ nc_in (lf_c f')"
  using ReadMessage_Inr [OF assms] by (simp add: lf_ok_def lf_in_def lf_enc_def)

theorem length_framer_read_sound_witness:
  "\<exists>f'. LengthFramer_ReadMessage (NewLengthFramer (prompt_conn [0, 0, 0, 2, 7, 8, 9] 0)) =
      (Inr [7, 8], f') \<and> [0, 0, 0, 2, 7, 8, 9] = put_be 4 (word_of_nat (length [7, 8 :: byte]) :: u32) @ [7, 8] @ nc_in (lf_c f')"
proof -
  let ?f = "NewLengthFramer (prompt_conn [0, 0, 0, 2, 7, 8, 9] 0)"
  obtain f' where "LengthFramer_ReadMessage ?f = (Inr [7, 8], f')"
    by (simp add: LengthFramer_ReadMessage_def NewLengthFramer_def conn_ReadFull_def conn_wait_def io_ReadFull_def Let_def
        get_be_def ewp_consts)
  with length_framer_read_sound [OF this] show ?thesis by (simp add: NewLengthFramer_def)
qed

end
