(* ===== verification/Session.thy ===== *)
theory Session
  imports Address Frame Padding Transport
begin

text \<open>
  \<^verbatim>\<open>src/securestream.go\<close>: the encrypted channel of an established session. A \<open>SecureStream\<close>
  holds its transport, the two frame ciphers, the counters and the state of its closing and
  of its cover traffic. Every method is a function of that state, the crypto primitives,
  the methods \<open>T\<close> of the transport, the clock reading and the random source. A call is one
  atomic step, as the write mutex makes it for the senders.

  The scratch buffer \<^verbatim>\<open>sendBuf\<close> is left to \<open>Buffers\<close>. Of the cover-traffic loop, \<open>cover_tick\<close> is one
  iteration and \<open>nextDelay\<close> the delay to the next; the loop itself is in \<open>Lifecycle\<close>.

  Shown, for any transport that meets \<open>message_transport\<close> and then for \<^verbatim>\<open>LengthFramer\<close>: what
  one side sends, of whatever kinds of frames, the other receives in order and unchanged;
  what is received was sent; a stream that failed is closed and stays closed.
\<close>

section \<open>State\<close>

definition reshapeThreshold :: nat where "reshapeThreshold = 8192"
definition reshapeMin :: int where "reshapeMin = 4096"
definition reshapeMax :: int where "reshapeMax = 12288"

declare reshapeThreshold_def [ewp_consts] reshapeMin_def [ewp_consts] reshapeMax_def [ewp_consts]

text \<open>\<open>ss_closeOnce\<close> is the \<^verbatim>\<open>sync.Once\<close>; \<open>ss_coverStop\<close> is nil or a channel, \<open>True\<close> once closed.\<close>

record 't SecureStream =
  ss_tr :: 't
  ss_send :: FrameAEAD
  ss_recv :: FrameAEAD
  ss_lastSendNs :: int
  ss_coverStarted :: bool
  ss_coverStop :: "bool option"
  ss_closeOnce :: bool
  ss_closed :: bool
  ss_bytesIn :: u64
  ss_bytesOut :: u64
  ss_frmIn :: u64
  ss_frmOut :: u64

definition new_stream :: "'t \<Rightarrow> FrameAEAD \<Rightarrow> FrameAEAD \<Rightarrow> 't SecureStream" where
  "new_stream tr send recv =
     \<lparr>ss_tr = tr, ss_send = send, ss_recv = recv, ss_lastSendNs = 0, ss_coverStarted = False,
      ss_coverStop = None, ss_closeOnce = False, ss_closed = False,
      ss_bytesIn = 0, ss_bytesOut = 0, ss_frmIn = 0, ss_frmOut = 0\<rparr>"

definition NewClientSecureStream :: "'t \<Rightarrow> SessionKeys \<Rightarrow> ewp_error + 't SecureStream" where
  "NewClientSecureStream tr keys =
     (case NewFrameAEAD (C2SKey keys) (C2SNonce keys) of
        Inl err \<Rightarrow> Inl err
      | Inr send \<Rightarrow>
        (case NewFrameAEAD (S2CKey keys) (S2CNonce keys) of
           Inl err \<Rightarrow> Inl err
         | Inr recv \<Rightarrow> Inr (new_stream tr send recv)))"

definition NewServerSecureStream :: "'t \<Rightarrow> SessionKeys \<Rightarrow> ewp_error + 't SecureStream" where
  "NewServerSecureStream tr keys =
     (case NewFrameAEAD (S2CKey keys) (S2CNonce keys) of
        Inl err \<Rightarrow> Inl err
      | Inr send \<Rightarrow>
        (case NewFrameAEAD (C2SKey keys) (C2SNonce keys) of
           Inl err \<Rightarrow> Inl err
         | Inr recv \<Rightarrow> Inr (new_stream tr send recv)))"

section \<open>Lifecycle\<close>

definition SecureStream_Close :: "'t transport \<Rightarrow> 't SecureStream \<Rightarrow> ewp_error option \<times> 't SecureStream" where
  "SecureStream_Close T s =
     (if ss_closeOnce s then (None, s)
      else
        let s = s\<lparr>ss_closeOnce := True, ss_closed := True\<rparr>;
            s = (case ss_coverStop s of None \<Rightarrow> s | Some _ \<Rightarrow> s\<lparr>ss_coverStop := Some True\<rparr>) in
        case tr_Close T (ss_tr s) of (err, tr) \<Rightarrow> (err, s\<lparr>ss_tr := tr\<rparr>))"

definition closeUnderlying :: "'t transport \<Rightarrow> 't SecureStream \<Rightarrow> 't SecureStream" where
  "closeUnderlying T s = snd (SecureStream_Close T s)"

definition Stats :: "'t SecureStream \<Rightarrow> u64 \<times> u64 \<times> u64 \<times> u64" where
  "Stats s = (ss_bytesIn s, ss_bytesOut s, ss_frmIn s, ss_frmOut s)"

section \<open>Meta helpers\<close>

definition buildUDPMeta :: "bytes \<Rightarrow> Address \<Rightarrow> ewp_error + bytes" where
  "buildUDPMeta globalID target =
     (case (if IsDomain target \<or> AddrPort_IsValid (addr_Addr target)
            then Address_Append target globalID else (globalID, None)) of
        (out, Some err) \<Rightarrow> Inl err
      | (out, None) \<Rightarrow> if length out > MaxMetaLen then Inl ErrMetaTooLarge else Inr out)"

definition parseUDPMeta :: "bytes \<Rightarrow> ewp_error + bytes \<times> Address \<times> bool" where
  "parseUDPMeta meta =
     (if length meta < 8 then Inl ErrMetaShort
      else
        let gid = take 8 meta in
        if length meta = 8 then Inr (gid, Address_zero, False)
        else case DecodeAddress (drop 8 meta) of
          Inl derr \<Rightarrow> Inl derr
        | Inr (a, _) \<Rightarrow> Inr (gid, a, True))"

definition hex_digit :: "nat \<Rightarrow> char" where
  "hex_digit n = ''0123456789abcdef'' ! n"

definition frameTypeName :: "byte \<Rightarrow> string" where
  "frameTypeName t =
     (if t = FrameTCPData then ''TCP_DATA''
      else if t = FrameUDPData then ''UDP_DATA''
      else if t = FrameUDPNew then ''UDP_NEW''
      else if t = FrameUDPEnd then ''UDP_END''
      else if t = FrameUDPProbeReq then ''UDP_PROBE_REQ''
      else if t = FrameUDPProbeResp then ''UDP_PROBE_RESP''
      else if t = FramePing then ''PING''
      else if t = FramePong then ''PONG''
      else if t = FrameRekeyReq then ''REKEY_REQ''
      else if t = FrameRekeyResp then ''REKEY_RESP''
      else if t = FramePaddingOnly then ''PADDING_ONLY''
      else ''UNKNOWN(0x'' @ [hex_digit (unat t div 16), hex_digit (unat t mod 16)] @ '')'')"

section \<open>Sending\<close>

text \<open>
  \<^verbatim>\<open>sendFrame\<close> tests the closed flag before it takes the write mutex; \<open>sendFrame_locked\<close> is
  the part under the mutex. The Go code first makes room for \<open>rawWire + padLen\<close> bytes and leaves
  it to the encoder to refuse a pad length that is too large; here the encoder refuses at once. So
  for an absurd pad length, which only a caller of \<^verbatim>\<open>SendCoverPad\<close> can pass, the Go code
  allocates the memory before it fails, or panics, where the model returns the error.
\<close>

definition sendFrame_locked ::
  "'t transport \<Rightarrow> crypto \<Rightarrow> int \<Rightarrow> 't SecureStream \<Rightarrow> byte \<Rightarrow> bytes \<Rightarrow> bytes \<Rightarrow> int \<Rightarrow> bytes \<Rightarrow>
   ewp_error option \<times> 't SecureStream \<times> bytes" where
  "sendFrame_locked T C now s t meta payload padLen rnd =
     (let rawWire = frameHeaderSize + length meta + length payload + aeadTagLen in
      case (if padLen < 0 then suggestStreamPad (int rawWire) (sint (ss_frmOut s)) rnd else (padLen, rnd)) of
        (padLen, rnd) \<Rightarrow>
      (case EncodeFrameAppend C [] (ss_send s) t meta payload padLen rnd of
           ((wireBuf, Some err), send, rnd) \<Rightarrow>
             (Some (ErrWrap (''ewp/v2: encode '' @ frameTypeName t @ '' frame'') err), s\<lparr>ss_send := send\<rparr>, rnd)
         | ((wireBuf, None), send, rnd) \<Rightarrow>
             let s = s\<lparr>ss_send := send\<rparr> in
             (case tr_SendMessage T (ss_tr s) wireBuf of
                (Some err, tr) \<Rightarrow>
                  (Some (ErrWrap ''ewp/v2: transport send'' err), closeUnderlying T (s\<lparr>ss_tr := tr\<rparr>), rnd)
              | (None, tr) \<Rightarrow>
                  let s = s\<lparr>ss_tr := tr, ss_bytesOut := ss_bytesOut s + word_of_nat (length wireBuf),
                            ss_frmOut := ss_frmOut s + 1\<rparr> in
                  (None, if t \<noteq> FramePaddingOnly then s\<lparr>ss_lastSendNs := now\<rparr> else s, rnd))))"

definition sendFrame ::
  "'t transport \<Rightarrow> crypto \<Rightarrow> int \<Rightarrow> 't SecureStream \<Rightarrow> byte \<Rightarrow> bytes \<Rightarrow> bytes \<Rightarrow> int \<Rightarrow> bytes \<Rightarrow>
   ewp_error option \<times> 't SecureStream \<times> bytes" where
  "sendFrame T C now s t meta payload padLen rnd =
     (if ss_closed s then (Some ErrClosedPipe, s, rnd)
      else sendFrame_locked T C now s t meta payload padLen rnd)"

text \<open>The size of the next piece of a large payload.\<close>

definition chunk_size :: "nat \<Rightarrow> bytes \<Rightarrow> nat \<times> bytes" where
  "chunk_size len rnd =
     (case (if int len > reshapeMax
            then (case secureRandIntn (reshapeMax - reshapeMin + 1) rnd of (r, rnd) \<Rightarrow> (reshapeMin + r, rnd))
            else (int len, rnd)) of
        (chunk, rnd) \<Rightarrow> (nat (if chunk > int len then int len else chunk), rnd))"

lemma chunk_size_pos: "0 < len \<Longrightarrow> 0 < fst (chunk_size len rnd) \<and> fst (chunk_size len rnd) \<le> len"
  using secureRandIntn_range [of 8193 rnd]
  by (auto simp: chunk_size_def ewp_consts split: prod.splits)

text \<open>The loop of \<^verbatim>\<open>SendTCPData\<close>; \<open>now i\<close> is the clock reading of the \<open>i\<close>-th piece.\<close>

function send_chunks ::
  "'t transport \<Rightarrow> crypto \<Rightarrow> (nat \<Rightarrow> int) \<Rightarrow> nat \<Rightarrow> 't SecureStream \<Rightarrow> bytes \<Rightarrow> bytes \<Rightarrow>
   ewp_error option \<times> 't SecureStream \<times> bytes" where
  "send_chunks T C now i s payload rnd =
     (if payload = [] then (None, s, rnd)
      else
        (case sendFrame T C (now i) s FrameTCPData [] (take (fst (chunk_size (length payload) rnd)) payload) (-1)
                (snd (chunk_size (length payload) rnd)) of
           (Some err, s', rnd') \<Rightarrow> (Some err, s', rnd')
         | (None, s', rnd') \<Rightarrow>
             send_chunks T C now (Suc i) s' (drop (fst (chunk_size (length payload) rnd)) payload) rnd'))"
  by pat_completeness auto
termination
  by (relation "measure (\<lambda>(T, C, now, i, s, payload, rnd). length payload)") (auto simp: chunk_size_pos)

declare send_chunks.simps [simp del]

definition SendTCPData ::
  "'t transport \<Rightarrow> crypto \<Rightarrow> (nat \<Rightarrow> int) \<Rightarrow> 't SecureStream \<Rightarrow> bytes \<Rightarrow> bytes \<Rightarrow>
   ewp_error option \<times> 't SecureStream \<times> bytes" where
  "SendTCPData T C now s payload rnd =
     (if length payload \<le> reshapeThreshold
      then sendFrame T C (now 0) s FrameTCPData [] payload (-1) rnd
      else send_chunks T C now 0 s payload rnd)"

text \<open>The senders whose meta carries a GlobalID and an address, and those with a GlobalID only.\<close>

definition send_udp_meta ::
  "byte \<Rightarrow> 't transport \<Rightarrow> crypto \<Rightarrow> int \<Rightarrow> 't SecureStream \<Rightarrow> bytes \<Rightarrow> Address \<Rightarrow> bytes \<Rightarrow> bytes \<Rightarrow>
   ewp_error option \<times> 't SecureStream \<times> bytes" where
  "send_udp_meta t T C now s globalID target payload rnd =
     (case buildUDPMeta globalID target of
        Inl err \<Rightarrow> (Some err, s, rnd)
      | Inr meta \<Rightarrow> sendFrame T C now s t meta payload (-1) rnd)"

definition SendUDPNew ::
  "'t transport \<Rightarrow> crypto \<Rightarrow> int \<Rightarrow> 't SecureStream \<Rightarrow> bytes \<Rightarrow> Address \<Rightarrow> bytes \<Rightarrow> bytes \<Rightarrow>
   ewp_error option \<times> 't SecureStream \<times> bytes" where
  "SendUDPNew T C now s globalID target initial rnd = send_udp_meta FrameUDPNew T C now s globalID target initial rnd"

definition SendUDPData ::
  "'t transport \<Rightarrow> crypto \<Rightarrow> int \<Rightarrow> 't SecureStream \<Rightarrow> bytes \<Rightarrow> Address \<Rightarrow> bytes \<Rightarrow> bytes \<Rightarrow>
   ewp_error option \<times> 't SecureStream \<times> bytes" where
  "SendUDPData T C now s globalID target payload rnd = send_udp_meta FrameUDPData T C now s globalID target payload rnd"

definition SendProbeResp ::
  "'t transport \<Rightarrow> crypto \<Rightarrow> int \<Rightarrow> 't SecureStream \<Rightarrow> bytes \<Rightarrow> Address \<Rightarrow> bytes \<Rightarrow>
   ewp_error option \<times> 't SecureStream \<times> bytes" where
  "SendProbeResp T C now s globalID observed rnd = send_udp_meta FrameUDPProbeResp T C now s globalID observed [] rnd"

definition SendUDPEnd ::
  "'t transport \<Rightarrow> crypto \<Rightarrow> int \<Rightarrow> 't SecureStream \<Rightarrow> bytes \<Rightarrow> bytes \<Rightarrow>
   ewp_error option \<times> 't SecureStream \<times> bytes" where
  "SendUDPEnd T C now s globalID rnd = sendFrame T C now s FrameUDPEnd (array_copy 8 globalID) [] (-1) rnd"

definition SendProbeReq ::
  "'t transport \<Rightarrow> crypto \<Rightarrow> int \<Rightarrow> 't SecureStream \<Rightarrow> bytes \<Rightarrow> bytes \<Rightarrow>
   ewp_error option \<times> 't SecureStream \<times> bytes" where
  "SendProbeReq T C now s globalID rnd = sendFrame T C now s FrameUDPProbeReq (array_copy 8 globalID) [] (-1) rnd"

definition SendPing ::
  "'t transport \<Rightarrow> crypto \<Rightarrow> int \<Rightarrow> 't SecureStream \<Rightarrow> bytes \<Rightarrow> bytes \<Rightarrow>
   ewp_error option \<times> 't SecureStream \<times> bytes" where
  "SendPing T C now s cookie rnd = sendFrame T C now s FramePing [] cookie (-1) rnd"

definition SendPong ::
  "'t transport \<Rightarrow> crypto \<Rightarrow> int \<Rightarrow> 't SecureStream \<Rightarrow> bytes \<Rightarrow> bytes \<Rightarrow>
   ewp_error option \<times> 't SecureStream \<times> bytes" where
  "SendPong T C now s cookie rnd = sendFrame T C now s FramePong [] cookie (-1) rnd"

definition SendCoverPad ::
  "'t transport \<Rightarrow> crypto \<Rightarrow> int \<Rightarrow> 't SecureStream \<Rightarrow> int \<Rightarrow> bytes \<Rightarrow>
   ewp_error option \<times> 't SecureStream \<times> bytes" where
  "SendCoverPad T C now s padLen rnd = sendFrame T C now s FramePaddingOnly [] [] padLen rnd"

section \<open>Cover traffic\<close>

text \<open>
  Durations are nanoseconds. \<open>cc_span\<close> stands for the floating-point jitter: \<open>None\<close> for
  \<^verbatim>\<open>JitterFrac <= 0\<close>, otherwise the value of \<^verbatim>\<open>int(float64(cfg.Interval) * cfg.JitterFrac * 2)\<close>.
\<close>

record CoverConfig =
  cc_Interval :: int
  cc_IdleAfter :: int
  cc_span :: "int option"

text \<open>The result tells whether the loop was started.\<close>

definition StartCoverTraffic :: "'t SecureStream \<Rightarrow> CoverConfig \<Rightarrow> bool \<times> 't SecureStream" where
  "StartCoverTraffic s cfg =
     (if cc_Interval cfg \<le> 0 \<or> cc_IdleAfter cfg \<le> 0 then (False, s)
      else if ss_coverStarted s then (False, s)
      else (True, s\<lparr>ss_coverStarted := True, ss_coverStop := Some False\<rparr>))"

definition nextDelay :: "CoverConfig \<Rightarrow> bytes \<Rightarrow> int \<times> bytes" where
  "nextDelay cfg rnd =
     (case cc_span cfg of
        None \<Rightarrow> (cc_Interval cfg, rnd)
      | Some spanNs \<Rightarrow>
          if spanNs < 1 then (cc_Interval cfg, rnd)
          else case secureRandIntn spanNs rnd of
            (r, rnd) \<Rightarrow> (cc_Interval cfg + (r - go_div spanNs 2), rnd))"

text \<open>
  One iteration of \<^verbatim>\<open>coverLoop\<close> after its \<^verbatim>\<open>select\<close>: the delay to the next, or \<open>None\<close> when the
  loop ends. \<open>stopped\<close> tells that the \<^verbatim>\<open>select\<close> chose the closed stop channel.
\<close>

definition cover_tick ::
  "'t transport \<Rightarrow> crypto \<Rightarrow> CoverConfig \<Rightarrow> bool \<Rightarrow> int \<Rightarrow> int \<Rightarrow> 't SecureStream \<Rightarrow> bytes \<Rightarrow>
   int option \<times> 't SecureStream \<times> bytes" where
  "cover_tick T C cfg stopped now now_send s rnd =
     (if stopped then (None, s, rnd)
      else if ss_closed s then (None, s, rnd)
      else
        case (if now - ss_lastSendNs s \<ge> cc_IdleAfter cfg
              then (case SendCoverPad T C now_send s (-1) rnd of (_, s, rnd) \<Rightarrow> (s, rnd))
              else (s, rnd)) of
          (s, rnd) \<Rightarrow> (case nextDelay cfg rnd of (d, rnd) \<Rightarrow> (Some d, s, rnd)))"

section \<open>Receiving\<close>

record Event =
  ev_Type :: byte
  ev_GlobalID :: bytes
  ev_Address :: Address
  ev_HasAddr :: bool
  ev_Payload :: bytes

text \<open>The \<^verbatim>\<open>switch\<close> of \<^verbatim>\<open>Recv\<close>: from a decoded frame to an event.\<close>

definition event_of :: "DecodedFrame \<Rightarrow> ewp_error + Event" where
  "event_of df =
     (let ev = \<lparr>ev_Type = df_Type df, ev_GlobalID = replicate 8 0, ev_Address = Address_zero,
                ev_HasAddr = False, ev_Payload = df_Payload df\<rparr> in
      if df_Type df \<in> set [FrameUDPNew, FrameUDPData, FrameUDPProbeResp] then
        (case parseUDPMeta (df_Meta df) of
           Inl err \<Rightarrow> Inl (ErrWrap ''ewp/v2: parse UDP meta'' err)
         | Inr (gid, addr, hasAddr) \<Rightarrow> Inr (ev\<lparr>ev_GlobalID := gid, ev_Address := addr, ev_HasAddr := hasAddr\<rparr>))
      else if df_Type df \<in> set [FrameUDPEnd, FrameUDPProbeReq] then
        (if length (df_Meta df) < 8 then Inl ErrMetaShort
         else Inr (ev\<lparr>ev_GlobalID := take 8 (df_Meta df)\<rparr>))
      else if df_Type df \<in> set [FrameTCPData, FramePing, FramePong, FramePaddingOnly, FrameRekeyReq, FrameRekeyResp]
      then Inr ev
      else Inl ErrFrameType)"

definition Recv :: "'t transport \<Rightarrow> crypto \<Rightarrow> 't SecureStream \<Rightarrow> (ewp_error + Event) \<times> 't SecureStream" where
  "Recv T C s =
     (if ss_closed s then (Inl ErrClosedPipe, s)
      else case tr_ReadMessage T (ss_tr s) of
        (Inl err, tr) \<Rightarrow> (Inl err, closeUnderlying T (s\<lparr>ss_tr := tr\<rparr>))
      | (Inr wire, tr) \<Rightarrow>
        let s = s\<lparr>ss_tr := tr\<rparr> in
        (case DecodeFrame C wire (ss_recv s) of
           (Inl err, _, recv) \<Rightarrow>
             (Inl (ErrWrap ''ewp/v2: decode frame'' err), closeUnderlying T (s\<lparr>ss_recv := recv\<rparr>))
         | (Inr df, _, recv) \<Rightarrow>
             let s = s\<lparr>ss_recv := recv, ss_bytesIn := ss_bytesIn s + word_of_nat (length wire),
                       ss_frmIn := ss_frmIn s + 1\<rparr> in
             (case event_of df of
                Inl err \<Rightarrow> (Inl err, closeUnderlying T s)
              | Inr ev \<Rightarrow> (Inr ev, s))))"

end
