(* ===== verification/Channel.thy ===== *)
theory Channel
  imports Session
begin

text \<open>
  The session of \<^verbatim>\<open>Session\<close> as a channel. First one call of \<^verbatim>\<open>sendFrame\<close> and of \<^verbatim>\<open>Recv\<close>,
  inverted. Then whole sequences of sending calls of every kind and the events the peer
  receives, once for any transport that meets \<open>message_transport\<close> (in its context), and
  for \<^verbatim>\<open>LengthFramer\<close> through the interpretation \<open>lf\<close>. Then what survives a failure.
\<close>

section \<open>One call\<close>

text \<open>A target is present in the meta when it is a domain or a valid address.\<close>

definition has_target :: "Address \<Rightarrow> bool" where
  "has_target a \<longleftrightarrow> IsDomain a \<or> AddrPort_IsValid (addr_Addr a)"

lemma udp_meta_roundtrip:
  assumes "length gid = 8" and "wf_Address a" and "buildUDPMeta gid a = Inr meta"
  shows "parseUDPMeta meta = Inr (gid, if has_target a then canon a else Address_zero, has_target a) \<and>
    8 \<le> length meta \<and> length meta \<le> 265"
proof (cases "has_target a")
  case True
  have e: "encodable a"
    using assms(2,3) True Append_not_encodable [OF assms(2), of gid]
    by (cases "encodable a") (auto simp: buildUDPMeta_def has_target_def)
  have "meta = gid @ enc_addr a"
    using assms(3) True Append_enc_addr [OF e, of gid]
    by (simp add: buildUDPMeta_def has_target_def split: if_splits)
  moreover have "5 \<le> length (enc_addr a)" "length (enc_addr a) \<le> 257"
    using EncodedLen_bounds [OF e] length_enc_addr [OF e] by simp_all
  ultimately show ?thesis
    using True assms(1) DecodeAddress_enc [OF e, of "[]"] by (auto simp: parseUDPMeta_def)
next
  case False
  then have "meta = gid"
    using assms(3) by (simp add: buildUDPMeta_def has_target_def split: if_splits)
  with False assms(1) show ?thesis by (simp add: parseUDPMeta_def)
qed

lemma Close_closed:
  "ss_closed (closeUnderlying T s) \<longleftrightarrow> ss_closed s \<or> \<not> ss_closeOnce s"
  by (auto simp: closeUnderlying_def SecureStream_Close_def Let_def split: prod.splits option.splits)

text \<open>A successful \<^verbatim>\<open>sendFrame\<close> has sent one frame sealed in the state it found.\<close>

lemma sendFrame_None:
  assumes "sendFrame T C now s t meta payload padLen rnd = (None, s', rnd')"
  obtains pad tr where "\<not> ss_closed s" "frame_fits t meta payload (int (length pad))"
    "tr_SendMessage T (ss_tr s) (frame_wire C (ss_send s) t meta payload pad) = (None, tr)"
    "ss_tr s' = tr" "ss_send s' = bump (ss_send s)" "ss_recv s' = ss_recv s" "ss_closed s' = ss_closed s"
    "ss_closeOnce s' = ss_closeOnce s" "ss_frmOut s' = ss_frmOut s + 1"
    "ss_bytesOut s' = ss_bytesOut s + word_of_nat (length (frame_wire C (ss_send s) t meta payload pad))"
    "ss_bytesIn s' = ss_bytesIn s" "ss_frmIn s' = ss_frmIn s"
proof -
  obtain pl r1 where p: "(if padLen < 0 then suggestStreamPad
        (int (frameHeaderSize + length meta + length payload + aeadTagLen)) (sint (ss_frmOut s)) rnd
      else (padLen, rnd)) = (pl, r1)"
    by (metis prod.exhaust)
  obtain w err f r2 where e: "EncodeFrameAppend C [] (ss_send s) t meta payload pl r1 = ((w, err), f, r2)"
    by (metis prod.exhaust)
  show thesis
    using e
  proof (cases rule: EncodeFrameAppend_cases)
    case ok
    let ?pad = "take (nat pl) r1"
    have fits: "frame_fits t meta payload (int (length ?pad))"
      using ok by (auto simp: frame_fits_def MaxFramePad_def)
    obtain tr where "tr_SendMessage T (ss_tr s) w = (None, tr)"
      using assms p e ok by (auto simp: sendFrame_def sendFrame_locked_def Let_def split: if_splits prod.splits option.splits)
    with fits ok assms p e show thesis
      by (intro that [of ?pad tr]) (auto simp: sendFrame_def sendFrame_locked_def Let_def split: if_splits)
  next
    case fail
    with assms p e show thesis by (auto simp: sendFrame_def sendFrame_locked_def Let_def split: if_splits)
  qed
qed

text \<open>A failed one has changed nothing but closed the stream where the transport failed.\<close>

lemma sendFrame_Some:
  assumes "sendFrame T C now s t meta payload padLen rnd = (Some err, s', rnd')"
  obtains (closed) "ss_closed s" "err = ErrClosedPipe" "s' = s"
  | (encode) e where "\<not> ss_closed s" "err = ErrWrap (''ewp/v2: encode '' @ frameTypeName t @ '' frame'') e" "s' = s"
  | (transport) wire e tr where "\<not> ss_closed s" "err = ErrWrap ''ewp/v2: transport send'' e"
      "tr_SendMessage T (ss_tr s) wire = (Some e, tr)"
      "s' = closeUnderlying T (s\<lparr>ss_send := bump (ss_send s), ss_tr := tr\<rparr>)"
proof (cases "ss_closed s")
  case True
  with assms show thesis by (intro closed) (auto simp: sendFrame_def)
next
  case opn: False
  obtain pl r1 where p: "(if padLen < 0 then suggestStreamPad
        (int (frameHeaderSize + length meta + length payload + aeadTagLen)) (sint (ss_frmOut s)) rnd
      else (padLen, rnd)) = (pl, r1)"
    by (metis prod.exhaust)
  obtain w er f r2 where e: "EncodeFrameAppend C [] (ss_send s) t meta payload pl r1 = ((w, er), f, r2)"
    by (metis prod.exhaust)
  show thesis
    using e
  proof (cases rule: EncodeFrameAppend_cases)
    case ok
    obtain x tr where "tr_SendMessage T (ss_tr s) w = (Some x, tr)"
      using assms p e ok opn by (auto simp: sendFrame_def sendFrame_locked_def Let_def split: if_splits prod.splits option.splits)
    with ok assms p e opn show thesis
      by (intro transport [of x w tr]) (auto simp: sendFrame_def sendFrame_locked_def Let_def split: if_splits)
  next
    case (fail x)
    with assms p e opn show thesis
      by (intro encode [of x]) (auto simp: sendFrame_def sendFrame_locked_def Let_def split: if_splits)
  qed
qed

text \<open>\<^verbatim>\<open>Recv\<close>, inverted.\<close>

lemma Recv_Inr:
  assumes "Recv T C s = (Inr ev, s')"
  obtains wire tr df rest recv where "\<not> ss_closed s" "tr_ReadMessage T (ss_tr s) = (Inr wire, tr)"
    "DecodeFrame C wire (ss_recv s) = (Inr df, rest, recv)" "event_of df = Inr ev"
    "s' = s\<lparr>ss_tr := tr, ss_recv := recv, ss_bytesIn := ss_bytesIn s + word_of_nat (length wire),
            ss_frmIn := ss_frmIn s + 1\<rparr>"
  using assms by (auto simp: Recv_def Let_def split: if_splits sum.splits prod.splits)

lemma Recv_intro:
  assumes "\<not> ss_closed s" and "tr_ReadMessage T (ss_tr s) = (Inr wire, tr)"
    and "DecodeFrame C wire (ss_recv s) = (Inr df, rest, recv)" and "event_of df = Inr ev"
  shows "Recv T C s = (Inr ev, s\<lparr>ss_tr := tr, ss_recv := recv,
    ss_bytesIn := ss_bytesIn s + word_of_nat (length wire), ss_frmIn := ss_frmIn s + 1\<rparr>)"
  using assms by (simp add: Recv_def)

lemma Recv_Inl:
  assumes "Recv T C s = (Inl e, s')"
  shows "(ss_closed s \<and> e = ErrClosedPipe \<and> s' = s) \<or> (\<not> ss_closed s \<and> (\<exists>s1. s' = closeUnderlying T s1 \<and>
    ss_closed s1 = ss_closed s \<and> ss_closeOnce s1 = ss_closeOnce s \<and> ss_send s1 = ss_send s))"
  using assms by (auto simp: Recv_def Let_def split: if_splits sum.splits prod.splits)

section \<open>Requests and events\<close>

text \<open>The sending calls of a session, and making a list of them until one fails.\<close>

datatype send_req =
    ReqTCPData bytes
  | ReqUDPNew bytes Address bytes
  | ReqUDPData bytes Address bytes
  | ReqUDPEnd bytes
  | ReqProbeReq bytes
  | ReqProbeResp bytes Address
  | ReqPing bytes
  | ReqPong bytes
  | ReqCoverPad int

fun do_send ::
  "'t transport \<Rightarrow> crypto \<Rightarrow> (nat \<Rightarrow> int) \<Rightarrow> 't SecureStream \<Rightarrow> send_req \<Rightarrow> bytes \<Rightarrow>
   ewp_error option \<times> 't SecureStream \<times> bytes" where
  "do_send T C now s (ReqTCPData p) rnd = SendTCPData T C now s p rnd"
| "do_send T C now s (ReqUDPNew gid a p) rnd = SendUDPNew T C (now 0) s gid a p rnd"
| "do_send T C now s (ReqUDPData gid a p) rnd = SendUDPData T C (now 0) s gid a p rnd"
| "do_send T C now s (ReqUDPEnd gid) rnd = SendUDPEnd T C (now 0) s gid rnd"
| "do_send T C now s (ReqProbeReq gid) rnd = SendProbeReq T C (now 0) s gid rnd"
| "do_send T C now s (ReqProbeResp gid a) rnd = SendProbeResp T C (now 0) s gid a rnd"
| "do_send T C now s (ReqPing c) rnd = SendPing T C (now 0) s c rnd"
| "do_send T C now s (ReqPong c) rnd = SendPong T C (now 0) s c rnd"
| "do_send T C now s (ReqCoverPad n) rnd = SendCoverPad T C (now 0) s n rnd"

fun send_reqs ::
  "'t transport \<Rightarrow> crypto \<Rightarrow> (nat \<Rightarrow> int) \<Rightarrow> 't SecureStream \<Rightarrow> send_req list \<Rightarrow> bytes \<Rightarrow>
   ewp_error option \<times> 't SecureStream \<times> bytes" where
  "send_reqs T C now s [] rnd = (None, s, rnd)"
| "send_reqs T C now s (q # qs) rnd =
     (case do_send T C now s q rnd of
        (Some e, s', rnd') \<Rightarrow> (Some e, s', rnd')
      | (None, s', rnd') \<Rightarrow> send_reqs T C now s' qs rnd')"

fun recv_all :: "'t transport \<Rightarrow> crypto \<Rightarrow> nat \<Rightarrow> 't SecureStream \<Rightarrow> (ewp_error + Event list) \<times> 't SecureStream" where
  "recv_all T C 0 s = (Inr [], s)"
| "recv_all T C (Suc n) s =
     (case Recv T C s of
        (Inl e, s') \<Rightarrow> (Inl e, s')
      | (Inr ev, s') \<Rightarrow>
          (case recv_all T C n s' of (Inl e, s'') \<Rightarrow> (Inl e, s'') | (Inr evs, s'') \<Rightarrow> (Inr (ev # evs), s'')))"

text \<open>
  What the peer is to receive for a request: one event, and for TCP data one event per
  piece. \<open>delivers\<close> leaves open where the payload is cut, not what it is.
\<close>

definition mk_event :: "byte \<Rightarrow> bytes \<Rightarrow> Event" where
  "mk_event t p = \<lparr>ev_Type = t, ev_GlobalID = replicate 8 0, ev_Address = Address_zero,
     ev_HasAddr = False, ev_Payload = p\<rparr>"

definition udp_event :: "byte \<Rightarrow> bytes \<Rightarrow> Address \<Rightarrow> bytes \<Rightarrow> Event" where
  "udp_event t gid a p = \<lparr>ev_Type = t, ev_GlobalID = gid,
     ev_Address = (if has_target a then canon a else Address_zero),
     ev_HasAddr = has_target a, ev_Payload = p\<rparr>"

fun req_delivers :: "send_req \<Rightarrow> Event list \<Rightarrow> bool" where
  "req_delivers (ReqTCPData p) evs \<longleftrightarrow>
     evs = map (mk_event FrameTCPData) (map ev_Payload evs) \<and> concat (map ev_Payload evs) = p \<and>
     (if length p \<le> reshapeThreshold then length evs = 1
      else (\<forall>ev \<in> set evs. ev_Payload ev \<noteq> [] \<and> length (ev_Payload ev) \<le> 12288) \<and>
        (\<forall>ev \<in> set (butlast evs). 4096 \<le> length (ev_Payload ev)))"
| "req_delivers (ReqUDPNew gid a p) evs \<longleftrightarrow> evs = [udp_event FrameUDPNew gid a p]"
| "req_delivers (ReqUDPData gid a p) evs \<longleftrightarrow> evs = [udp_event FrameUDPData gid a p]"
| "req_delivers (ReqUDPEnd gid) evs \<longleftrightarrow> evs = [udp_event FrameUDPEnd gid Address_zero []]"
| "req_delivers (ReqProbeReq gid) evs \<longleftrightarrow> evs = [udp_event FrameUDPProbeReq gid Address_zero []]"
| "req_delivers (ReqProbeResp gid a) evs \<longleftrightarrow> evs = [udp_event FrameUDPProbeResp gid a []]"
| "req_delivers (ReqPing c) evs \<longleftrightarrow> evs = [mk_event FramePing c]"
| "req_delivers (ReqPong c) evs \<longleftrightarrow> evs = [mk_event FramePong c]"
| "req_delivers (ReqCoverPad n) evs \<longleftrightarrow> evs = [mk_event FramePaddingOnly []]"

inductive delivers :: "send_req list \<Rightarrow> Event list \<Rightarrow> bool" where
  nothing: "delivers [] []"
| request: "req_delivers q es \<Longrightarrow> delivers qs evs \<Longrightarrow> delivers (q # qs) (es @ evs)"

inductive_simps delivers_Nil [simp]: "delivers [] evs"
inductive_simps delivers_Cons: "delivers (q # qs) evs"

text \<open>The arguments have their declared types: 8-byte GlobalIDs, well-formed addresses.\<close>

fun wf_req :: "send_req \<Rightarrow> bool" where
  "wf_req (ReqUDPNew gid a p) \<longleftrightarrow> length gid = 8 \<and> wf_Address a"
| "wf_req (ReqUDPData gid a p) \<longleftrightarrow> length gid = 8 \<and> wf_Address a"
| "wf_req (ReqUDPEnd gid) \<longleftrightarrow> length gid = 8"
| "wf_req (ReqProbeReq gid) \<longleftrightarrow> length gid = 8"
| "wf_req (ReqProbeResp gid a) \<longleftrightarrow> length gid = 8 \<and> wf_Address a"
| "wf_req _ \<longleftrightarrow> True"

lemma has_target_zero [simp]: "\<not> has_target Address_zero"
  by (simp add: has_target_def IsDomain_def AddrPort_IsValid_def Address_zero_def AddrPort_zero_def)

lemma event_of_mk:
  "t \<in> {FrameTCPData, FramePing, FramePong, FramePaddingOnly} \<Longrightarrow>
     event_of \<lparr>df_Counter = c, df_Type = t, df_Meta = [], df_Payload = p\<rparr> = Inr (mk_event t p)"
  by (auto simp: event_of_def mk_event_def frame_types)

lemma event_of_udp:
  assumes "t \<in> {FrameUDPNew, FrameUDPData, FrameUDPProbeResp}" and "length gid = 8" and "wf_Address a"
    and "buildUDPMeta gid a = Inr meta"
  shows "event_of \<lparr>df_Counter = c, df_Type = t, df_Meta = meta, df_Payload = p\<rparr> = Inr (udp_event t gid a p)"
  using assms(1) udp_meta_roundtrip [OF assms(2-4)] by (auto simp: event_of_def udp_event_def)

lemma event_of_gid:
  assumes "t \<in> {FrameUDPEnd, FrameUDPProbeReq}" and "length gid = 8"
  shows "event_of \<lparr>df_Counter = c, df_Type = t, df_Meta = gid, df_Payload = []\<rparr> = Inr (udp_event t gid Address_zero [])"
  using assms by (auto simp: event_of_def udp_event_def frame_types)

text \<open>A run of frames whose events are known; runs compose.\<close>

definition sends_events :: "crypto \<Rightarrow> FrameAEAD \<Rightarrow> bytes list \<Rightarrow> Event list \<Rightarrow> FrameAEAD \<Rightarrow> bool" where
  "sends_events C f ms evs f' \<longleftrightarrow> (\<exists>ss. frames_sent C f ss f' \<and> ms = map sf_wire ss \<and>
     map event_of (map sf_frame ss) = map Inr evs)"

lemma frames_sent_append:
  "frames_sent C f ss f' \<Longrightarrow> frames_sent C f' ss' f'' \<Longrightarrow> frames_sent C f (ss @ ss') f''"
  by (induction rule: frames_sent.induct) (auto intro: frames_sent.frame)

lemma sends_events_Nil: "sends_events C f [] [] f"
  by (auto simp: sends_events_def intro: frames_sent.none)

lemma sends_events_append:
  "sends_events C f ms evs f' \<Longrightarrow> sends_events C f' ms' evs' f'' \<Longrightarrow>
     sends_events C f (ms @ ms') (evs @ evs') f''"
  unfolding sends_events_def by (elim exE conjE) (rule exI, auto intro: frames_sent_append)

lemma sends_events_one:
  assumes "frame_fits t meta payload (int (length pad))"
    and "event_of \<lparr>df_Counter = fa_counter f, df_Type = t, df_Meta = meta, df_Payload = payload\<rparr> = Inr ev"
  shows "sends_events C f [frame_wire C f t meta payload pad] [ev] (bump f)"
  unfolding sends_events_def
  using assms(2) by (intro exI [of _ "[sent_of C f t meta payload pad]"] conjI frames_sent.frame [OF assms(1)] frames_sent.none)
    (simp_all add: sent_of_def)

lemma sends_events_wf: "sends_events C f ms evs f' \<Longrightarrow> wf_fa f' = wf_fa f"
  unfolding sends_events_def using frames_sent_state by (fastforce simp: wf_fa_def)

lemma chunk_size_range:
  "fst (chunk_size len rnd) \<le> 12288 \<and> (fst (chunk_size len rnd) < len \<longrightarrow> 4096 \<le> fst (chunk_size len rnd))"
  using secureRandIntn_range [of 8193 rnd]
  by (auto simp: chunk_size_def ewp_consts split: prod.splits)

section \<open>Any transport that meets the contract\<close>

context message_transport
begin

text \<open>
  \<open>sent_run C s evs s'\<close>: on the way from \<open>s\<close> to \<open>s'\<close> frames with the events \<open>evs\<close> have
  gone out, and nothing else has happened to cipher states, input and closing.
\<close>

definition sent_run :: "crypto \<Rightarrow> 't SecureStream \<Rightarrow> Event list \<Rightarrow> 't SecureStream \<Rightarrow> bool" where
  "sent_run C s evs s' \<longleftrightarrow> (\<exists>ms. sends_events C (ss_send s) ms evs (ss_send s') \<and> list_all okm ms \<and>
     outp (ss_tr s') = outp (ss_tr s) @ concat (map enc ms)) \<and>
     inp (ss_tr s') = inp (ss_tr s) \<and> ss_recv s' = ss_recv s \<and> ss_closed s' = ss_closed s"

lemma sent_run_refl: "sent_run C s [] s"
  unfolding sent_run_def by (auto intro!: exI [of _ "[]"] sends_events_Nil)

lemma sent_run_trans:
  assumes "sent_run C s evs s1" and "sent_run C s1 evs' s2"
  shows "sent_run C s (evs @ evs') s2"
proof -
  obtain ms where a: "sends_events C (ss_send s) ms evs (ss_send s1)" "list_all okm ms"
    "outp (ss_tr s1) = outp (ss_tr s) @ concat (map enc ms)" using assms(1) unfolding sent_run_def by blast
  obtain ms' where b: "sends_events C (ss_send s1) ms' evs' (ss_send s2)" "list_all okm ms'"
    "outp (ss_tr s2) = outp (ss_tr s1) @ concat (map enc ms')" using assms(2) unfolding sent_run_def by blast
  have "sends_events C (ss_send s) (ms @ ms') (evs @ evs') (ss_send s2)"
    by (rule sends_events_append [OF a(1) b(1)])
  then show ?thesis
    using a(2,3) b(2,3) assms unfolding sent_run_def by (intro conjI exI [of _ "ms @ ms'"]) auto
qed

lemma sendFrame_run:
  assumes "sendFrame T C now s t meta payload padLen rnd = (None, s', rnd')"
    and "\<And>c. event_of \<lparr>df_Counter = c, df_Type = t, df_Meta = meta, df_Payload = payload\<rparr> = Inr ev"
  shows "sent_run C s [ev] s'"
proof (rule sendFrame_None [OF assms(1)])
  fix pad tr
  let ?w = "frame_wire C (ss_send s) t meta payload pad"
  assume f: "frame_fits t meta payload (int (length pad))"
    and s: "tr_SendMessage T (ss_tr s) ?w = (None, tr)"
    and s': "ss_tr s' = tr" "ss_send s' = bump (ss_send s)" "ss_recv s' = ss_recv s" "ss_closed s' = ss_closed s"
  have "sends_events C (ss_send s) [?w] [ev] (ss_send s')"
    unfolding s'(2) by (rule sends_events_one [OF f assms(2)])
  then show ?thesis
    using send_ok [OF s] s' unfolding sent_run_def by (intro conjI exI [of _ "[?w]"]) auto
qed

lemma send_chunks_run:
  assumes "send_chunks T C now i s payload rnd = (None, s', rnd')"
  shows "\<exists>ps. sent_run C s (map (mk_event FrameTCPData) ps) s' \<and> concat ps = payload \<and>
    (\<forall>p \<in> set ps. p \<noteq> [] \<and> length p \<le> 12288) \<and> (\<forall>p \<in> set (butlast ps). 4096 \<le> length p)"
  using assms
proof (induction "length payload" arbitrary: i s payload rnd rule: less_induct)
  case less
  show ?case
  proof (cases "payload = []")
    case True
    with less.prems show ?thesis
      by (intro exI [of _ "[]"]) (auto simp: send_chunks.simps sent_run_refl)
  next
    case False
    define n r where "n = fst (chunk_size (length payload) rnd)" and "r = snd (chunk_size (length payload) rnd)"
    obtain s1 r1 where f: "sendFrame T C (now i) s FrameTCPData [] (take n payload) (-1) r = (None, s1, r1)"
      and rest: "send_chunks T C now (Suc i) s1 (drop n payload) r1 = (None, s', rnd')"
      using less.prems False unfolding send_chunks.simps [of T C now i s payload rnd] n_def r_def
      by (auto split: prod.splits option.splits)
    have n: "take n payload \<noteq> []" "length (drop n payload) < length payload"
      "length (take n payload) \<le> 12288" "drop n payload \<noteq> [] \<Longrightarrow> 4096 \<le> length (take n payload)"
      using chunk_size_pos [of "length payload" rnd] chunk_size_range [of "length payload" rnd] False
      by (auto simp: n_def)
    have one: "sent_run C s [mk_event FrameTCPData (take n payload)] s1"
      by (rule sendFrame_run [OF f]) (simp add: event_of_mk)
    obtain ps where ps: "sent_run C s1 (map (mk_event FrameTCPData) ps) s'" "concat ps = drop n payload"
      "\<forall>p \<in> set ps. p \<noteq> [] \<and> length p \<le> 12288" "\<forall>p \<in> set (butlast ps). 4096 \<le> length p"
      using less.hyps [OF n(2) rest] by blast
    have "ps \<noteq> [] \<Longrightarrow> concat ps \<noteq> []"
      using ps(3) by (cases ps) auto
    then have big: "ps \<noteq> [] \<Longrightarrow> 4096 \<le> length (take n payload)"
      using n(4) ps(2) by metis
    show ?thesis
    proof (intro exI [of _ "take n payload # ps"] conjI)
      show "sent_run C s (map (mk_event FrameTCPData) (take n payload # ps)) s'"
        using sent_run_trans [OF one ps(1)] by simp
      show "\<forall>p \<in> set (butlast (take n payload # ps)). 4096 \<le> length p"
        using big ps(4) by (cases "ps = []") (auto simp del: length_take)
    qed (use n(1,3) ps(2,3) in \<open>simp_all del: length_take take_eq_Nil\<close>)
  qed
qed

lemma send_udp_meta_run:
  assumes "send_udp_meta t T C now s gid a p rnd = (None, s', rnd')"
    and "t \<in> {FrameUDPNew, FrameUDPData, FrameUDPProbeResp}" and "length gid = 8" and "wf_Address a"
  shows "sent_run C s [udp_event t gid a p] s'"
proof -
  obtain meta where m: "buildUDPMeta gid a = Inr meta"
    and f: "sendFrame T C now s t meta p (-1) rnd = (None, s', rnd')"
    using assms(1) by (auto simp: send_udp_meta_def split: sum.splits)
  show ?thesis
    by (rule sendFrame_run [OF f]) (rule event_of_udp [OF assms(2-4) m])
qed

lemma do_send_run:
  assumes "do_send T C now s q rnd = (None, s', rnd')" and "wf_req q"
  shows "\<exists>evs. sent_run C s evs s' \<and> req_delivers q evs"
proof (cases q)
  case (ReqTCPData p)
  show ?thesis
  proof (cases "length p \<le> reshapeThreshold")
    case True
    with assms ReqTCPData have "sent_run C s [mk_event FrameTCPData p] s'"
      by (intro sendFrame_run) (auto simp: SendTCPData_def event_of_mk)
    with True ReqTCPData show ?thesis
      by (intro exI [of _ "[mk_event FrameTCPData p]"]) (simp add: mk_event_def)
  next
    case False
    with assms ReqTCPData have "send_chunks T C now 0 s p rnd = (None, s', rnd')"
      by (simp add: SendTCPData_def)
    from send_chunks_run [OF this] obtain ps where
      ps: "sent_run C s (map (mk_event FrameTCPData) ps) s'" "concat ps = p"
      "\<forall>p \<in> set ps. p \<noteq> [] \<and> length p \<le> 12288" "\<forall>p \<in> set (butlast ps). 4096 \<le> length p"
      by blast
    have "map ev_Payload (map (mk_event FrameTCPData) ps) = ps"
      by (simp add: mk_event_def comp_def)
    with ps False ReqTCPData show ?thesis
      by (intro exI [of _ "map (mk_event FrameTCPData) ps"]) (auto simp: mk_event_def comp_def simp flip: map_butlast)
  qed
qed (use assms in \<open>auto simp: SendUDPNew_def SendUDPData_def SendProbeResp_def SendUDPEnd_def SendProbeReq_def
    SendPing_def SendPong_def SendCoverPad_def event_of_mk event_of_gid intro: send_udp_meta_run sendFrame_run\<close>)

lemma send_reqs_run:
  assumes "send_reqs T C now s qs rnd = (None, s', rnd')" and "list_all wf_req qs"
  shows "\<exists>evs. sent_run C s evs s' \<and> delivers qs evs"
  using assms
proof (induction qs arbitrary: s rnd)
  case Nil
  then show ?case by (auto intro: sent_run_refl)
next
  case (Cons q qs)
  then obtain s1 r1 where q: "do_send T C now s q rnd = (None, s1, r1)" and r: "send_reqs T C now s1 qs r1 = (None, s', rnd')"
    by (auto split: prod.splits option.splits)
  obtain es where "sent_run C s es s1" "req_delivers q es"
    using do_send_run [OF q] Cons.prems(2) by auto
  moreover obtain evs where "sent_run C s1 evs s'" "delivers qs evs"
    using Cons.IH [OF r] Cons.prems(2) by auto
  ultimately show ?case
    by (meson sent_run_trans delivers.request)
qed

text \<open>The receiving side: frames sealed from its own cipher state on come out as their events.\<close>

lemma recv_all_run:
  assumes "frames_sent C f ss f'" and "aead_ok C" and "wf_fa f"
    and "map event_of (map sf_frame ss) = map Inr evs"
    and "ss_recv r = f" and "\<not> ss_closed r" and "opn (ss_tr r)" and "list_all okm (map sf_wire ss)"
    and "inp (ss_tr r) = concat (map enc (map sf_wire ss)) @ rest"
  shows "\<exists>r'. recv_all T C (length evs) r = (Inr evs, r') \<and> ss_recv r' = f' \<and> ss_send r' = ss_send r \<and>
    \<not> ss_closed r' \<and> opn (ss_tr r') \<and> inp (ss_tr r') = rest \<and> outp (ss_tr r') = outp (ss_tr r)"
  using assms
proof (induction arbitrary: r evs rule: frames_sent.induct)
  case (frame t meta payload pad f ss f')
  let ?w = "frame_wire C f t meta payload pad"
  let ?df = "\<lparr>df_Counter = fa_counter f, df_Type = t, df_Meta = meta, df_Payload = payload\<rparr>"
  obtain ev evs' where evs: "evs = ev # evs'" "event_of ?df = Inr ev"
    "map event_of (map sf_frame ss) = map Inr evs'"
    using frame.prems(3) by (cases evs) (auto simp: sent_of_def)
  obtain tr where tr: "tr_ReadMessage T (ss_tr r) = (Inr ?w, tr)" "opn tr"
    "inp tr = concat (map enc (map sf_wire ss)) @ rest" "outp tr = outp (ss_tr r)"
    using read_ok [of "ss_tr r" ?w "concat (map enc (map sf_wire ss)) @ rest"] frame.prems(6-8)
    by (auto simp: sent_of_def)
  have "DecodeFrame C (?w @ []) (ss_recv r) = (Inr ?df, [], bump f)"
    unfolding frame.prems(4) by (rule DecodeFrame_frame_wire [OF frame.prems(1,2) frame.hyps(1)])
  then have R: "Recv T C r = (Inr ev, r\<lparr>ss_tr := tr, ss_recv := bump f,
      ss_bytesIn := ss_bytesIn r + word_of_nat (length ?w), ss_frmIn := ss_frmIn r + 1\<rparr>)"
    by (intro Recv_intro [OF frame.prems(5) tr(1) _ evs(2)]) simp
  define r1 where "r1 = r\<lparr>ss_tr := tr, ss_recv := bump f,
      ss_bytesIn := ss_bytesIn r + word_of_nat (length ?w), ss_frmIn := ss_frmIn r + 1\<rparr>"
  have "\<exists>r'. recv_all T C (length evs') r1 = (Inr evs', r') \<and> ss_recv r' = f' \<and> ss_send r' = ss_send r1 \<and>
      \<not> ss_closed r' \<and> opn (ss_tr r') \<and> inp (ss_tr r') = rest \<and> outp (ss_tr r') = outp (ss_tr r1)"
    using frame.prems evs(3) tr by (intro frame.IH) (auto simp: r1_def)
  with R evs(1) tr(4) show ?case by (auto simp: r1_def)
qed auto

text \<open>Whatever was sent arrives, in order, at a peer whose receiving state is the sender's sending state.\<close>

lemma channel_delivers:
  assumes "aead_ok C" and "wf_fa (ss_send s)" and "list_all wf_req qs"
    and "send_reqs T C now s qs rnd = (None, s', rnd')" and "outp (ss_tr s') = outp (ss_tr s) @ w"
    and "ss_recv r = ss_send s" and "\<not> ss_closed r" and "opn (ss_tr r)" and "inp (ss_tr r) = w @ rest"
  shows "\<exists>evs r'. delivers qs evs \<and> recv_all T C (length evs) r = (Inr evs, r') \<and>
    ss_recv r' = ss_send s' \<and> ss_send r' = ss_send r \<and> \<not> ss_closed r' \<and> opn (ss_tr r') \<and> inp (ss_tr r') = rest"
proof -
  obtain evs where e: "sent_run C s evs s'" "delivers qs evs"
    using send_reqs_run [OF assms(4,3)] by blast
  obtain ss where ss: "frames_sent C (ss_send s) ss (ss_send s')" "list_all okm (map sf_wire ss)"
    "outp (ss_tr s') = outp (ss_tr s) @ concat (map enc (map sf_wire ss))" "map event_of (map sf_frame ss) = map Inr evs"
    using e(1) unfolding sent_run_def sends_events_def by blast
  have w: "inp (ss_tr r) = concat (map enc (map sf_wire ss)) @ rest"
    using ss(3) assms(5,9) by simp
  show ?thesis
    using recv_all_run [OF ss(1) assms(1,2) ss(4) assms(6-8) ss(2) w] e(2) by blast
qed

end

section \<open>Sending succeeds on LengthFramer\<close>

lemma suggestStreamPad_rnd: "length rnd \<le> length (snd (suggestStreamPad raw i rnd)) + 4"
  by (auto simp: suggestStreamPad_def padToBucket_def secureRandIntn_def io_ReadFull_def Let_def
      split: if_splits prod.splits sum.splits)

lemma chunk_size_rnd: "length rnd \<le> length (snd (chunk_size n rnd)) + 4"
  by (auto simp: chunk_size_def secureRandIntn_def io_ReadFull_def split: if_splits prod.splits sum.splits)

lemma sendFrame_lf:
  assumes "aead_ok C" and "wf_fa (ss_send s)" and "\<not> ss_closed s" and "FrameType_Valid t"
    and "length meta \<le> 1024" and "33 + length meta + length payload \<le> 65532" and "4100 \<le> length rnd"
    and "lf_open (ss_tr s)" and "65536 \<le> nc_room (lf_c (ss_tr s))"
  shows "\<exists>s' rnd'. sendFrame lf_transport C now s t meta payload (-1) rnd = (None, s', rnd') \<and>
    wf_fa (ss_send s') \<and> \<not> ss_closed s' \<and> lf_open (ss_tr s') \<and>
    nc_room (lf_c (ss_tr s)) \<le> nc_room (lf_c (ss_tr s')) + 65536 \<and> length rnd \<le> length rnd' + 4100"
proof -
  let ?raw = "int (frameHeaderSize + length meta + length payload + aeadTagLen)"
  obtain pl r1 where p: "suggestStreamPad ?raw (sint (ss_frmOut s)) rnd = (pl, r1)"
    by (metis prod.exhaust)
  have b: "0 \<le> pl" "pl \<le> 4096" "?raw + pl \<le> 65532"
    using stream_pad_range [of ?raw "sint (ss_frmOut s)" rnd] p assms(6) by (simp_all add: ewp_consts)
  have l: "length rnd \<le> length r1 + 4"
    using suggestStreamPad_rnd [of rnd ?raw "sint (ss_frmOut s)"] p by simp
  have fits: "frame_fits t meta payload pl"
    using assms(4,5) b by (simp add: frame_fits_def ewp_consts)
  have pad: "nat pl \<le> length r1"
    using b(2) l assms(7) by simp
  let ?w = "frame_wire C (ss_send s) t meta payload (take (nat pl) r1)"
  note e = EncodeFrameAppend_fits [OF fits pad, of C "[]" "ss_send s"]
  have w: "length ?w \<le> 65532"
    using length_frame_wire [OF assms(1,2), of t meta payload "take (nat pl) r1"] pad b by (simp add: ewp_consts)
  obtain f where f: "LengthFramer_SendMessage (ss_tr s) ?w = (None, f)" "lf_open f"
    "nc_room (lf_c f) = nc_room (lf_c (ss_tr s)) - (4 + length ?w)"
    using SendMessage_room [OF assms(8), of ?w] w assms(9) by (auto simp: lf_ok_def)
  show ?thesis
    using assms(2,3) p e f w l b(2) assms(9) by (auto simp: sendFrame_def sendFrame_locked_def Let_def lf_transport_def)
qed

text \<open>The number of pieces a payload of the given length is cut into is at most this.\<close>

definition max_pieces :: "nat \<Rightarrow> nat" where
  "max_pieces n = (n + 4095) div 4096"

lemma send_chunks_lf:
  assumes "aead_ok C" and "wf_fa (ss_send s)" and "\<not> ss_closed s" and "lf_open (ss_tr s)"
    and "65536 * max_pieces (length payload) \<le> nc_room (lf_c (ss_tr s))"
    and "4104 * max_pieces (length payload) \<le> length rnd"
  shows "\<exists>s' rnd'. send_chunks lf_transport C now i s payload rnd = (None, s', rnd')"
  using assms
proof (induction "length payload" arbitrary: i s payload rnd rule: less_induct)
  case less
  show ?case
  proof (cases "payload = []")
    case True
    then show ?thesis by (simp add: send_chunks.simps)
  next
    case False
    define n r where "n = fst (chunk_size (length payload) rnd)" and "r = snd (chunk_size (length payload) rnd)"
    have n: "0 < n" "n \<le> length payload" "n \<le> 12288" "n < length payload \<longrightarrow> 4096 \<le> n"
      using chunk_size_pos [of "length payload" rnd] chunk_size_range [of "length payload" rnd] False
      by (auto simp: n_def)
    have r: "length rnd \<le> length r + 4"
      unfolding r_def by (rule chunk_size_rnd)
    have m: "1 \<le> max_pieces (length payload)"
      using False by (simp add: max_pieces_def Suc_le_eq div_greater_zero_iff)
    have step: "max_pieces (length payload - n) + 1 \<le> max_pieces (length payload)"
      using n m by (cases "n = length payload") (auto simp: max_pieces_def)
    obtain s1 r1 where f: "sendFrame lf_transport C (now i) s FrameTCPData [] (take n payload) (-1) r = (None, s1, r1)"
      and s1: "wf_fa (ss_send s1)" "\<not> ss_closed s1" "lf_open (ss_tr s1)"
        "nc_room (lf_c (ss_tr s)) \<le> nc_room (lf_c (ss_tr s1)) + 65536" "length r \<le> length r1 + 4100"
      using sendFrame_lf [OF less.prems(1-3), of FrameTCPData "[]" "take n payload" r "now i"] less.prems(4-6) n m r
      by (auto simp: FrameType_Valid_def)
    have "\<exists>s' rnd'. send_chunks lf_transport C now (Suc i) s1 (drop n payload) r1 = (None, s', rnd')"
    proof (rule less.hyps)
      show "length (drop n payload) < length payload" using n False by simp
      show "65536 * max_pieces (length (drop n payload)) \<le> nc_room (lf_c (ss_tr s1))"
        using step less.prems(5) s1(4) by simp
      show "4104 * max_pieces (length (drop n payload)) \<le> length r1"
        using step less.prems(6) s1(5) r by simp
    qed (use less.prems(1) s1 in simp_all)
    with f False show ?thesis
      unfolding send_chunks.simps [of lf_transport C now i s payload rnd] n_def r_def by simp
  qed
qed

lemma NewFrameAEAD_ok: "length key = 32 \<Longrightarrow> NewFrameAEAD key prefix = Inr \<lparr>fa_aead = key, fa_prefix = prefix, fa_counter = 0\<rparr>"
  by (simp add: NewFrameAEAD_def)

lemma new_streams:
  assumes "wf_keys keys"
  shows "NewClientSecureStream tc keys = Inr (new_stream tc
      \<lparr>fa_aead = C2SKey keys, fa_prefix = C2SNonce keys, fa_counter = 0\<rparr>
      \<lparr>fa_aead = S2CKey keys, fa_prefix = S2CNonce keys, fa_counter = 0\<rparr>)"
    and "NewServerSecureStream ts keys = Inr (new_stream ts
      \<lparr>fa_aead = S2CKey keys, fa_prefix = S2CNonce keys, fa_counter = 0\<rparr>
      \<lparr>fa_aead = C2SKey keys, fa_prefix = C2SNonce keys, fa_counter = 0\<rparr>)"
  using assms by (simp_all add: NewClientSecureStream_def NewServerSecureStream_def NewFrameAEAD_ok wf_keys_def)

section \<open>Properties\<close>

text \<open>A concrete stream over an empty connection, and its peer.\<close>

definition toy_keys :: SessionKeys where
  "toy_keys = \<lparr>C2SKey = replicate 32 1, S2CKey = replicate 32 2, C2SNonce = replicate 4 3, S2CNonce = replicate 4 4\<rparr>"

abbreviation toy_conn :: "bytes \<Rightarrow> net_conn" where
  "toy_conn b \<equiv> prompt_conn b 1000000"

lemma toy_keys_wf: "wf_keys toy_keys"
  by (simp add: toy_keys_def wf_keys_def)

text \<open>
  Client and server streams built from the same session keys fit together: both constructors
  succeed on keys of the declared lengths, each side's receiving cipher state is the other
  side's sending state, and both streams start open.
\<close>
theorem streams_pair_up:
  assumes "wf_keys keys"
  shows "\<exists>c s. NewClientSecureStream tc keys = Inr c \<and> NewServerSecureStream ts keys = Inr s \<and>
    ss_recv s = ss_send c \<and> ss_recv c = ss_send s \<and> wf_fa (ss_send c) \<and> wf_fa (ss_send s) \<and>
    ss_tr c = tc \<and> ss_tr s = ts \<and> \<not> ss_closed c \<and> \<not> ss_closed s"
  using assms by (simp add: new_streams [OF assms] new_stream_def wf_keys_def wf_fa_def)

theorem streams_pair_up_witness:
  "\<exists>c s. NewClientSecureStream (0 :: nat) toy_keys = Inr c \<and> NewServerSecureStream (1 :: nat) toy_keys = Inr s \<and>
     ss_recv s = ss_send c \<and> ss_recv c = ss_send s"
  using streams_pair_up [OF toy_keys_wf, of "0 :: nat" "1 :: nat"] by blast

text \<open>
  C5: The session is a reliable channel. When a side has made any sequence of sending calls (TCP data,
  UDP datagrams, probes, pings, cover frames), all of which returned without error, a peer
  in the matching cipher state whose connection carries the bytes written, without timing out, receives exactly
  the events of those calls, in order: TCP payloads cut into pieces whose concatenation is
  the payload, every datagram with its GlobalID, canonical target and payload. Afterwards the
  two cipher states match again and only what followed is left to read.
\<close>
theorem session_delivers:
  assumes "aead_ok C" and "wf_fa (ss_send s)" and "\<forall>q \<in> set qs. wf_req q"
    and "send_reqs lf_transport C now s qs rnd = (None, s', rnd')"
    and "ss_recv r = ss_send s" and "\<not> ss_closed r" and "conn_ready (lf_c (ss_tr r))"
    and "nc_in (lf_c (ss_tr r)) = drop (length (nc_out (lf_c (ss_tr s)))) (nc_out (lf_c (ss_tr s'))) @ rest"
  shows "\<exists>evs r'. delivers qs evs \<and> recv_all lf_transport C (length evs) r = (Inr evs, r') \<and>
    ss_recv r' = ss_send s' \<and> \<not> ss_closed r' \<and> nc_in (lf_c (ss_tr r')) = rest"
proof -
  have q: "list_all wf_req qs" using assms(3) by (simp add: list_all_iff)
  obtain evs where "lf.sent_run C s evs s'"
    using lf.send_reqs_run [OF assms(4) q] by blast
  then obtain w where w: "lf_out (ss_tr s') = lf_out (ss_tr s) @ w"
    unfolding lf.sent_run_def by blast
  have i: "lf_in (ss_tr r) = w @ rest" "lf_open (ss_tr r)"
    using w assms(7,8) by (simp_all add: lf_out_def lf_in_def lf_open_def)
  show ?thesis
    using lf.channel_delivers [OF assms(1,2) q assms(4) w assms(5,6) i(2,1)] by (auto simp: lf_in_def)
qed

text \<open>
  TCP data is always sent. On an open stream over an open connection with room for it and without time-outs, with enough
  randomness, \<^verbatim>\<open>SendTCPData\<close> terminates without error for a payload of any length: no piece
  is ever too large for a frame, and no padded frame too large for the transport.
\<close>
theorem tcp_data_sent:
  assumes "aead_ok C" and "wf_fa (ss_send s)" and "\<not> ss_closed s" and "conn_ready (lf_c (ss_tr s))"
    and "65536 * (length p div 4096 + 1) \<le> nc_room (lf_c (ss_tr s))" and "4104 * (length p div 4096 + 1) \<le> length rnd"
  shows "\<exists>s' rnd'. SendTCPData lf_transport C now s p rnd = (None, s', rnd')"
proof (cases "length p \<le> reshapeThreshold")
  case True
  then show ?thesis
    using sendFrame_lf [OF assms(1-3), of FrameTCPData "[]" p rnd "now 0"] assms(4-6)
    by (auto simp: SendTCPData_def FrameType_Valid_def lf_open_def ewp_consts)
next
  case False
  have "max_pieces (length p) \<le> length p div 4096 + 1"
    by (simp add: max_pieces_def)
  with assms(5,6) have "65536 * max_pieces (length p) \<le> nc_room (lf_c (ss_tr s))"
    "4104 * max_pieces (length p) \<le> length rnd"
    by (meson le_trans mult_le_mono2)+
  with send_chunks_lf [OF assms(1-3)] False assms(4) show ?thesis
    by (simp add: SendTCPData_def lf_open_def)
qed

lemma toy_streams:
  "NewClientSecureStream tc toy_keys = Inr c \<Longrightarrow> wf_fa (ss_send c) \<and> \<not> ss_closed c \<and> ss_tr c = tc"
  using toy_keys_wf by (auto simp: new_streams [OF toy_keys_wf] new_stream_def wf_keys_def wf_fa_def)

theorem tcp_data_sent_witness:
  "\<exists>c s' rnd'. NewClientSecureStream (NewLengthFramer (toy_conn [])) toy_keys = Inr c \<and>
     SendTCPData lf_transport toy_crypto (\<lambda>_. 0) c (replicate 20000 5) (replicate 50000 0) = (None, s', rnd')"
proof -
  obtain c where c: "NewClientSecureStream (NewLengthFramer (toy_conn [])) toy_keys = Inr c"
    by (rule that) (rule new_streams(1) [OF toy_keys_wf])
  note p = toy_streams [OF c]
  obtain s' rnd' where "SendTCPData lf_transport toy_crypto (\<lambda>_. 0) c (replicate 20000 5) (replicate 50000 0) = (None, s', rnd')"
    using tcp_data_sent [OF toy_aead_ok, of c "replicate 20000 5" "replicate 50000 0" "\<lambda>_. 0"] p
    by (auto simp: NewLengthFramer_def)
  with c show ?thesis by (intro exI conjI)
qed

theorem session_delivers_witness:
  "\<exists>s s' rnd' evs r r'. send_reqs lf_transport toy_crypto (\<lambda>_. 0) s [ReqTCPData [1, 2, 3]] (replicate 5000 0) = (None, s', rnd') \<and>
     delivers [ReqTCPData [1, 2, 3]] evs \<and> recv_all lf_transport toy_crypto (length evs) r = (Inr evs, r')"
proof -
  obtain c where c: "NewClientSecureStream (NewLengthFramer (toy_conn [])) toy_keys = Inr c"
    by (rule that) (rule new_streams(1) [OF toy_keys_wf])
  note p = toy_streams [OF c]
  obtain s' rnd' where s: "sendFrame lf_transport toy_crypto 0 c FrameTCPData [] [1, 2, 3] (-1) (replicate 5000 0) = (None, s', rnd')"
    using sendFrame_lf [OF toy_aead_ok, of c FrameTCPData "[]" "[1, 2, 3]" "replicate 5000 0" 0] p
    by (auto simp: FrameType_Valid_def lf_open_def NewLengthFramer_def)
  have q: "send_reqs lf_transport toy_crypto (\<lambda>_. 0) c [ReqTCPData [1, 2, 3]] (replicate 5000 0) = (None, s', rnd')"
    using s by (simp add: SendTCPData_def ewp_consts)
  define r where "r = new_stream (NewLengthFramer (toy_conn (drop (length (nc_out (lf_c (ss_tr c)))) (nc_out (lf_c (ss_tr s'))))))
    (ss_recv c) (ss_send c)"
  have "\<exists>evs r'. delivers [ReqTCPData [1, 2, 3]] evs \<and> recv_all lf_transport toy_crypto (length evs) r = (Inr evs, r') \<and>
      ss_recv r' = ss_send s' \<and> \<not> ss_closed r' \<and> nc_in (lf_c (ss_tr r')) = []"
    using p by (intro session_delivers [OF toy_aead_ok _ _ q]) (simp_all add: r_def new_stream_def NewLengthFramer_def)
  then show ?thesis
    by (elim exE conjE) (intro exI conjI, rule q)
qed

text \<open>
  C25: What is received was sent. When \<^verbatim>\<open>Recv\<close> returns an event, the message it consumed begins with a
  frame sealed in exactly the receiver's cipher state, whose meta and payload give that
  event; the state has moved on by one. Bytes after the frame in the same message are
  not looked at.
\<close>
theorem recv_sound:
  assumes "aead_ok C" and "aead_auth C" and "wf_fa (ss_recv r)" and "Recv lf_transport C r = (Inr ev, r')"
  shows "\<exists>t meta payload pad junk. frame_fits t meta payload (int (length pad)) \<and>
    nc_in (lf_c (ss_tr r)) = lf_enc (frame_wire C (ss_recv r) t meta payload pad @ junk) @ nc_in (lf_c (ss_tr r')) \<and>
    event_of \<lparr>df_Counter = fa_counter (ss_recv r), df_Type = t, df_Meta = meta, df_Payload = payload\<rparr> = Inr ev \<and>
    ss_recv r' = bump (ss_recv r) \<and> ss_send r' = ss_send r"
proof (rule Recv_Inr [OF assms(4)])
  fix wire tr df junk recv
  assume m: "tr_ReadMessage lf_transport (ss_tr r) = (Inr wire, tr)"
    and d: "DecodeFrame C wire (ss_recv r) = (Inr df, junk, recv)" and ev: "event_of df = Inr ev"
    and r': "r' = r\<lparr>ss_tr := tr, ss_recv := recv, ss_bytesIn := ss_bytesIn r + word_of_nat (length wire),
            ss_frmIn := ss_frmIn r + 1\<rparr>"
  obtain pad where p: "frame_fits (df_Type df) (df_Meta df) (df_Payload df) (int (length pad))"
    "wire = frame_wire C (ss_recv r) (df_Type df) (df_Meta df) (df_Payload df) pad @ junk"
    "df_Counter df = fa_counter (ss_recv r)" "recv = bump (ss_recv r)"
    by (rule DecodeFrame_sound [OF assms(1-3) d])
  have "event_of \<lparr>df_Counter = fa_counter (ss_recv r), df_Type = df_Type df, df_Meta = df_Meta df, df_Payload = df_Payload df\<rparr> = Inr ev"
    using p(3) ev by (cases df) simp
  with lf.read_sound [OF m] p(1,2,4) r' show ?thesis
    by (intro exI [of _ "df_Type df"] exI [of _ "df_Meta df"] exI [of _ "df_Payload df"] exI [of _ pad] exI [of _ junk])
      (simp add: lf_in_def)
qed

lemma toy_recv:
  obtains r ev r' where "wf_fa (ss_recv r)" "Recv lf_transport toy_crypto r = (Inr ev, r')"
    "ev_Payload ev = [104, 105]"
proof -
  let ?w = "frame_wire toy_crypto toy_fa FrameTCPData [] [104, 105] []"
  let ?r = "new_stream (NewLengthFramer (toy_conn (lf_enc ?w @ []))) toy_fa toy_fa"
  have "length ?w \<le> 65536"
    using length_frame_wire [OF toy_aead_ok wf_toy_fa, of FrameTCPData "[]" "[104, 105]" "[]"] by simp
  then have "lf_ok ?w" by (simp add: lf_ok_def)
  from ReadMessage_enc [OF _ _ this, of "NewLengthFramer (toy_conn (lf_enc ?w @ []))" "[]"]
  obtain f where "LengthFramer_ReadMessage (NewLengthFramer (toy_conn (lf_enc ?w @ []))) = (Inr ?w, f)"
    by (auto simp: NewLengthFramer_def lf_open_def lf_in_def)
  then have m: "tr_ReadMessage lf_transport (ss_tr ?r) = (Inr ?w, f)"
    by (simp only: new_stream_def lf_transport_def SecureStream.simps transport.simps)
  have d: "DecodeFrame toy_crypto ?w (ss_recv ?r) =
      (Inr \<lparr>df_Counter = 5, df_Type = FrameTCPData, df_Meta = [], df_Payload = [104, 105]\<rparr>, [], bump toy_fa)"
    using DecodeFrame_frame_wire [OF toy_aead_ok wf_toy_fa, of FrameTCPData "[]" "[104, 105]" "[]" "[]"] toy_fits(2)
    by (simp add: new_stream_def toy_fa_def)
  have e: "event_of \<lparr>df_Counter = 5, df_Type = FrameTCPData, df_Meta = [], df_Payload = [104, 105]\<rparr> =
      Inr (mk_event FrameTCPData [104, 105])"
    by (rule event_of_mk) simp
  have c: "\<not> ss_closed ?r" by (simp add: new_stream_def)
  show thesis
    by (rule that [OF _ Recv_intro [OF c m d e]]) (simp_all add: new_stream_def wf_toy_fa mk_event_def)
qed

theorem recv_sound_witness:
  "\<exists>r ev r'. Recv lf_transport toy_crypto r = (Inr ev, r') \<and> ss_recv r' = bump (ss_recv r) \<and> ev_Payload ev = [104, 105]"
proof -
  obtain r ev r' where r: "wf_fa (ss_recv r)" "Recv lf_transport toy_crypto r = (Inr ev, r')" "ev_Payload ev = [104, 105]"
    by (rule toy_recv)
  have "ss_recv r' = bump (ss_recv r)"
    using recv_sound [OF toy_aead_ok toy_aead_auth r(1,2)] by (elim exE conjE)
  with r(2,3) show ?thesis by (intro exI conjI)
qed

text \<open>
  Reshaping leaves payloads of 8193 to 12288 bytes whole: although they are above the threshold,
  \<^verbatim>\<open>SendTCPData\<close> does with them exactly what it does with a small payload, one
  frame with all of it.
\<close>
theorem tcp_medium_payload_unsplit:
  assumes "8192 < length p" and "length p \<le> 12288"
  shows "SendTCPData T C now s p rnd = sendFrame T C (now 0) s FrameTCPData [] p (-1) rnd"
proof -
  have c: "chunk_size (length p) rnd = (length p, rnd)"
    using assms(2) by (simp add: chunk_size_def ewp_consts)
  have "p \<noteq> []" using assms(1) by auto
  then have "send_chunks T C now 0 s p rnd = sendFrame T C (now 0) s FrameTCPData [] p (-1) rnd"
    by (subst send_chunks.simps) (simp add: c send_chunks.simps [of _ _ _ _ _ "[]"] split: prod.split option.split)
  with assms(1) show ?thesis by (simp add: SendTCPData_def ewp_consts)
qed

theorem tcp_medium_payload_unsplit_witness:
  "SendTCPData lf_transport toy_crypto (\<lambda>_. 0)
       (new_stream (NewLengthFramer (toy_conn [])) toy_fa toy_fa) (replicate 12288 7) [] =
     sendFrame lf_transport toy_crypto 0 (new_stream (NewLengthFramer (toy_conn [])) toy_fa toy_fa) FrameTCPData [] (replicate 12288 7) (-1) []"
  by (rule tcp_medium_payload_unsplit) simp_all

text \<open>
  A frame the encoder accepts can be too large for the transport. A frame with 65504 to 65507 bytes
  of meta and payload together is encoded, then refused by \<^verbatim>\<open>LengthFramer\<close>, and
  the refusal closes the whole session and its connection; one byte more and the encoder
  refuses it without any effect.
\<close>
theorem oversized_frame_closes_session:
  assumes "aead_ok C" and "wf_fa (ss_send s)" and "\<not> ss_closed s" and "\<not> ss_closeOnce s"
    and "FrameType_Valid t" and "length meta \<le> 1024" and "65504 \<le> length meta + length payload"
  shows "\<exists>s' rnd' e. sendFrame lf_transport C now s t meta payload (-1) rnd = (Some e, s', rnd') \<and>
    root_cause e = ErrFrameTooLarge \<and>
    (if length meta + length payload \<le> 65507 then ss_closed s' \<and> nc_closed (lf_c (ss_tr s')) else s' = s)"
proof -
  let ?raw = "int (frameHeaderSize + length meta + length payload + aeadTagLen)"
  obtain pl r1 where p: "suggestStreamPad ?raw (sint (ss_frmOut s)) rnd = (pl, r1)"
    by (metis prod.exhaust)
  have pl: "pl = 0"
    using stream_pad_range [of ?raw "sint (ss_frmOut s)" rnd] p assms(7) by (simp add: ewp_consts)
  show ?thesis
  proof (cases "length meta + length payload \<le> 65507")
    case True
    have fits: "frame_fits t meta payload 0"
      using assms(5,6) True by (simp add: frame_fits_def ewp_consts)
    note e = EncodeFrameAppend_fits [OF fits, of r1 C "[]" "ss_send s"]
    have "LengthFramer_SendMessage f (frame_wire C (ss_send s) t meta payload []) = (Some ErrFrameTooLarge, f)" for f
      using length_frame_wire [OF assms(1,2), of t meta payload "[]"] assms(7)
      by (simp add: LengthFramer_SendMessage_def ewp_consts)
    moreover obtain x f where x: "LengthFramer_Close (ss_tr s) = (x, f)" "nc_closed (lf_c f)"
      by (cases "nc_closed (lf_c (ss_tr s))") (auto simp: LengthFramer_Close_def conn_Close_def)
    ultimately show ?thesis
      using p pl e assms(3,4) True
      by (auto simp: sendFrame_def sendFrame_locked_def Let_def lf_transport_def closeUnderlying_def SecureStream_Close_def split: option.split)
  next
    case False
    have "EncodeFrameAppend C [] (ss_send s) t meta payload 0 r1 = (([], Some ErrFrameTooLarge), ss_send s, r1)"
      using assms(5,6) False by (simp add: EncodeFrameAppend_eq Let_def ewp_consts)
    with p pl assms(3) False show ?thesis
      by (simp add: sendFrame_def sendFrame_locked_def Let_def)
  qed
qed

theorem oversized_frame_closes_session_witness:
  "\<exists>c s' rnd' e. NewClientSecureStream (NewLengthFramer (toy_conn [])) toy_keys = Inr c \<and>
     sendFrame lf_transport toy_crypto 0 c FrameUDPData (replicate 8 1) (replicate 65496 2) (-1) [] = (Some e, s', rnd') \<and>
     ss_closed s'"
proof -
  obtain c where c: "NewClientSecureStream (NewLengthFramer (toy_conn [])) toy_keys = Inr c"
    by (rule that) (rule new_streams(1) [OF toy_keys_wf])
  have "\<not> ss_closeOnce c"
    using c by (auto simp: new_streams [OF toy_keys_wf] new_stream_def)
  then obtain s' rnd' e where "sendFrame lf_transport toy_crypto 0 c FrameUDPData (replicate 8 1) (replicate 65496 2) (-1) [] = (Some e, s', rnd')"
    "ss_closed s'"
    using oversized_frame_closes_session [OF toy_aead_ok, of c FrameUDPData "replicate 8 1" "replicate 65496 2" 0 "[]"]
      toy_streams [OF c] by (auto simp: FrameType_Valid_def)
  with c show ?thesis by (intro exI conjI)
qed

end
