(* ===== verification/Lifecycle.thy ===== *)
theory Lifecycle
  imports Channel
begin

text \<open>
  The life of one \<^verbatim>\<open>SecureStream\<close>: all its calls as the steps of a state machine, the
  invariant of the reachable states, and what a closed stream does. Then the types the calls keep, and
  cover traffic with its loop.
\<close>

section \<open>A session as a state machine\<close>

text \<open>
  The calls an application and the cover-traffic loop make on one stream, in any order,
  with any arguments, clock readings and randomness.
\<close>

inductive session_step :: "'t transport \<Rightarrow> crypto \<Rightarrow> 't SecureStream \<Rightarrow> 't SecureStream \<Rightarrow> bool" for T C where
  step_send: "do_send T C now s q rnd = (res, s', rnd') \<Longrightarrow> session_step T C s s'"
| step_recv: "Recv T C s = (res, s') \<Longrightarrow> session_step T C s s'"
| step_close: "SecureStream_Close T s = (res, s') \<Longrightarrow> session_step T C s s'"
| step_start: "StartCoverTraffic s cfg = (b, s') \<Longrightarrow> session_step T C s s'"
| step_tick: "cover_tick T C cfg stopped now now_send s rnd = (d, s', rnd') \<Longrightarrow> session_step T C s s'"

inductive session_reach :: "'t transport \<Rightarrow> crypto \<Rightarrow> 't SecureStream \<Rightarrow> 't SecureStream \<Rightarrow> bool" for T C s0 where
  reach_init: "session_reach T C s0 s0"
| reach_step: "session_reach T C s0 s \<Longrightarrow> session_step T C s s' \<Longrightarrow> session_reach T C s0 s'"

text \<open>
  \<open>stream_inv shut s\<close>: the closed flag, the \<^verbatim>\<open>sync.Once\<close> and the transport agree; a stop
  channel exists exactly when cover traffic was started; while the stream is open, the
  statistics count the frames of the two cipher states.
\<close>

definition stream_inv :: "('t \<Rightarrow> bool) \<Rightarrow> 't SecureStream \<Rightarrow> bool" where
  "stream_inv shut s \<longleftrightarrow> ss_closed s = ss_closeOnce s \<and> (ss_closed s \<longrightarrow> shut (ss_tr s)) \<and>
     (ss_coverStarted s \<longleftrightarrow> ss_coverStop s \<noteq> None) \<and>
     (\<not> ss_closed s \<longrightarrow> fa_counter (ss_send s) = ss_frmOut s \<and> fa_counter (ss_recv s) = ss_frmIn s)"

text \<open>Sending on a closed stream.\<close>

lemma sendFrame_closed: "ss_closed s \<Longrightarrow> sendFrame T C now s t meta payload padLen rnd = (Some ErrClosedPipe, s, rnd)"
  by (simp add: sendFrame_def)

lemma do_send_closed:
  assumes "ss_closed s" and "do_send T C now s q rnd = (res, s', rnd')"
  shows "s' = s \<and> res \<noteq> None"
proof -
  have *: "sendFrame T C n s t meta payload padLen rnd = (Some ErrClosedPipe, s, rnd)" for n t meta payload padLen rnd
    by (rule sendFrame_closed [OF assms(1)])
  have "send_chunks T C now 0 s p rnd = (Some ErrClosedPipe, s, snd (chunk_size (length p) rnd))" if "\<not> length p \<le> 8192" for p
    using that by (subst send_chunks.simps) (auto simp: *)
  with assms(2) show ?thesis
    by (cases q) (auto simp: SendTCPData_def SendUDPNew_def SendUDPData_def SendProbeResp_def SendUDPEnd_def
        SendProbeReq_def SendPing_def SendPong_def SendCoverPad_def send_udp_meta_def * ewp_consts
        split: if_splits sum.splits)
qed

text \<open>A property that \<^verbatim>\<open>sendFrame\<close> keeps is kept by every sending call.\<close>

lemma do_send_keeps:
  assumes "do_send T C now s q rnd = (res, s', rnd')" and "P s"
    and keeps: "\<And>now s t meta payload padLen rnd res s' rnd'. P s \<Longrightarrow>
      sendFrame T C now s t meta payload padLen rnd = (res, s', rnd') \<Longrightarrow> P s'"
  shows "P s'"
proof -
  have chunks: "P s'" if "P s" "send_chunks T C now i s p rnd = (res, s', rnd')" for i s p rnd
    using that
  proof (induction "length p" arbitrary: i s p rnd rule: less_induct)
    case less
    show ?case
    proof (cases "p = []")
      case True
      with less.prems show ?thesis by (simp add: send_chunks.simps)
    next
      case False
      let ?n = "fst (chunk_size (length p) rnd)"
      obtain r1 s1 x where f: "sendFrame T C (now i) s FrameTCPData [] (take ?n p) (-1)
          (snd (chunk_size (length p) rnd)) = (x, s1, r1)"
        by (metis prod.exhaust)
      have s1: "P s1" by (rule keeps [OF less.prems(1) f])
      have l: "length (drop ?n p) < length p"
        using chunk_size_pos [of "length p" rnd] False by simp
      from less.prems(2) False f less.hyps [OF l s1] s1 show ?thesis
        unfolding send_chunks.simps [of T C now i s p rnd] by (auto split: option.splits)
    qed
  qed
  from assms(1,2) show ?thesis
    by (cases q) (auto simp: SendTCPData_def SendUDPNew_def SendUDPData_def SendProbeResp_def SendUDPEnd_def
        SendProbeReq_def SendPing_def SendPong_def SendCoverPad_def send_udp_meta_def
        split: if_splits sum.splits intro: keeps chunks)
qed

context message_transport
begin

lemma Close_inv:
  assumes "ss_closed s = ss_closeOnce s" and "ss_closed s \<longrightarrow> shut (ss_tr s)"
    and "ss_coverStarted s \<longleftrightarrow> ss_coverStop s \<noteq> None" and "SecureStream_Close T s = (res, s')"
  shows "stream_inv shut s' \<and> ss_closed s'"
proof (cases "ss_closeOnce s")
  case True
  with assms show ?thesis by (auto simp: SecureStream_Close_def stream_inv_def)
next
  case False
  obtain e tr where c: "tr_Close T (ss_tr s) = (e, tr)" by (metis prod.exhaust)
  from assms False c close_shuts [OF c] show ?thesis
    by (cases "ss_coverStop s") (auto simp: SecureStream_Close_def stream_inv_def)
qed

lemma closeUnderlying_inv:
  assumes "ss_closed s = ss_closeOnce s" and "ss_closed s \<longrightarrow> shut (ss_tr s)"
    and "ss_coverStarted s \<longleftrightarrow> ss_coverStop s \<noteq> None"
  shows "stream_inv shut (closeUnderlying T s) \<and> ss_closed (closeUnderlying T s)"
  using Close_inv [OF assms] by (cases "SecureStream_Close T s") (auto simp: closeUnderlying_def)

lemma sendFrame_inv:
  assumes "stream_inv shut s" and "sendFrame T C now s t meta payload padLen rnd = (res, s', rnd')"
  shows "stream_inv shut s'"
proof (cases res)
  case None
  have "ss_coverStarted s' = ss_coverStarted s" "ss_coverStop s' = ss_coverStop s"
    using assms(2) None by (auto simp: sendFrame_def sendFrame_locked_def Let_def split: if_splits prod.splits option.splits)
  then show ?thesis
    by (rule_tac sendFrame_None [OF assms(2) [unfolded None]]) (use assms(1) in \<open>auto simp: stream_inv_def\<close>)
next
  case (Some e)
  show ?thesis
    using assms(2) [unfolded Some]
  proof (cases rule: sendFrame_Some)
    case (transport wire x tr)
    then show ?thesis
      using assms(1) closeUnderlying_inv [of "s\<lparr>ss_send := bump (ss_send s), ss_tr := tr\<rparr>"]
      by (auto simp: stream_inv_def)
  qed (use assms(1) in auto)
qed

lemma Recv_inv:
  assumes "stream_inv shut s" and "Recv T C s = (res, s')"
  shows "stream_inv shut s' \<and> (\<forall>e. res = Inl e \<longrightarrow> ss_closed s')"
proof (cases "ss_closed s")
  case True
  with assms show ?thesis by (auto simp: Recv_def)
next
  case False
  have c: "stream_inv shut (closeUnderlying T s1) \<and> ss_closed (closeUnderlying T s1)"
    if "ss_closed s1 = ss_closed s" "ss_closeOnce s1 = ss_closeOnce s"
      "ss_coverStarted s1 = ss_coverStarted s" "ss_coverStop s1 = ss_coverStop s" for s1
    using closeUnderlying_inv [of s1] assms(1) False that by (auto simp: stream_inv_def)
  show ?thesis
  proof (cases res)
    case (Inl e)
    with assms(2) False c show ?thesis
      by (auto simp: Recv_def Let_def split: if_splits sum.splits prod.splits)
  next
    case (Inr ev)
    show ?thesis
    proof (rule Recv_Inr [OF assms(2) [unfolded Inr]])
      fix wire tr df rest recv
      assume d: "DecodeFrame C wire (ss_recv s) = (Inr df, rest, recv)"
        and s': "s' = s\<lparr>ss_tr := tr, ss_recv := recv, ss_bytesIn := ss_bytesIn s + word_of_nat (length wire),
            ss_frmIn := ss_frmIn s + 1\<rparr>"
      from assms(1) False s' DecodeFrame_accept_state [OF d] Inr show ?thesis
        by (auto simp: stream_inv_def)
    qed
  qed
qed

lemma step_inv:
  assumes "session_step T C s s'" and "stream_inv shut s"
  shows "stream_inv shut s'"
  using assms
proof (cases rule: session_step.cases)
  case (step_send now q rnd res rnd')
  show ?thesis
    by (rule do_send_keeps [where P = "stream_inv shut", OF step_send assms(2)]) (rule sendFrame_inv)
next
  case step_recv
  with assms(2) Recv_inv show ?thesis by blast
next
  case step_close
  with assms(2) Close_inv [of s] show ?thesis by (auto simp: stream_inv_def)
next
  case (step_start cfg b)
  with assms(2) show ?thesis by (auto simp: StartCoverTraffic_def stream_inv_def split: if_splits)
next
  case (step_tick cfg stopped now now_send rnd d rnd')
  with assms(2) sendFrame_inv [of s] show ?thesis
    by (auto simp: cover_tick_def SendCoverPad_def split: if_splits prod.splits)
qed

lemma reach_inv:
  assumes "session_reach T C s0 s" and "stream_inv shut s0"
  shows "stream_inv shut s"
  using assms by (induction rule: session_reach.induct) (auto intro: step_inv)

end

text \<open>Once closed, always closed, and nothing goes out or comes in any more.\<close>

lemma step_closed:
  assumes "session_step T C s s'" and "ss_closed s" and "ss_closeOnce s"
  shows "ss_closed s' \<and> ss_closeOnce s' \<and> ss_tr s' = ss_tr s \<and> ss_send s' = ss_send s \<and> ss_recv s' = ss_recv s"
  using assms
proof (cases rule: session_step.cases)
  case (step_send now q rnd res rnd')
  with do_send_closed [OF assms(2) this] assms show ?thesis by simp
next
  case step_recv
  with assms show ?thesis by (auto simp: Recv_def)
next
  case step_close
  with assms show ?thesis by (auto simp: SecureStream_Close_def)
next
  case step_start
  with assms show ?thesis by (auto simp: StartCoverTraffic_def split: if_splits)
next
  case step_tick
  with assms show ?thesis by (auto simp: cover_tick_def split: if_splits)
qed

lemma reach_closed:
  assumes "session_reach T C s s'" and "ss_closed s" and "ss_closeOnce s"
  shows "ss_closed s' \<and> ss_closeOnce s' \<and> ss_tr s' = ss_tr s \<and> ss_send s' = ss_send s \<and> ss_recv s' = ss_recv s"
  using assms by (induction rule: session_reach.induct) (auto dest: step_closed)

section \<open>Cover traffic\<close>

lemma nextDelay_bounds:
  assumes "nextDelay cfg rnd = (d, rnd')" and "cc_span cfg = Some n" and "1 \<le> n"
  shows "cc_Interval cfg - n div 2 \<le> d \<and> d < cc_Interval cfg + n - n div 2"
  using assms secureRandIntn_range [of n rnd]
  by (auto simp: nextDelay_def go_div_nonneg split: prod.splits if_splits)

text \<open>The delays the jitter allows: the interval, give or take half the span.\<close>

definition delay_ok :: "CoverConfig \<Rightarrow> int \<Rightarrow> bool" where
  "delay_ok cfg n = (case cc_span cfg of
     None \<Rightarrow> n = cc_Interval cfg
   | Some spn \<Rightarrow> if spn < 1 then n = cc_Interval cfg
       else cc_Interval cfg - spn div 2 \<le> n \<and> n < cc_Interval cfg + spn - spn div 2)"

lemma nextDelay_ok: "nextDelay cfg rnd = (n, rnd') \<Longrightarrow> delay_ok cfg n"
  using nextDelay_bounds [of cfg rnd n rnd'] by (auto simp: delay_ok_def nextDelay_def split: option.splits if_splits)

lemma closeUnderlying_lastSend [simp]: "ss_lastSendNs (closeUnderlying T s) = ss_lastSendNs s"
  by (auto simp: closeUnderlying_def SecureStream_Close_def Let_def split: prod.splits option.splits)

lemma SendCoverPad_lastSend:
  "ss_lastSendNs (fst (snd (SendCoverPad T C now s padLen rnd))) = ss_lastSendNs s"
  by (auto simp: SendCoverPad_def sendFrame_def sendFrame_locked_def Let_def split: prod.splits option.splits)

lemma fresh_stream_inv:
  assumes "NewClientSecureStream tr keys = Inr s0 \<or> NewServerSecureStream tr keys = Inr s0"
  shows "stream_inv P s0"
  using assms
  by (auto simp: NewClientSecureStream_def NewServerSecureStream_def NewFrameAEAD_def newChaChaAEAD_def
      stream_inv_def new_stream_def split: sum.splits if_splits)

section \<open>Types\<close>

text \<open>
  \<open>wf_event\<close>: what a Go \<^verbatim>\<open>Event\<close> may look like. A known frame type, an 8-byte GlobalID, an address with
  a well-formed IP; \<^verbatim>\<open>HasAddr\<close> tells whether there is an address, which then is one the wire can
  carry, in canonical form, and only on the frame types that have one; without it the address
  is the zero value.
\<close>

definition wf_event :: "Event \<Rightarrow> bool" where
  "wf_event ev \<longleftrightarrow> FrameType_Valid (ev_Type ev) \<and> length (ev_GlobalID ev) = 8 \<and>
     (if ev_HasAddr ev
      then encodable (ev_Address ev) \<and> canon (ev_Address ev) = ev_Address ev \<and> has_target (ev_Address ev) \<and>
        ev_Type ev \<in> {FrameUDPNew, FrameUDPData, FrameUDPProbeResp}
      else ev_Address ev = Address_zero)"

lemma encodable_target: "encodable a \<Longrightarrow> has_target a"
  by (auto simp: encodable_def has_target_def split: if_splits)

lemma parseUDPMeta_typed:
  assumes "parseUDPMeta meta = Inr (gid, a, h)"
  shows "length gid = 8 \<and> (if h then encodable a \<and> canon a = a \<and> has_target a else a = Address_zero)"
  using assms DecodeAddress_sound [of "drop 8 meta" a] encodable_target [of a]
  by (auto simp: parseUDPMeta_def Let_def split: if_splits sum.splits)

lemma event_of_typed:
  assumes "event_of df = Inr ev" and "FrameType_Valid (df_Type df)"
  shows "wf_event ev"
  using assms parseUDPMeta_typed [of "df_Meta df"]
  by (fastforce simp: event_of_def wf_event_def Let_def split: if_splits sum.splits prod.splits)

lemma Recv_typed: "Recv T C s = (Inr ev, s') \<Longrightarrow> wf_event ev"
  by (erule Recv_Inr) (auto dest: event_of_typed DecodeFrame_accept_state)

text \<open>The keys and nonce prefixes of the two cipher states, which no call changes.\<close>

definition stream_keys :: "'t SecureStream \<Rightarrow> (bytes \<times> bytes) \<times> (bytes \<times> bytes)" where
  "stream_keys s = ((fa_aead (ss_send s), fa_prefix (ss_send s)), (fa_aead (ss_recv s), fa_prefix (ss_recv s)))"

lemma closeUnderlying_keys [simp]: "stream_keys (closeUnderlying T s) = stream_keys s"
  by (auto simp: stream_keys_def closeUnderlying_def SecureStream_Close_def Let_def split: prod.splits option.splits)

lemma sendFrame_keys:
  assumes "sendFrame T C now s t meta payload padLen rnd = (res, s', rnd')"
  shows "stream_keys s' = stream_keys s"
proof (cases res)
  case None
  from assms [unfolded None] show ?thesis by (rule sendFrame_None) (simp add: stream_keys_def bump_def)
next
  case (Some e)
  from assms [unfolded Some] show ?thesis by (cases rule: sendFrame_Some) (simp_all, simp add: stream_keys_def bump_def)
qed

lemma Recv_keys:
  assumes "Recv T C s = (res, s')"
  shows "stream_keys s' = stream_keys s"
proof (cases res)
  case (Inl e)
  have r: "fa_aead f' = fa_aead f \<and> fa_prefix f' = fa_prefix f" if "DecodeFrame C w f = (x, y, f')" for w f x y f'
    using that by (cases x) (auto dest: DecodeFrame_fail_state DecodeFrame_accept_state simp: bump_def)
  show ?thesis
    using assms Inl by (auto simp: Recv_def Let_def split: if_splits prod.splits sum.splits)
      (auto simp: stream_keys_def dest: r)
next
  case (Inr ev)
  from assms [unfolded Inr] show ?thesis
    by (rule Recv_Inr) (auto simp: stream_keys_def bump_def dest: DecodeFrame_accept_state)
qed

lemma step_keys:
  assumes "session_step T C s s'"
  shows "stream_keys s' = stream_keys s"
  using assms
proof (cases rule: session_step.cases)
  case (step_send now q rnd res rnd')
  show ?thesis
    by (rule do_send_keeps [where P = "\<lambda>s'. stream_keys s' = stream_keys s", OF step_send refl]) (simp add: sendFrame_keys)
next
  case step_recv
  then show ?thesis by (rule Recv_keys)
next
  case step_close
  then show ?thesis using closeUnderlying_keys [of T s] by (simp add: closeUnderlying_def)
next
  case step_start
  then show ?thesis by (auto simp: StartCoverTraffic_def stream_keys_def split: if_splits)
next
  case step_tick
  then show ?thesis by (auto simp: cover_tick_def SendCoverPad_def split: if_splits prod.splits dest: sendFrame_keys)
qed

lemma reach_keys: "session_reach T C s0 s \<Longrightarrow> stream_keys s = stream_keys s0"
  by (induction rule: session_reach.induct) (simp_all add: step_keys)

section \<open>The cover-traffic loop\<close>

text \<open>\<^verbatim>\<open>DefaultCoverConfig\<close>; its jitter span is \<^verbatim>\<open>int(float64(500ms) * 0.5 * 2)\<close>.\<close>

definition DefaultCoverConfig :: CoverConfig where
  "DefaultCoverConfig = \<lparr>cc_Interval = 500 * 1000000, cc_IdleAfter = 500 * 1000000, cc_span = Some 500000000\<rparr>"

text \<open>
  \<^verbatim>\<open>coverLoop\<close>. While it waits for its timer the rest of the program goes on: \<open>wait i\<close> takes the
  stream at the beginning of the \<open>i\<close>-th wait to what the \<^verbatim>\<open>select\<close> finds at its end, that
  is whether it took the closed stop channel, the two clock readings of the iteration, and the
  stream as the other goroutines left it. The result is the number of waits and the stream.
\<close>

partial_function (option) cover_waits ::
  "'t transport \<Rightarrow> crypto \<Rightarrow> CoverConfig \<Rightarrow> (nat \<Rightarrow> 't SecureStream \<Rightarrow> bool \<times> int \<times> int \<times> 't SecureStream) \<Rightarrow>
   nat \<Rightarrow> 't SecureStream \<Rightarrow> bytes \<Rightarrow> (nat \<times> 't SecureStream) option" where
  "cover_waits T C cfg wait i s rnd =
     (case wait i s of (stopped, now, now_send, s) \<Rightarrow>
        (case cover_tick T C cfg stopped now now_send s rnd of
           (None, s, rnd) \<Rightarrow> Some (Suc i, s)
         | (Some d, s, rnd) \<Rightarrow> cover_waits T C cfg wait (Suc i) s rnd))"

definition coverLoop ::
  "'t transport \<Rightarrow> crypto \<Rightarrow> CoverConfig \<Rightarrow> (nat \<Rightarrow> 't SecureStream \<Rightarrow> bool \<times> int \<times> int \<times> 't SecureStream) \<Rightarrow>
   't SecureStream \<Rightarrow> bytes \<Rightarrow> (nat \<times> 't SecureStream) option" where
  "coverLoop T C cfg wait s rnd = (case nextDelay cfg rnd of (d, rnd) \<Rightarrow> cover_waits T C cfg wait 0 s rnd)"

lemma cover_waits_ends:
  assumes "\<And>s. fst (wait n s) \<or> ss_closed (snd (snd (snd (wait n s))))" and "i \<le> n"
  shows "\<exists>k s'. cover_waits T C cfg wait i s rnd = Some (k, s') \<and> k \<le> Suc n"
  using assms(2)
proof (induction "n - i" arbitrary: i s rnd)
  case 0
  then have "i = n" by simp
  obtain stopped now now_send s1 where w: "wait i s = (stopped, now, now_send, s1)" by (metis prod_cases4)
  with assms(1) [of s] \<open>i = n\<close> have "stopped \<or> ss_closed s1" by simp
  with w \<open>i = n\<close> show ?case
    by (subst cover_waits.simps) (auto simp: cover_tick_def)
next
  case (Suc m)
  obtain stopped now now_send s1 where w: "wait i s = (stopped, now, now_send, s1)" by (metis prod_cases4)
  obtain d s2 rnd2 where t: "cover_tick T C cfg stopped now now_send s1 rnd = (d, s2, rnd2)" by (metis prod_cases3)
  show ?case
  proof (cases d)
    case None
    with w t Suc.hyps(2) show ?thesis by (subst cover_waits.simps) simp
  next
    case (Some x)
    have "\<exists>k s'. cover_waits T C cfg wait (Suc i) s2 rnd2 = Some (k, s') \<and> k \<le> Suc n"
      by (rule Suc.hyps(1)) (use Suc.hyps(2) in simp_all)
    with w t Some show ?thesis by (subst cover_waits.simps) simp
  qed
qed

text \<open>By default a tick comes a quarter to three quarters of a second after the last.\<close>

lemma default_cover_delay:
  "nextDelay DefaultCoverConfig rnd = (d, rnd') \<Longrightarrow> 250000000 \<le> d \<and> d < 750000000"
  using nextDelay_ok [of DefaultCoverConfig rnd d rnd'] by (simp add: delay_ok_def DefaultCoverConfig_def)

section \<open>Properties\<close>

text \<open>
  C19: The invariant of a session. In every state that a fresh client or server stream can reach, by any
  calls in any order and with any results, the closed flag, the \<^verbatim>\<open>sync.Once\<close> of \<^verbatim>\<open>Close\<close> and the
  connection agree: a closed stream has a closed connection. While the stream is open, the frame
  counters of \<^verbatim>\<open>Stats\<close> are the AEAD counters of the two directions. A stop channel exists
  exactly when cover traffic was started.
\<close>
theorem session_invariant:
  assumes "NewClientSecureStream tr keys = Inr s0 \<or> NewServerSecureStream tr keys = Inr s0"
    and "session_reach lf_transport C s0 s"
  shows "ss_closed s = ss_closeOnce s \<and> (ss_closed s \<longrightarrow> nc_closed (lf_c (ss_tr s))) \<and>
    (ss_coverStarted s \<longleftrightarrow> ss_coverStop s \<noteq> None) \<and>
    (\<not> ss_closed s \<longrightarrow> FrameAEAD_Counter (ss_send s) = ss_frmOut s \<and> FrameAEAD_Counter (ss_recv s) = ss_frmIn s)"
  using lf.reach_inv [OF assms(2) fresh_stream_inv [OF assms(1)]]
  by (auto simp: stream_inv_def lf_shut_def FrameAEAD_Counter_def)

theorem session_invariant_witness:
  "\<exists>c s. NewClientSecureStream (NewLengthFramer (toy_conn [])) toy_keys = Inr c \<and>
     Recv lf_transport toy_crypto c = (Inl EOF, s) \<and> ss_closed s = ss_closeOnce s"
proof -
  obtain c where c: "NewClientSecureStream (NewLengthFramer (toy_conn [])) toy_keys = Inr c"
    by (rule that) (rule new_streams(1) [OF toy_keys_wf])
  have p: "\<not> ss_closed c" "ss_tr c = NewLengthFramer (toy_conn [])"
    using toy_streams [OF c] by simp_all
  obtain s where r: "Recv lf_transport toy_crypto c = (Inl EOF, s)"
    using p by (simp add: Recv_def lf_transport_def LengthFramer_ReadMessage_def NewLengthFramer_def
        conn_ReadFull_def conn_wait_def io_ReadFull_def)
  have "session_reach lf_transport toy_crypto c s"
    by (rule reach_step [OF reach_init step_recv [OF r]])
  then have "ss_closed s = ss_closeOnce s"
    using session_invariant [OF disjI1 [OF c]] by blast
  with c r show ?thesis by (intro exI conjI)
qed

text \<open>
  C26: A failed \<^verbatim>\<open>Recv\<close> is final. When \<^verbatim>\<open>Recv\<close> returns an error, of whatever kind, \<^verbatim>\<open>io.EOF\<close>
  included, the connection is closed, and after any further calls the stream still is: every \<^verbatim>\<open>Recv\<close>
  returns \<^verbatim>\<open>io.ErrClosedPipe\<close>, every sending call fails, and no byte is written any more.
\<close>
theorem recv_failure_final:
  assumes "NewClientSecureStream tr keys = Inr s0 \<or> NewServerSecureStream tr keys = Inr s0"
    and "session_reach lf_transport C s0 s" and "Recv lf_transport C s = (Inl e, s1)"
    and "session_reach lf_transport C s1 s2"
  shows "nc_closed (lf_c (ss_tr s2)) \<and> nc_out (lf_c (ss_tr s2)) = nc_out (lf_c (ss_tr s1)) \<and>
    Recv lf_transport C s2 = (Inl ErrClosedPipe, s2) \<and>
    fst (do_send lf_transport C now s2 q rnd) \<noteq> None"
proof -
  have i: "stream_inv lf_shut s1" "ss_closed s1"
    using lf.Recv_inv [OF lf.reach_inv [OF assms(2) fresh_stream_inv [OF assms(1)]] assms(3)] by simp_all
  then have s2: "ss_closed s2" "ss_tr s2 = ss_tr s1"
    using reach_closed [OF assms(4)] by (simp_all add: stream_inv_def)
  obtain x s3 rnd' where d: "do_send lf_transport C now s2 q rnd = (x, s3, rnd')"
    by (metis prod.exhaust)
  from i s2 do_send_closed [OF s2(1) d] d show ?thesis
    by (simp add: Recv_def stream_inv_def lf_shut_def)
qed

theorem recv_failure_final_witness:
  "\<exists>c s. NewClientSecureStream (NewLengthFramer (toy_conn [])) toy_keys = Inr c \<and>
     Recv lf_transport toy_crypto c = (Inl EOF, s) \<and> Recv lf_transport toy_crypto s = (Inl ErrClosedPipe, s)"
proof -
  obtain c where c: "NewClientSecureStream (NewLengthFramer (toy_conn [])) toy_keys = Inr c"
    by (rule that) (rule new_streams(1) [OF toy_keys_wf])
  have p: "\<not> ss_closed c" "ss_tr c = NewLengthFramer (toy_conn [])"
    using toy_streams [OF c] by simp_all
  obtain s where r: "Recv lf_transport toy_crypto c = (Inl EOF, s)"
    using p by (simp add: Recv_def lf_transport_def LengthFramer_ReadMessage_def NewLengthFramer_def
        conn_ReadFull_def conn_wait_def io_ReadFull_def)
  have "Recv lf_transport toy_crypto s = (Inl ErrClosedPipe, s)"
    using recv_failure_final [OF disjI1 [OF c] reach_init r reach_init] by simp
  with c r show ?thesis by (intro exI conjI)
qed

text \<open>
  One tick of the cover-traffic loop on an open stream. It sends a padding frame exactly when no
  application data was sent for \<^verbatim>\<open>IdleAfter\<close>, ignoring the result; it never resets the
  idle clock itself; it always asks for another tick, after a delay that stays within half
  the jitter span of the interval.
\<close>
theorem cover_tick_behaviour:
  assumes "\<not> ss_closed s" and "cover_tick T C cfg False now now_send s rnd = (d, s', rnd')"
  shows "s' = (if now - ss_lastSendNs s \<ge> cc_IdleAfter cfg then fst (snd (SendCoverPad T C now_send s (-1) rnd)) else s) \<and>
    ss_lastSendNs s' = ss_lastSendNs s \<and>
    (\<exists>n. d = Some n \<and> delay_ok cfg n)"
  using assms nextDelay_ok [of cfg] SendCoverPad_lastSend [of T C now_send s "-1" rnd]
  by (auto simp: cover_tick_def split: if_splits prod.splits)

theorem cover_tick_behaviour_witness:
  "\<exists>d s' rnd'. cover_tick lf_transport toy_crypto \<lparr>cc_Interval = 500, cc_IdleAfter = 500, cc_span = Some 500\<rparr> False 100 100
      (new_stream (NewLengthFramer (toy_conn [])) toy_fa toy_fa) (replicate 4 255) = (Some d, s', rnd') \<and> 250 \<le> d \<and> d < 750"
proof -
  let ?s = "new_stream (NewLengthFramer (toy_conn [])) toy_fa toy_fa"
  let ?cfg = "\<lparr>cc_Interval = 500, cc_IdleAfter = 500, cc_span = Some 500\<rparr>"
  obtain d s' rnd' where t: "cover_tick lf_transport toy_crypto ?cfg False 100 100 ?s (replicate 4 255) = (d, s', rnd')"
    by (rule prod_cases3)
  have "\<not> ss_closed ?s" by (simp add: new_stream_def)
  from cover_tick_behaviour [OF this t] t show ?thesis by (auto simp: delay_ok_def)
qed

text \<open>
  The cover-traffic goroutine does not outlive its stream: if the stream is closed, or its stop channel is, at the end of the
  loop's \<open>n\<close>-th wait, counting from 0, the loop has returned after at most \<open>n + 1\<close> waits, whatever
  the other goroutines did before and whatever its own sends returned.
\<close>
theorem cover_loop_ends:
  assumes "\<And>s. fst (wait n s) \<or> ss_closed (snd (snd (snd (wait n s))))"
  shows "\<exists>k s'. coverLoop T C cfg wait s rnd = Some (k, s') \<and> k \<le> Suc n"
  using cover_waits_ends [of wait n 0, OF assms] by (cases "nextDelay cfg rnd") (simp add: coverLoop_def)

text \<open>
  C20: Types are kept. In every state a fresh stream on well-formed session keys reaches, over any transport,
  both cipher states have a 32-byte key and a 4-byte prefix, the ones they started with. And
  every event \<^verbatim>\<open>Recv\<close> returns, whatever bytes came in, is well-formed: a known frame type, an 8-byte GlobalID,
  and an address exactly when \<^verbatim>\<open>HasAddr\<close> says so, on a frame type that has one, which could be
  encoded again.
\<close>
theorem session_types:
  assumes "wf_keys keys" and "NewClientSecureStream tr keys = Inr s0 \<or> NewServerSecureStream tr keys = Inr s0"
    and "session_reach T C s0 s"
  shows "wf_fa (ss_send s) \<and> wf_fa (ss_recv s) \<and> stream_keys s = stream_keys s0 \<and>
    (\<forall>ev s'. Recv T C s = (Inr ev, s') \<longrightarrow> wf_event ev)"
proof -
  have k: "stream_keys s = stream_keys s0" by (rule reach_keys [OF assms(3)])
  moreover have "wf_fa (ss_send s0) \<and> wf_fa (ss_recv s0)"
    using assms(1,2) by (auto simp: new_streams [OF assms(1)] new_stream_def wf_keys_def wf_fa_def)
  ultimately show ?thesis
    using Recv_typed by (fastforce simp: stream_keys_def wf_fa_def)
qed

theorem session_types_witness:
  "\<exists>c s. NewClientSecureStream (NewLengthFramer (toy_conn [])) toy_keys = Inr c \<and>
     SecureStream_Close lf_transport c = (None, s) \<and> wf_fa (ss_send s)"
proof -
  obtain c where c: "NewClientSecureStream (NewLengthFramer (toy_conn [])) toy_keys = Inr c"
    by (rule that) (rule new_streams(1) [OF toy_keys_wf])
  obtain s where s: "SecureStream_Close lf_transport c = (None, s)"
    using c by (auto simp: new_streams [OF toy_keys_wf] new_stream_def SecureStream_Close_def lf_transport_def
        LengthFramer_Close_def conn_Close_def NewLengthFramer_def)
  have "session_reach lf_transport toy_crypto c s"
    by (rule reach_step [OF reach_init step_close [OF s]])
  from session_types [OF toy_keys_wf disjI1 [OF c] this] c s show ?thesis by blast
qed

end
