(* ===== verification/Conn.thy ===== *)
theory Conn
  imports Lifecycle
begin

text \<open>
  \<^verbatim>\<open>streamConn\<close> of \<^verbatim>\<open>src/client.go\<close>: the \<^verbatim>\<open>net.Conn\<close> an application gets for a TCP
  tunnel. \<^verbatim>\<open>Write\<close> cuts its argument into payloads for \<^verbatim>\<open>SendTCPData\<close>; \<^verbatim>\<open>Read\<close> receives frames
  until it has data and hands it out piecewise. The field \<^verbatim>\<open>underlying\<close> points to the
  connection inside the transport; the model passes its methods as \<open>U\<close>, which act on the
  state of the transport (\<open>None\<close> for nil).

  Shown: \<^verbatim>\<open>Read\<close> passes over empty, padding, ping and pong frames and returns with the first other
  one; it returns by a read deadline, and without one a peer that sends such frames for ever
  holds it for ever; a tunnel is a byte stream, what is written on one end is read at the other, whatever the
  sizes of the buffers; and what \<^verbatim>\<open>Close\<close> reports.
\<close>

section \<open>Operations\<close>

record 't streamConn =
  sc_stream :: "'t SecureStream"
  sc_readBuf :: bytes
  sc_closeOnce :: bool
  sc_closeErr :: "ewp_error option"

definition new_streamConn :: "'t SecureStream \<Rightarrow> 't streamConn" where
  "new_streamConn s = \<lparr>sc_stream = s, sc_readBuf = [], sc_closeOnce = False, sc_closeErr = None\<rparr>"

text \<open>The loop of \<^verbatim>\<open>Read\<close>: \<open>None\<close> as the whole result is a loop that never ends.\<close>

partial_function (option) read_fill ::
  "'t transport \<Rightarrow> crypto \<Rightarrow> 't streamConn \<Rightarrow> (ewp_error option \<times> 't streamConn) option" where
  "read_fill T C c =
     (if sc_readBuf c \<noteq> [] then Some (None, c)
      else case Recv T C (sc_stream c) of
        (Inl err, s) \<Rightarrow> Some (Some err, c\<lparr>sc_stream := s\<rparr>)
      | (Inr ev, s) \<Rightarrow>
          if ev_Type ev = FrameTCPData then
            (if length (ev_Payload ev) = 0 then read_fill T C (c\<lparr>sc_stream := s\<rparr>)
             else read_fill T C (c\<lparr>sc_stream := s, sc_readBuf := ev_Payload ev\<rparr>))
          else if ev_Type ev \<in> set [FramePaddingOnly, FramePing, FramePong] then
            read_fill T C (c\<lparr>sc_stream := s\<rparr>)
          else Some (Some (ErrUnexpectedFrame (ev_Type ev)), c\<lparr>sc_stream := s\<rparr>))"

text \<open>\<^verbatim>\<open>Read\<close> into a buffer of \<open>n\<close> bytes: the bytes copied, or the error.\<close>

definition streamConn_Read ::
  "'t transport \<Rightarrow> crypto \<Rightarrow> 't streamConn \<Rightarrow> nat \<Rightarrow> ((ewp_error + bytes) \<times> 't streamConn) option" where
  "streamConn_Read T C c n =
     (case read_fill T C c of
        None \<Rightarrow> None
      | Some (Some err, c) \<Rightarrow> Some (Inl err, c)
      | Some (None, c) \<Rightarrow>
          Some (Inr (take n (sc_readBuf c)), c\<lparr>sc_readBuf := drop n (sc_readBuf c)\<rparr>))"

definition maxPayload :: nat where "maxPayload = nat (MaxFrameSize - 256)"

text \<open>The loop of \<^verbatim>\<open>Write\<close>; \<open>now i\<close> are the clock readings of its \<open>i\<close>-th round.\<close>

function write_loop ::
  "'t transport \<Rightarrow> crypto \<Rightarrow> (nat \<Rightarrow> nat \<Rightarrow> int) \<Rightarrow> nat \<Rightarrow> nat \<Rightarrow> 't streamConn \<Rightarrow> bytes \<Rightarrow> bytes \<Rightarrow>
   (nat \<times> ewp_error option) \<times> 't streamConn \<times> bytes" where
  "write_loop T C now i written c p rnd =
     (if p = [] then ((written, None), c, rnd)
      else
        (case SendTCPData T C (now i) (sc_stream c) (take maxPayload p) rnd of
           (Some err, s, rnd) \<Rightarrow> ((written, Some err), c\<lparr>sc_stream := s\<rparr>, rnd)
         | (None, s, rnd) \<Rightarrow>
             write_loop T C now (Suc i) (written + length (take maxPayload p)) (c\<lparr>sc_stream := s\<rparr>)
               (drop maxPayload p) rnd))"
  by pat_completeness auto
termination
  by (relation "measure (\<lambda>(T, C, now, i, written, c, p, rnd). length p)") (auto simp: maxPayload_def MaxFrameSize_def)

declare write_loop.simps [simp del]

definition streamConn_Write ::
  "'t transport \<Rightarrow> crypto \<Rightarrow> (nat \<Rightarrow> nat \<Rightarrow> int) \<Rightarrow> 't streamConn \<Rightarrow> bytes \<Rightarrow> bytes \<Rightarrow>
   (nat \<times> ewp_error option) \<times> 't streamConn \<times> bytes" where
  "streamConn_Write T C now c p rnd =
     (if length p = 0 then ((0, None), c, rnd) else write_loop T C now 0 0 c p rnd)"

definition streamConn_Close ::
  "'t transport \<Rightarrow> 't net_methods option \<Rightarrow> 't streamConn \<Rightarrow> ewp_error option \<times> 't streamConn" where
  "streamConn_Close T U c =
     (if sc_closeOnce c then (sc_closeErr c, c)
      else
        case SecureStream_Close T (sc_stream c) of (closeErr, s) \<Rightarrow>
        (case U of
           None \<Rightarrow> (closeErr, c\<lparr>sc_stream := s, sc_closeOnce := True, sc_closeErr := closeErr\<rparr>)
         | Some underlying \<Rightarrow>
             (case nm_Close underlying (ss_tr s) of (err, tr) \<Rightarrow>
                let closeErr = (if err \<noteq> None \<and> closeErr = None then err else closeErr) in
                (closeErr, c\<lparr>sc_stream := s\<lparr>ss_tr := tr\<rparr>, sc_closeOnce := True, sc_closeErr := closeErr\<rparr>))))"

definition streamConn_LocalAddr :: "'t net_methods option \<Rightarrow> 't streamConn \<Rightarrow> net_Addr option" where
  "streamConn_LocalAddr U c =
     (case U of Some underlying \<Rightarrow> nm_LocalAddr underlying (ss_tr (sc_stream c)) | None \<Rightarrow> None)"

definition streamConn_RemoteAddr :: "'t net_methods option \<Rightarrow> 't streamConn \<Rightarrow> net_Addr option" where
  "streamConn_RemoteAddr U c =
     (case U of Some underlying \<Rightarrow> nm_RemoteAddr underlying (ss_tr (sc_stream c)) | None \<Rightarrow> None)"

definition streamConn_SetDeadline ::
  "'t net_methods option \<Rightarrow> enat \<Rightarrow> 't streamConn \<Rightarrow> ewp_error option \<times> 't streamConn" where
  "streamConn_SetDeadline U t c =
     (case U of
        Some underlying \<Rightarrow>
          (case nm_SetDeadline underlying t (ss_tr (sc_stream c)) of (err, tr) \<Rightarrow>
             (err, c\<lparr>sc_stream := (sc_stream c)\<lparr>ss_tr := tr\<rparr>\<rparr>))
      | None \<Rightarrow> (None, c))"

definition streamConn_SetReadDeadline ::
  "'t net_methods option \<Rightarrow> enat \<Rightarrow> 't streamConn \<Rightarrow> ewp_error option \<times> 't streamConn" where
  "streamConn_SetReadDeadline U t c =
     (case U of
        Some underlying \<Rightarrow>
          (case nm_SetReadDeadline underlying t (ss_tr (sc_stream c)) of (err, tr) \<Rightarrow>
             (err, c\<lparr>sc_stream := (sc_stream c)\<lparr>ss_tr := tr\<rparr>\<rparr>))
      | None \<Rightarrow> (None, c))"

definition streamConn_SetWriteDeadline ::
  "'t net_methods option \<Rightarrow> enat \<Rightarrow> 't streamConn \<Rightarrow> ewp_error option \<times> 't streamConn" where
  "streamConn_SetWriteDeadline U t c =
     (case U of
        Some underlying \<Rightarrow>
          (case nm_SetWriteDeadline underlying t (ss_tr (sc_stream c)) of (err, tr) \<Rightarrow>
             (err, c\<lparr>sc_stream := (sc_stream c)\<lparr>ss_tr := tr\<rparr>\<rparr>))
      | None \<Rightarrow> (None, c))"

section \<open>Reading\<close>

text \<open>The payload bytes in a sequence of events, and the events a TCP tunnel may carry.\<close>

definition tcp_bytes :: "Event list \<Rightarrow> bytes" where
  "tcp_bytes evs = concat (map ev_Payload (filter (\<lambda>ev. ev_Type ev = FrameTCPData) evs))"

definition tcp_event :: "Event \<Rightarrow> bool" where
  "tcp_event ev \<longleftrightarrow> ev_Type ev \<in> {FrameTCPData, FramePaddingOnly, FramePing, FramePong}"

lemma tcp_bytes_simps [simp]:
  "tcp_bytes [] = []"
  "tcp_bytes (ev # evs) = (if ev_Type ev = FrameTCPData then ev_Payload ev else []) @ tcp_bytes evs"
  "tcp_bytes (evs @ evs') = tcp_bytes evs @ tcp_bytes evs'"
  by (simp_all add: tcp_bytes_def)

text \<open>
  \<open>after_skips T C skip k s\<close> is the stream after \<open>k\<close> calls of \<^verbatim>\<open>Recv\<close> that all return an event for
  which \<open>skip\<close> holds, and \<open>None\<close> if one of them does not. \<open>read_skips\<close> are the events the loop
  of \<^verbatim>\<open>Read\<close> goes on after.
\<close>

fun after_skips ::
  "'t transport \<Rightarrow> crypto \<Rightarrow> (Event \<Rightarrow> bool) \<Rightarrow> nat \<Rightarrow> 't SecureStream \<Rightarrow> 't SecureStream option" where
  "after_skips T C skip 0 s = Some s"
| "after_skips T C skip (Suc k) s =
     (case Recv T C s of
        (Inl err, s') \<Rightarrow> None
      | (Inr ev, s') \<Rightarrow> if skip ev then after_skips T C skip k s' else None)"

definition read_skips :: "Event \<Rightarrow> bool" where
  "read_skips ev \<longleftrightarrow> ev_Type ev = FrameTCPData \<and> ev_Payload ev = [] \<or>
     ev_Type ev \<in> {FramePaddingOnly, FramePing, FramePong}"

lemma after_skips_stop:
  assumes "after_skips T C skip k s = None"
  obtains j s1 r s2 where "after_skips T C skip j s = Some s1" "Recv T C s1 = (r, s2)" "\<forall>ev. r = Inr ev \<longrightarrow> \<not> skip ev"
  using assms
proof (induction k arbitrary: s thesis)
  case (Suc k)
  obtain r s' where r: "Recv T C s = (r, s')" by (metis prod.exhaust)
  show ?case
  proof (cases "\<exists>ev. r = Inr ev \<and> skip ev")
    case True
    then obtain ev where ev: "r = Inr ev" "skip ev" by blast
    then have "after_skips T C skip k s' = None" using Suc.prems(2) r by simp
    then show ?thesis
    proof (rule Suc.IH [rotated])
      fix j s1 x s2
      assume "after_skips T C skip j s' = Some s1" "Recv T C s1 = (x, s2)" "\<forall>ev. x = Inr ev \<longrightarrow> \<not> skip ev"
      then show thesis using Suc.prems(1) [of "Suc j" s1 x s2] r ev by simp
    qed
  next
    case False
    then show ?thesis using Suc.prems(1) [of 0 s r s'] r by simp
  qed
qed simp

text \<open>
  Where reading takes time and a read that would end after \<open>dl\<close> fails, only so many frames can
  be passed over.
\<close>

lemma after_skips_clock:
  assumes "\<And>t m t'. tr_ReadMessage T t = (Inr m, t') \<Longrightarrow> clk t < clk t' \<and> clk t' \<le> (dl :: nat)"
    and "after_skips T C skip k s = Some s'"
  shows "clk (ss_tr s) + k \<le> clk (ss_tr s') \<and> (0 < k \<longrightarrow> clk (ss_tr s') \<le> dl)"
  using assms(2)
proof (induction k arbitrary: s)
  case (Suc k)
  then obtain ev s1 where r: "Recv T C s = (Inr ev, s1)" "after_skips T C skip k s1 = Some s'"
    by (auto split: prod.splits sum.splits if_splits)
  from r(1) obtain m where "tr_ReadMessage T (ss_tr s) = (Inr m, ss_tr s1)"
    by (auto simp: Recv_def Let_def split: if_splits prod.splits sum.splits)
  from assms(1) [OF this] Suc.IH [OF r(2)] show ?case
    by (cases k) (use r(2) in auto)
qed simp

lemma after_skips_bounded:
  assumes "\<And>t m t'. tr_ReadMessage T t = (Inr m, t') \<Longrightarrow> clk t < clk t' \<and> clk t' \<le> (dl :: nat)"
  shows "after_skips T C skip (Suc dl) s = None"
proof (cases "after_skips T C skip (Suc dl) s")
  case (Some s')
  have "clk (ss_tr s) + Suc dl \<le> clk (ss_tr s') \<and> (0 < Suc dl \<longrightarrow> clk (ss_tr s') \<le> dl)"
    by (rule after_skips_clock [OF _ Some]) (rule assms)
  then have False by auto
  then show ?thesis ..
qed

lemma read_fill_skip:
  assumes "sc_readBuf c = []" and "Recv T C (sc_stream c) = (Inr ev, s)" and "read_skips ev"
  shows "read_fill T C c = read_fill T C (c\<lparr>sc_stream := s\<rparr>)"
  using assms by (subst read_fill.simps) (auto simp: read_skips_def frame_types)

lemma read_fill_stop:
  assumes "sc_readBuf c = []" and "Recv T C (sc_stream c) = (r, s)" and "\<forall>ev. r = Inr ev \<longrightarrow> \<not> read_skips ev"
  shows "read_fill T C c = Some (case r of Inl err \<Rightarrow> (Some err, c\<lparr>sc_stream := s\<rparr>)
    | Inr ev \<Rightarrow> if ev_Type ev = FrameTCPData then (None, c\<lparr>sc_stream := s, sc_readBuf := ev_Payload ev\<rparr>)
        else (Some (ErrUnexpectedFrame (ev_Type ev)), c\<lparr>sc_stream := s\<rparr>))"
proof (cases r)
  case (Inr ev)
  have "read_fill T C (c\<lparr>sc_stream := s, sc_readBuf := ev_Payload ev\<rparr>) =
      Some (None, c\<lparr>sc_stream := s, sc_readBuf := ev_Payload ev\<rparr>)" if "ev_Payload ev \<noteq> []"
    using that by (subst read_fill.simps) simp
  with Inr assms show ?thesis
    by (subst read_fill.simps) (auto simp: read_skips_def frame_types)
qed (use assms in \<open>subst read_fill.simps, simp\<close>)

lemma read_fill_after_skips:
  assumes "sc_readBuf c = []" and "after_skips T C read_skips k (sc_stream c) = Some s"
  shows "read_fill T C c = read_fill T C (c\<lparr>sc_stream := s\<rparr>)"
  using assms
proof (induction k arbitrary: c)
  case (Suc k)
  then obtain ev s1 where r: "Recv T C (sc_stream c) = (Inr ev, s1)" "read_skips ev" "after_skips T C read_skips k s1 = Some s"
    by (auto split: prod.splits sum.splits if_splits)
  with Suc.IH [of "c\<lparr>sc_stream := s1\<rparr>"] read_fill_skip [OF Suc.prems(1) r(1,2)] Suc.prems(1) show ?case by simp
qed auto

lemma read_fill_returns_only:
  assumes "read_fill T C c = Some y" and "sc_readBuf c = []"
  shows "\<exists>k. after_skips T C read_skips k (sc_stream c) = None"
proof -
  have "sc_readBuf c = [] \<longrightarrow> (\<exists>k. after_skips T C read_skips k (sc_stream c) = None)"
    using _ assms(1)
  proof (rule read_fill.raw_induct [where P = "\<lambda>T C c y. sc_readBuf c = [] \<longrightarrow> (\<exists>k. after_skips T C read_skips k (sc_stream c) = None)"], goal_cases)
    case (1 rf T C c y)
    show ?case
    proof
      assume e: "sc_readBuf c = []"
      obtain r s where R: "Recv T C (sc_stream c) = (r, s)" by (metis prod.exhaust)
      show "\<exists>k. after_skips T C read_skips k (sc_stream c) = None"
      proof (cases "\<exists>ev. r = Inr ev \<and> read_skips ev")
        case True
        then obtain ev where ev: "r = Inr ev" "read_skips ev" by blast
        then have "rf T C (c\<lparr>sc_stream := s\<rparr>) = Some y"
          using 1(2) e R by (auto simp: read_skips_def frame_types split: if_splits)
        from 1(1) [OF this] e obtain k where "after_skips T C read_skips k s = None" by auto
        then show ?thesis using R ev by (intro exI [of _ "Suc k"]) simp
      next
        case False
        then show ?thesis using R by (intro exI [of _ 1]) (auto split: sum.splits)
      qed
    qed
  qed
  with assms(2) show ?thesis by simp
qed

lemma read_fill_None_iff:
  assumes "sc_readBuf c = []"
  shows "read_fill T C c = None \<longleftrightarrow> (\<forall>k. after_skips T C read_skips k (sc_stream c) \<noteq> None)"
proof
  assume none: "read_fill T C c = None"
  show "\<forall>k. after_skips T C read_skips k (sc_stream c) \<noteq> None"
  proof (rule allI, rule notI)
    fix k assume "after_skips T C read_skips k (sc_stream c) = None"
    then obtain j s1 r s2 where j: "after_skips T C read_skips j (sc_stream c) = Some s1" "Recv T C s1 = (r, s2)"
      "\<forall>ev. r = Inr ev \<longrightarrow> \<not> read_skips ev" by (rule after_skips_stop)
    with none read_fill_after_skips [OF assms j(1)] read_fill_stop [of "c\<lparr>sc_stream := s1\<rparr>" T C r s2] assms
    show False by simp
  qed
next
  assume "\<forall>k. after_skips T C read_skips k (sc_stream c) \<noteq> None"
  then have "read_fill T C c \<noteq> Some y" for y
    using read_fill_returns_only [of T C c y] assms by blast
  then show "read_fill T C c = None" by (cases "read_fill T C c") blast+
qed

text \<open>\<^verbatim>\<open>io.ReadFull(conn, buf)\<close> on such a connection, for a buffer of \<open>k\<close> bytes.\<close>

partial_function (option) conn_read_full ::
  "'t transport \<Rightarrow> crypto \<Rightarrow> nat \<Rightarrow> 't streamConn \<Rightarrow> ((ewp_error + bytes) \<times> 't streamConn) option" where
  "conn_read_full T C k c =
     (if k = 0 then Some (Inr [], c)
      else
        Option.bind (streamConn_Read T C c k) (\<lambda>(res, c).
          case res of
            Inl err \<Rightarrow> Some (Inl err, c)
          | Inr b \<Rightarrow>
              Option.bind (conn_read_full T C (k - length b) c) (\<lambda>(res, c).
                case res of Inl err \<Rightarrow> Some (Inl err, c) | Inr b' \<Rightarrow> Some (Inr (b @ b'), c))))"

context message_transport
begin

text \<open>
  \<open>incoming C s evs rest\<close>: the input of the stream \<open>s\<close> starts with frames it can open,
  whose events are \<open>evs\<close>, and goes on with \<open>rest\<close>.
\<close>

definition incoming :: "crypto \<Rightarrow> 't SecureStream \<Rightarrow> Event list \<Rightarrow> 'w list \<Rightarrow> bool" where
  "incoming C s evs rest \<longleftrightarrow> wf_fa (ss_recv s) \<and> \<not> ss_closed s \<and> opn (ss_tr s) \<and>
     (\<exists>ms f'. sends_events C (ss_recv s) ms evs f' \<and> list_all okm ms \<and>
        inp (ss_tr s) = concat (map enc ms) @ rest)"

lemma incoming_Recv:
  assumes "aead_ok C" and "incoming C s (ev # evs) rest"
  shows "\<exists>s'. Recv T C s = (Inr ev, s') \<and> incoming C s' evs rest"
proof -
  obtain ss f' where ss: "frames_sent C (ss_recv s) ss f'" "list_all okm (map sf_wire ss)"
    "map event_of (map sf_frame ss) = map Inr (ev # evs)" "inp (ss_tr s) = concat (map enc (map sf_wire ss)) @ rest"
    and s: "wf_fa (ss_recv s)" "\<not> ss_closed s" "opn (ss_tr s)"
    using assms(2) unfolding incoming_def sends_events_def by blast
  from ss(1) show ?thesis
  proof (cases rule: frames_sent.cases)
    case (frame t meta payload pad ss')
    let ?w = "frame_wire C (ss_recv s) t meta payload pad"
    have one: "list_all okm (map sf_wire [sent_of C (ss_recv s) t meta payload pad])"
      "map event_of (map sf_frame [sent_of C (ss_recv s) t meta payload pad]) = map Inr [ev]"
      "inp (ss_tr s) = concat (map enc (map sf_wire [sent_of C (ss_recv s) t meta payload pad])) @
         concat (map enc (map sf_wire ss')) @ rest"
      using ss(2-4) frame(1) by auto
    obtain s' where s': "recv_all T C (length [ev]) s = (Inr [ev], s')" "ss_recv s' = bump (ss_recv s)"
      "\<not> ss_closed s'" "opn (ss_tr s')" "inp (ss_tr s') = concat (map enc (map sf_wire ss')) @ rest"
      using recv_all_run [OF frames_sent.frame [OF frame(2) frames_sent.none] assms(1) s(1) one(2) refl s(2,3) one(1,3)]
      by blast
    have "Recv T C s = (Inr ev, s')"
      using s'(1) by (auto split: prod.splits sum.splits)
    moreover have "incoming C s' evs rest"
      unfolding incoming_def sends_events_def s'(2)
    proof (intro conjI exI)
      show "frames_sent C (bump (ss_recv s)) ss' f'" by (rule frame(3))
      show "map event_of (map sf_frame ss') = map Inr evs" using ss(3) frame(1) by simp
      show "list_all okm (map sf_wire ss')" using ss(2) frame(1) by simp
    qed (use s' s(1) in \<open>simp_all add: wf_fa_def\<close>)
    ultimately show ?thesis by blast
  qed (use ss(3) in simp)
qed

text \<open>What a sender has put out is incoming at a peer in the matching cipher state.\<close>

lemma sent_run_incoming:
  assumes "sent_run C s evs s'" and "wf_fa (ss_send s)" and "ss_recv r = ss_send s" and "\<not> ss_closed r"
    and "opn (ss_tr r)" and "outp (ss_tr s') = outp (ss_tr s) @ w" and "inp (ss_tr r) = w @ rest"
  shows "incoming C r evs rest"
  using assms unfolding sent_run_def incoming_def by force

text \<open>
  \<open>stream_of C c b rest\<close>: the bytes still to be read from the connection \<open>c\<close> are \<open>b\<close>,
  partly buffered, partly in frames to come.
\<close>

definition stream_of :: "crypto \<Rightarrow> 't streamConn \<Rightarrow> bytes \<Rightarrow> 'w list \<Rightarrow> bool" where
  "stream_of C c b rest \<longleftrightarrow> (\<exists>evs. incoming C (sc_stream c) evs rest \<and> list_all tcp_event evs \<and>
     b = sc_readBuf c @ tcp_bytes evs)"

lemma read_fill_incoming:
  assumes "aead_ok C" and "incoming C (sc_stream c) evs rest" and "list_all tcp_event evs"
    and "sc_readBuf c @ tcp_bytes evs \<noteq> []"
  shows "\<exists>c' evs'. read_fill T C c = Some (None, c') \<and> sc_readBuf c' \<noteq> [] \<and> incoming C (sc_stream c') evs' rest \<and>
    list_all tcp_event evs' \<and> sc_readBuf c' @ tcp_bytes evs' = sc_readBuf c @ tcp_bytes evs"
  using assms(2-4)
proof (induction evs arbitrary: c)
  case Nil
  then show ?case by (intro exI [of _ c] exI [of _ "[]"]) (simp add: read_fill.simps)
next
  case (Cons ev evs)
  show ?case
  proof (cases "sc_readBuf c = []")
    case False
    with Cons.prems show ?thesis by (intro exI [of _ c] exI [of _ "ev # evs"]) (simp add: read_fill.simps)
  next
    case True
    obtain s where s: "Recv T C (sc_stream c) = (Inr ev, s)" "incoming C s evs rest"
      using incoming_Recv [OF assms(1) Cons.prems(1)] by blast
    let ?c = "c\<lparr>sc_stream := s, sc_readBuf := if ev_Type ev = FrameTCPData then ev_Payload ev else []\<rparr>"
    have upd: "c\<lparr>sc_stream := s, sc_readBuf := []\<rparr> = c\<lparr>sc_stream := s\<rparr>"
      using True by simp
    have ev: "ev_Type ev = FrameTCPData \<or> ev_Type ev \<in> set [FramePaddingOnly, FramePing, FramePong]"
      using Cons.prems(2) by (auto simp: tcp_event_def)
    have "read_fill T C c = read_fill T C ?c"
      using s(1) True ev by (subst read_fill.simps) (auto simp: upd simp del: set_simps)
    moreover have "\<exists>c' evs'. read_fill T C ?c = Some (None, c') \<and> sc_readBuf c' \<noteq> [] \<and>
        incoming C (sc_stream c') evs' rest \<and> list_all tcp_event evs' \<and>
        sc_readBuf c' @ tcp_bytes evs' = sc_readBuf ?c @ tcp_bytes evs"
      using s(2) Cons.prems True by (intro Cons.IH) auto
    ultimately show ?thesis using True by auto
  qed
qed

lemma Read_stream_of:
  assumes "aead_ok C" and "stream_of C c b rest" and "b \<noteq> []" and "0 < n"
  shows "\<exists>b1 b2 c'. streamConn_Read T C c n = Some (Inr b1, c') \<and> b = b1 @ b2 \<and> b1 \<noteq> [] \<and> length b1 \<le> n \<and>
    stream_of C c' b2 rest"
proof -
  obtain evs where e: "incoming C (sc_stream c) evs rest" "list_all tcp_event evs" "b = sc_readBuf c @ tcp_bytes evs"
    using assms(2) unfolding stream_of_def by blast
  obtain c1 evs1 where f: "read_fill T C c = Some (None, c1)" "sc_readBuf c1 \<noteq> []"
    "incoming C (sc_stream c1) evs1 rest" "list_all tcp_event evs1" "b = sc_readBuf c1 @ tcp_bytes evs1"
    using read_fill_incoming [OF assms(1) e(1,2)] assms(3) e(3) by auto
  have "stream_of C (c1\<lparr>sc_readBuf := drop n (sc_readBuf c1)\<rparr>) (drop n (sc_readBuf c1) @ tcp_bytes evs1) rest"
    unfolding stream_of_def using f(3,4) by auto
  with f(1,2,5) assms(4) show ?thesis
    unfolding streamConn_Read_def
    by (intro exI [of _ "take n (sc_readBuf c1)"] exI [of _ "drop n (sc_readBuf c1) @ tcp_bytes evs1"] exI
        [of _ "c1\<lparr>sc_readBuf := drop n (sc_readBuf c1)\<rparr>"]) simp
qed

lemma read_full_stream_of:
  assumes "aead_ok C" and "stream_of C c (b @ b') rest"
  shows "\<exists>c'. conn_read_full T C (length b) c = Some (Inr b, c') \<and> stream_of C c' b' rest"
  using assms(2)
proof (induction "length b" arbitrary: b c rule: less_induct)
  case less
  show ?case
  proof (cases "b = []")
    case True
    with less.prems show ?thesis by (simp add: conn_read_full.simps)
  next
    case False
    obtain b1 b2 c1 where r: "streamConn_Read T C c (length b) = Some (Inr b1, c1)" "b @ b' = b1 @ b2" "b1 \<noteq> []"
      "length b1 \<le> length b" "stream_of C c1 b2 rest"
      using Read_stream_of [OF assms(1) less.prems, of "length b"] False by auto
    have b: "b = b1 @ drop (length b1) b" "b2 = drop (length b1) b @ b'"
      using arg_cong [OF r(2), of "take (length b1)"] arg_cong [OF r(2), of "drop (length b1)"] r(4)
      by (auto, metis append_take_drop_id)
    obtain c' where "conn_read_full T C (length (drop (length b1) b)) c1 = Some (Inr (drop (length b1) b), c')"
      "stream_of C c' b' rest"
      using less.hyps [of "drop (length b1) b" c1] r(3,5) b False by auto
    then have "conn_read_full T C (length b) c = Some (Inr (b1 @ drop (length b1) b), c')"
      using r(1) False by (subst conn_read_full.simps) simp
    with b(1) \<open>stream_of C c' b' rest\<close> show ?thesis by auto
  qed
qed

text \<open>The loop of \<^verbatim>\<open>Read\<close> ends on every transport of this kind.\<close>

lemma Recv_shrinks:
  assumes "Recv T C s = (Inr ev, s')"
  shows "length (inp (ss_tr s')) < length (inp (ss_tr s))"
  using assms by (rule Recv_Inr) (auto dest: read_shrinks)

lemma read_fill_ends: "\<exists>r. read_fill T C c = Some r"
proof (induction "length (inp (ss_tr (sc_stream c)))" arbitrary: c rule: less_induct)
  case less
  show ?case
  proof (cases "sc_readBuf c = []")
    case False
    then show ?thesis by (subst read_fill.simps) simp
  next
    case True
    obtain res s where R: "Recv T C (sc_stream c) = (res, s)"
      by (metis prod.exhaust)
    show ?thesis
    proof (cases res)
      case (Inl e)
      with R True show ?thesis by (subst read_fill.simps) simp
    next
      case (Inr ev)
      note sh = Recv_shrinks [OF R [unfolded Inr]]
      have "\<exists>r. read_fill T C (c\<lparr>sc_stream := s\<rparr>) = Some r"
        "\<exists>r. read_fill T C (c\<lparr>sc_stream := s, sc_readBuf := ev_Payload ev\<rparr>) = Some r"
        by (rule less.hyps, simp add: sh)+
      with R True Inr show ?thesis by (subst read_fill.simps) auto
    qed
  qed
qed

text \<open>\<^verbatim>\<open>Write\<close> without error has sent its argument.\<close>

lemma SendTCPData_run:
  assumes "SendTCPData T C now s p rnd = (None, s', rnd')"
  shows "\<exists>evs. sent_run C s evs s' \<and> list_all tcp_event evs \<and> tcp_bytes evs = p"
proof -
  obtain evs where e: "sent_run C s evs s'" "req_delivers (ReqTCPData p) evs"
    using do_send_run [of C now s "ReqTCPData p" rnd s' rnd'] assms by auto
  have "tcp_bytes (map (mk_event FrameTCPData) ps) = concat ps \<and> list_all tcp_event (map (mk_event FrameTCPData) ps)" for ps
    by (induction ps) (auto simp: mk_event_def tcp_event_def)
  with e show ?thesis by (metis req_delivers.simps(1))
qed

lemma write_loop_run:
  assumes "write_loop T C now i n c p rnd = ((k, None), c', rnd')"
  shows "k = n + length p \<and> sc_readBuf c' = sc_readBuf c \<and>
    (\<exists>evs. sent_run C (sc_stream c) evs (sc_stream c') \<and> list_all tcp_event evs \<and> tcp_bytes evs = p)"
  using assms
proof (induction "length p" arbitrary: i n c p rnd rule: less_induct)
  case less
  show ?case
  proof (cases "p = []")
    case True
    with less.prems show ?thesis
      by (auto simp: write_loop.simps intro!: exI [of _ "[]"] sent_run_refl)
  next
    case False
    obtain s r where s: "SendTCPData T C (now i) (sc_stream c) (take maxPayload p) rnd = (None, s, r)"
      and w: "write_loop T C now (Suc i) (n + length (take maxPayload p)) (c\<lparr>sc_stream := s\<rparr>) (drop maxPayload p) r =
        ((k, None), c', rnd')"
      using less.prems False unfolding write_loop.simps [of T C now i n c p rnd] by (auto split: prod.splits option.splits)
    have d: "length (drop maxPayload p) < length p" "length (take maxPayload p) + length (drop maxPayload p) = length p"
      using False by (auto simp: maxPayload_def MaxFrameSize_def)
    obtain evs where e: "sent_run C (sc_stream c) evs s" "list_all tcp_event evs" "tcp_bytes evs = take maxPayload p"
      using SendTCPData_run [OF s] by blast
    note ih = less.hyps [OF d(1) w]
    obtain evs' where e': "sent_run C s evs' (sc_stream c')" "list_all tcp_event evs'" "tcp_bytes evs' = drop maxPayload p"
      using ih by auto
    have "sent_run C (sc_stream c) (evs @ evs') (sc_stream c')"
      by (rule sent_run_trans [OF e(1) e'(1)])
    with e e' ih d(2) show ?thesis by (intro conjI exI [of _ "evs @ evs'"]) simp_all
  qed
qed

end

section \<open>Properties\<close>

text \<open>
  What the writing end does: \<^verbatim>\<open>Write\<close> calls, and between them pings, pongs and cover frames,
  which the embedded \<^verbatim>\<open>SecureStream\<close> sends. A list of them stops at the first error.
\<close>

datatype conn_op = OpWrite bytes | OpPing bytes | OpPong bytes | OpCoverPad int

fun conn_op_bytes :: "conn_op \<Rightarrow> bytes" where
  "conn_op_bytes (OpWrite p) = p"
| "conn_op_bytes _ = []"

definition conn_send ::
  "'t transport \<Rightarrow> crypto \<Rightarrow> (nat \<Rightarrow> nat \<Rightarrow> int) \<Rightarrow> 't streamConn \<Rightarrow> send_req \<Rightarrow> bytes \<Rightarrow>
   ewp_error option \<times> 't streamConn \<times> bytes" where
  "conn_send T C now c q rnd =
     (case do_send T C (now 0) (sc_stream c) q rnd of (err, s, rnd) \<Rightarrow> (err, c\<lparr>sc_stream := s\<rparr>, rnd))"

fun do_conn_op ::
  "'t transport \<Rightarrow> crypto \<Rightarrow> (nat \<Rightarrow> nat \<Rightarrow> int) \<Rightarrow> 't streamConn \<Rightarrow> conn_op \<Rightarrow> bytes \<Rightarrow>
   ewp_error option \<times> 't streamConn \<times> bytes" where
  "do_conn_op T C now c (OpWrite p) rnd =
     (case streamConn_Write T C now c p rnd of ((n, err), c, rnd) \<Rightarrow> (err, c, rnd))"
| "do_conn_op T C now c (OpPing q) rnd = conn_send T C now c (ReqPing q) rnd"
| "do_conn_op T C now c (OpPong q) rnd = conn_send T C now c (ReqPong q) rnd"
| "do_conn_op T C now c (OpCoverPad n) rnd = conn_send T C now c (ReqCoverPad n) rnd"

fun conn_ops ::
  "'t transport \<Rightarrow> crypto \<Rightarrow> (nat \<Rightarrow> nat \<Rightarrow> int) \<Rightarrow> 't streamConn \<Rightarrow> conn_op list \<Rightarrow> bytes \<Rightarrow>
   ewp_error option \<times> 't streamConn \<times> bytes" where
  "conn_ops T C now c [] rnd = (None, c, rnd)"
| "conn_ops T C now c (q # qs) rnd =
     (case do_conn_op T C now c q rnd of
        (Some err, c, rnd) \<Rightarrow> (Some err, c, rnd)
      | (None, c, rnd) \<Rightarrow> conn_ops T C now c qs rnd)"

context message_transport
begin

lemma conn_send_run:
  assumes "conn_send T C now c q rnd = (None, c', rnd')" and "q = ReqPing x \<or> q = ReqPong x \<or> q = ReqCoverPad n"
  shows "\<exists>evs. sent_run C (sc_stream c) evs (sc_stream c') \<and> list_all tcp_event evs \<and> tcp_bytes evs = []"
proof -
  obtain s where s: "do_send T C (now 0) (sc_stream c) q rnd = (None, s, rnd')" "sc_stream c' = s"
    using assms(1) by (auto simp: conn_send_def split: prod.splits)
  obtain evs where "sent_run C (sc_stream c) evs s" "req_delivers q evs"
    using do_send_run [OF s(1)] assms(2) by auto
  moreover from this(2) have "list_all tcp_event evs \<and> tcp_bytes evs = []"
    using assms(2) by (auto simp: mk_event_def tcp_event_def frame_types)
  ultimately show ?thesis using s(2) by blast
qed

lemma do_conn_op_run:
  assumes "do_conn_op T C now c q rnd = (None, c', rnd')"
  shows "\<exists>evs. sent_run C (sc_stream c) evs (sc_stream c') \<and> list_all tcp_event evs \<and> tcp_bytes evs = conn_op_bytes q"
proof (cases q)
  case (OpWrite p)
  then obtain n where w: "streamConn_Write T C now c p rnd = ((n, None), c', rnd')"
    using assms by (auto split: prod.splits)
  show ?thesis
  proof (cases "p = []")
    case True
    with w OpWrite show ?thesis by (auto simp: streamConn_Write_def intro!: exI [of _ "[]"] sent_run_refl)
  next
    case False
    with w have "write_loop T C now 0 0 c p rnd = ((n, None), c', rnd')" by (simp add: streamConn_Write_def)
    from write_loop_run [OF this] OpWrite show ?thesis by simp
  qed
qed (use assms conn_send_run in auto)

lemma conn_ops_run:
  assumes "conn_ops T C now c qs rnd = (None, c', rnd')"
  shows "\<exists>evs. sent_run C (sc_stream c) evs (sc_stream c') \<and> list_all tcp_event evs \<and>
    tcp_bytes evs = concat (map conn_op_bytes qs)"
  using assms
proof (induction qs arbitrary: c rnd)
  case Nil
  then show ?case by (auto intro!: exI [of _ "[]"] sent_run_refl)
next
  case (Cons q qs)
  then obtain c1 r1 where q: "do_conn_op T C now c q rnd = (None, c1, r1)"
    and r: "conn_ops T C now c1 qs r1 = (None, c', rnd')"
    by (auto split: prod.splits option.splits)
  obtain es where es: "sent_run C (sc_stream c) es (sc_stream c1)" "list_all tcp_event es" "tcp_bytes es = conn_op_bytes q"
    using do_conn_op_run [OF q] by blast
  obtain evs where evs: "sent_run C (sc_stream c1) evs (sc_stream c')" "list_all tcp_event evs"
    "tcp_bytes evs = concat (map conn_op_bytes qs)"
    using Cons.IH [OF r] by blast
  have "sent_run C (sc_stream c) (es @ evs) (sc_stream c')"
    by (rule sent_run_trans [OF es(1) evs(1)])
  with es evs show ?case by (intro exI [of _ "es @ evs"]) simp
qed

text \<open>So the peer has the written bytes before it.\<close>

lemma conn_ops_stream_of:
  assumes "conn_ops T C now w qs rnd = (None, w', rnd')" and "wf_fa (ss_send (sc_stream w))"
    and "ss_recv (sc_stream r) = ss_send (sc_stream w)" and "\<not> ss_closed (sc_stream r)" and "opn (ss_tr (sc_stream r))"
    and "inp (ss_tr (sc_stream r)) = drop (length (outp (ss_tr (sc_stream w)))) (outp (ss_tr (sc_stream w'))) @ rest"
  shows "stream_of C r (sc_readBuf r @ concat (map conn_op_bytes qs)) rest"
proof -
  obtain evs where e: "sent_run C (sc_stream w) evs (sc_stream w')" "list_all tcp_event evs"
    "tcp_bytes evs = concat (map conn_op_bytes qs)"
    using conn_ops_run [OF assms(1)] by blast
  then obtain v where v: "outp (ss_tr (sc_stream w')) = outp (ss_tr (sc_stream w)) @ v"
    unfolding sent_run_def by blast
  have "incoming C (sc_stream r) evs rest"
    by (rule sent_run_incoming [OF e(1) assms(2-5) v]) (use v assms(6) in simp)
  with e show ?thesis unfolding stream_of_def by (intro exI [of _ evs]) simp
qed

end

lemma write_loop_result:
  assumes "write_loop T C now i n c p rnd = ((k, err), c', rnd')"
  shows "n \<le> k \<and> k \<le> n + length p \<and> (err = None \<longleftrightarrow> k = n + length p)"
  using assms
proof (induction T C now i n c p rnd rule: write_loop.induct)
  case (1 T C now i n c p rnd)
  show ?case
  proof (cases "p = []")
    case True
    with "1.prems" show ?thesis by (simp add: write_loop.simps)
  next
    case False
    obtain e s r where s: "SendTCPData T C (now i) (sc_stream c) (take maxPayload p) rnd = (e, s, r)"
      by (metis prod.exhaust)
    have d: "0 < length p" "0 < length (take maxPayload p)" "length (take maxPayload p) + length (drop maxPayload p) = length p"
      using False by (auto simp: maxPayload_def MaxFrameSize_def)
    show ?thesis
    proof (cases e)
      case None
      with "1.prems" s False have w: "write_loop T C now (Suc i) (n + length (take maxPayload p)) (c\<lparr>sc_stream := s\<rparr>)
          (drop maxPayload p) r = ((k, err), c', rnd')"
        by (simp add: write_loop.simps [of T C now i n c p rnd])
      have "n + length (take maxPayload p) \<le> k \<and> k \<le> n + length (take maxPayload p) + length (drop maxPayload p) \<and>
          (err = None \<longleftrightarrow> k = n + length (take maxPayload p) + length (drop maxPayload p))"
        by (rule "1.IH" [OF False _ _ _ w]) (use s None in auto)
      with d show ?thesis by linarith
    next
      case (Some x)
      with "1.prems" s False d show ?thesis by (auto simp: write_loop.simps [of T C now i n c p rnd])
    qed
  qed
qed

lemma read_fill_data: "read_fill T C c = Some (None, c') \<Longrightarrow> sc_readBuf c' \<noteq> []"
proof -
  have "fst y = None \<longrightarrow> sc_readBuf (snd y) \<noteq> []" if "read_fill T C c = Some y" for y
    using _ that
  proof (rule read_fill.raw_induct [where P = "\<lambda>T C c y. fst y = None \<longrightarrow> sc_readBuf (snd y) \<noteq> []"], goal_cases)
    case (1 rf T C c y)
    from 1(2) show ?case by (auto split: if_splits prod.splits sum.splits dest: 1(1))
  qed
  then show "read_fill T C c = Some (None, c') \<Longrightarrow> sc_readBuf c' \<noteq> []" by fastforce
qed

text \<open>What \<^verbatim>\<open>Recv\<close> does to the transport, in a way that adds up, reading does as well.\<close>

definition recv_does :: "'t transport \<Rightarrow> crypto \<Rightarrow> ('t \<Rightarrow> 't \<Rightarrow> bool) \<Rightarrow> bool" where
  "recv_does T C R \<longleftrightarrow> reflp R \<and> transp R \<and> (\<forall>s res s'. Recv T C s = (res, s') \<longrightarrow> R (ss_tr s) (ss_tr s'))"

lemma read_fill_does:
  assumes "recv_does T C R" and "read_fill T C c = Some (e, c')"
  shows "R (ss_tr (sc_stream c)) (ss_tr (sc_stream c'))"
proof -
  have "recv_does T C R \<longrightarrow> R (ss_tr (sc_stream c)) (ss_tr (sc_stream (snd y)))" if "read_fill T C c = Some y" for y
    using _ that
  proof (rule read_fill.raw_induct [where P = "\<lambda>T C c y. recv_does T C R \<longrightarrow> R (ss_tr (sc_stream c)) (ss_tr (sc_stream (snd y)))"], goal_cases)
    case (1 rf T C c y)
    show ?case
    proof
      assume r: "recv_does T C R"
      obtain res s where R: "Recv T C (sc_stream c) = (res, s)" by (metis prod.exhaust)
      have s: "R (ss_tr (sc_stream c)) (ss_tr s)" "R x x" for x
        using r R unfolding recv_does_def by (blast dest: reflpD)+
      have t: "R (ss_tr (sc_stream c)) (ss_tr (sc_stream (snd y)))" if "R (ss_tr s) (ss_tr (sc_stream (snd y)))"
        using s(1) that r unfolding recv_does_def by (blast dest: transpD)
      have "R (ss_tr (sc_stream c)) (ss_tr (sc_stream (snd y)))" if "rf T C (c\<lparr>sc_stream := s\<rparr>) = Some y"
        using 1(1) [OF that] r t by simp
      moreover have "R (ss_tr (sc_stream c)) (ss_tr (sc_stream (snd y)))"
        if "rf T C (c\<lparr>sc_stream := s, sc_readBuf := b\<rparr>) = Some y" for b
        using 1(1) [OF that] r t by simp
      ultimately show "R (ss_tr (sc_stream c)) (ss_tr (sc_stream (snd y)))"
        using 1(2) R s by (auto split: if_splits prod.splits sum.splits)
    qed
  qed
  with assms show ?thesis by fastforce
qed

lemma Recv_transport:
  assumes "Recv T C s = (res, s')" and "\<not> ss_closed s" and "tr_ReadMessage T (ss_tr s) = (r, tr)"
  shows "ss_tr s' = tr \<or> (\<exists>s1. ss_tr s1 = tr \<and> s' = closeUnderlying T s1)"
  using assms by (auto simp: Recv_def Let_def split: sum.splits prod.splits intro!: exI conjI)

lemma Recv_timed: "recv_does lf_transport C (\<lambda>f f'. read_timed (lf_c f) (lf_c f'))"
proof -
  have c: "read_timed (lf_c (ss_tr s)) (lf_c (ss_tr (closeUnderlying lf_transport s)))" for s
    by (auto simp: closeUnderlying_def SecureStream_Close_def lf_transport_def Let_def split: option.split prod.split dest: Close_timed)
  have "read_timed (lf_c (ss_tr s)) (lf_c (ss_tr s'))" if R: "Recv lf_transport C s = (res, s')" for s res s'
  proof (cases "ss_closed s")
    case True
    with R show ?thesis by (simp add: Recv_def)
  next
    case False
    obtain r f where m: "LengthFramer_ReadMessage (ss_tr s) = (r, f)" by (metis prod.exhaust)
    have f: "read_timed (lf_c (ss_tr s)) (lf_c f)"
      by (rule ReadMessage_timed [OF m])
    have "ss_tr s' = f \<or> (\<exists>s1. ss_tr s1 = f \<and> s' = closeUnderlying lf_transport s1)"
      using Recv_transport [OF R False, of r f] m by (simp add: lf_transport_def)
    with f c show ?thesis by (metis read_timed_trans)
  qed
  then show ?thesis
    unfolding recv_does_def by (auto intro!: reflpI transpI intro: read_timed_trans)
qed

text \<open>
  C15: A TCP tunnel is a byte stream. Let one end make any calls of \<^verbatim>\<open>Write\<close>, mixed with pings, pongs and
  cover frames, all without error, and let the other end, in the matching cipher state,
  have the bytes put on the connection before it, nothing timing out. Then \<^verbatim>\<open>io.ReadFull\<close> on the other end for
  any number of bytes up to the number written returns exactly the first written bytes; and
  while some are left, a single \<^verbatim>\<open>Read\<close> with any non-empty buffer returns at least one and at
  most the buffer's size of the bytes that come next.
\<close>
theorem tcp_tunnel_is_byte_stream:
  assumes "aead_ok C" and "wf_fa (ss_send (sc_stream w))" and "conn_ops lf_transport C now w qs rnd = (None, w', rnd')"
    and "ss_recv (sc_stream r) = ss_send (sc_stream w)" and "\<not> ss_closed (sc_stream r)"
    and "conn_ready (lf_c (ss_tr (sc_stream r)))" and "sc_readBuf r = []"
    and "nc_in (lf_c (ss_tr (sc_stream r))) =
      drop (length (nc_out (lf_c (ss_tr (sc_stream w))))) (nc_out (lf_c (ss_tr (sc_stream w')))) @ rest"
    and "concat (map conn_op_bytes qs) = b @ b'"
  shows "\<exists>r'. conn_read_full lf_transport C (length b) r = Some (Inr b, r') \<and>
    (b' \<noteq> [] \<longrightarrow> (\<forall>n > 0. \<exists>b1 b2 r''. streamConn_Read lf_transport C r' n = Some (Inr b1, r'') \<and>
       b' = b1 @ b2 \<and> b1 \<noteq> [] \<and> length b1 \<le> n))"
proof -
  have "lf.stream_of C r (b @ b') rest"
    using lf.conn_ops_stream_of [OF assms(3,2,4,5), of rest] assms(6-9)
    by (simp add: lf_open_def lf_in_def lf_out_def)
  from lf.read_full_stream_of [OF assms(1) this] obtain r' where
    r': "conn_read_full lf_transport C (length b) r = Some (Inr b, r')" "lf.stream_of C r' b' rest"
    by blast
  show ?thesis
    by (intro exI [of _ r'] conjI r'(1) impI allI) (use lf.Read_stream_of [OF assms(1) r'(2)] in blast)
qed

theorem tcp_tunnel_is_byte_stream_witness:
  "\<exists>w w' r r' rnd'. conn_ops lf_transport toy_crypto (\<lambda>_ _. 0) w [OpWrite [1, 2, 3]] (replicate 5000 0) = (None, w', rnd') \<and>
     conn_read_full lf_transport toy_crypto (length [1, 2 :: byte]) r = Some (Inr [1, 2], r') \<and>
     nc_in (lf_c (ss_tr (sc_stream r))) = nc_out (lf_c (ss_tr (sc_stream w')))"
proof -
  obtain c where c: "NewClientSecureStream (NewLengthFramer (toy_conn [])) toy_keys = Inr c"
    by (rule that) (rule new_streams(1) [OF toy_keys_wf])
  note p = toy_streams [OF c]
  obtain s' rnd' where s: "sendFrame lf_transport toy_crypto 0 c FrameTCPData [] [1, 2, 3] (-1) (replicate 5000 0) = (None, s', rnd')"
    using sendFrame_lf [OF toy_aead_ok, of c FrameTCPData "[]" "[1, 2, 3]" "replicate 5000 0" 0] p
    by (auto simp: FrameType_Valid_def lf_open_def NewLengthFramer_def)
  have q: "conn_ops lf_transport toy_crypto (\<lambda>_ _. 0) (new_streamConn c) [OpWrite [1, 2, 3]] (replicate 5000 0) =
      (None, new_streamConn s', rnd')"
    using s by (simp add: streamConn_Write_def write_loop.simps new_streamConn_def SendTCPData_def ewp_consts maxPayload_def)
  define r where "r = new_streamConn (new_stream (NewLengthFramer (toy_conn (nc_out (lf_c (ss_tr s'))))) (ss_recv c) (ss_send c))"
  have "\<exists>r'. conn_read_full lf_transport toy_crypto (length [1, 2 :: byte]) r = Some (Inr [1, 2], r') \<and>
      ([3] \<noteq> ([] :: bytes) \<longrightarrow> (\<forall>n > 0. \<exists>b1 b2 r''. streamConn_Read lf_transport toy_crypto r' n = Some (Inr b1, r'') \<and>
       [3] = b1 @ b2 \<and> b1 \<noteq> [] \<and> length b1 \<le> n))"
    by (rule tcp_tunnel_is_byte_stream [OF toy_aead_ok _ q, where rest = "[]"])
      (use p in \<open>simp_all add: r_def new_streamConn_def new_stream_def NewLengthFramer_def\<close>)
  then obtain r' where "conn_read_full lf_transport toy_crypto (length [1, 2 :: byte]) r = Some (Inr [1, 2], r')"
    by blast
  moreover have "nc_in (lf_c (ss_tr (sc_stream r))) = nc_out (lf_c (ss_tr (sc_stream (new_streamConn s'))))"
    by (simp add: r_def new_streamConn_def new_stream_def NewLengthFramer_def)
  ultimately show ?thesis using q by (intro exI conjI)
qed

text \<open>
  C29: What \<^verbatim>\<open>Read\<close> of a tunnel returns, and when, over any transport. Buffered bytes are handed out
  at once. Otherwise empty, padding, ping and pong frames are passed over, and the first other
  outcome of \<^verbatim>\<open>Recv\<close> decides: data, of which the first \<open>n\<close> bytes are returned and the rest
  is kept; its error; or the error for an unexpected frame. \<^verbatim>\<open>Read\<close> never returns exactly when
  every call of \<^verbatim>\<open>Recv\<close> for ever returns a frame to be passed over, which a peer can bring about.
  A read deadline prevents it: when receiving takes time, and fails after the deadline \<open>dl\<close>,
  \<^verbatim>\<open>Read\<close> returns.
\<close>
theorem stream_read_outcome:
  "(sc_readBuf c \<noteq> [] \<longrightarrow>
      streamConn_Read T C c n = Some (Inr (take n (sc_readBuf c)), c\<lparr>sc_readBuf := drop n (sc_readBuf c)\<rparr>)) \<and>
   (\<forall>k s r s'. sc_readBuf c = [] \<and> after_skips T C read_skips k (sc_stream c) = Some s \<and> Recv T C s = (r, s') \<and>
      (\<forall>ev. r = Inr ev \<longrightarrow> \<not> read_skips ev) \<longrightarrow>
      streamConn_Read T C c n = Some (case r of
          Inl err \<Rightarrow> (Inl err, c\<lparr>sc_stream := s'\<rparr>)
        | Inr ev \<Rightarrow>
            if ev_Type ev = FrameTCPData then
              (Inr (take n (ev_Payload ev)), c\<lparr>sc_stream := s', sc_readBuf := drop n (ev_Payload ev)\<rparr>)
            else (Inl (ErrUnexpectedFrame (ev_Type ev)), c\<lparr>sc_stream := s'\<rparr>))) \<and>
   (streamConn_Read T C c n = None \<longleftrightarrow>
      sc_readBuf c = [] \<and> (\<forall>k. after_skips T C read_skips k (sc_stream c) \<noteq> None)) \<and>
   ((\<forall>t m t'. tr_ReadMessage T t = (Inr m, t') \<longrightarrow> clk t < clk t' \<and> clk t' \<le> (dl :: nat)) \<longrightarrow>
      streamConn_Read T C c n \<noteq> None)"
proof (cases "sc_readBuf c = []")
  case True
  have none: "streamConn_Read T C c n = None \<longleftrightarrow> (\<forall>k. after_skips T C read_skips k (sc_stream c) \<noteq> None)"
    using read_fill_None_iff [OF True, of T C] by (auto simp: streamConn_Read_def split: option.splits)
  have "streamConn_Read T C c n = Some (case r of
          Inl err \<Rightarrow> (Inl err, c\<lparr>sc_stream := s'\<rparr>)
        | Inr ev \<Rightarrow>
            if ev_Type ev = FrameTCPData then
              (Inr (take n (ev_Payload ev)), c\<lparr>sc_stream := s', sc_readBuf := drop n (ev_Payload ev)\<rparr>)
            else (Inl (ErrUnexpectedFrame (ev_Type ev)), c\<lparr>sc_stream := s'\<rparr>))"
    if "after_skips T C read_skips k (sc_stream c) = Some s" "Recv T C s = (r, s')"
      "\<forall>ev. r = Inr ev \<longrightarrow> \<not> read_skips ev" for k s r s'
    using read_fill_after_skips [OF True that(1)] read_fill_stop [of "c\<lparr>sc_stream := s\<rparr>" T C r s'] that(2,3) True
    by (auto simp: streamConn_Read_def split: sum.splits)
  moreover have "streamConn_Read T C c n \<noteq> None"
    if "\<forall>t m t'. tr_ReadMessage T t = (Inr m, t') \<longrightarrow> clk t < clk t' \<and> clk t' \<le> dl"
    using none after_skips_bounded [where clk = clk and dl = dl and T = T and s = "sc_stream c"] that by blast
  ultimately show ?thesis using True none by blast
next
  case False
  then have "read_fill T C c = Some (None, c)" by (subst read_fill.simps) simp
  with False show ?thesis by (simp add: streamConn_Read_def)
qed

text \<open>
  The peer of the witness: it sends padding frames for ever, one per tick of its clock, or
  until the deadline.
\<close>

definition padding_peer :: "nat option \<Rightarrow> nat transport" where
  "padding_peer dl =
     \<lparr>tr_SendMessage = (\<lambda>i b. (None, i)),
      tr_ReadMessage = (\<lambda>i. if (case dl of Some d \<Rightarrow> d \<le> i | None \<Rightarrow> False) then (Inl ErrDeadlineExceeded, i)
        else (Inr (frame_wire toy_crypto (toy_fa\<lparr>fa_counter := of_nat i\<rparr>) FramePaddingOnly [] [] []), Suc i)),
      tr_Close = (\<lambda>i. (None, i)), tr_SetDeadline = None\<rparr>"

lemma padding_peer_Recv:
  assumes "\<not> ss_closed s" and "ss_recv s = toy_fa\<lparr>fa_counter := of_nat (ss_tr s)\<rparr>"
  shows "\<exists>ev s'. Recv (padding_peer None) toy_crypto s = (Inr ev, s') \<and> ev_Type ev = FramePaddingOnly \<and>
    \<not> ss_closed s' \<and> ss_recv s' = toy_fa\<lparr>fa_counter := of_nat (ss_tr s')\<rparr>"
proof -
  have wf: "wf_fa (toy_fa\<lparr>fa_counter := of_nat (ss_tr s)\<rparr>)" and "frame_fits FramePaddingOnly [] [] (int (length ([] :: bytes)))"
    by (simp_all add: wf_fa_def toy_fa_def frame_fits_def FrameType_Valid_def ewp_consts)
  note d = DecodeFrame_frame_wire [OF toy_aead_ok this, of "[]"]
  obtain ev where "event_of \<lparr>df_Counter = of_nat (ss_tr s), df_Type = FramePaddingOnly, df_Meta = [], df_Payload = []\<rparr> = Inr ev"
    "ev_Type ev = FramePaddingOnly" by (simp add: event_of_def frame_types)
  with d assms show ?thesis
    by (simp add: Recv_def padding_peer_def Let_def bump_def add.commute)
qed

lemma padding_peer_endless:
  assumes "\<not> ss_closed s" and "ss_recv s = toy_fa\<lparr>fa_counter := of_nat (ss_tr s)\<rparr>"
    and "\<And>ev. ev_Type ev = FramePaddingOnly \<Longrightarrow> skip ev"
  shows "after_skips (padding_peer None) toy_crypto skip k s \<noteq> None"
  using assms(1,2)
proof (induction k arbitrary: s)
  case (Suc k)
  obtain ev s' where r: "Recv (padding_peer None) toy_crypto s = (Inr ev, s')" "ev_Type ev = FramePaddingOnly"
    "\<not> ss_closed s'" "ss_recv s' = toy_fa\<lparr>fa_counter := of_nat (ss_tr s')\<rparr>"
    using padding_peer_Recv [OF Suc.prems] by blast
  with Suc.IH [OF r(3,4)] assms(3) show ?case by simp
qed simp

lemma padding_peer_in_time:
  "tr_ReadMessage (padding_peer (Some d)) t = (Inr m, t') \<Longrightarrow> t < t' \<and> t' \<le> d"
  by (auto simp: padding_peer_def split: if_splits)

theorem stream_read_outcome_witness:
  "streamConn_Read (padding_peer None) toy_crypto
      (new_streamConn (new_stream 0 toy_fa (toy_fa\<lparr>fa_counter := 0\<rparr>))) 10 = None \<and>
   streamConn_Read (padding_peer (Some 3)) toy_crypto
      (new_streamConn (new_stream 0 toy_fa (toy_fa\<lparr>fa_counter := 0\<rparr>))) 10 \<noteq> None"
proof -
  let ?c = "new_streamConn (new_stream (0 :: nat) toy_fa (toy_fa\<lparr>fa_counter := 0\<rparr>))"
  have "after_skips (padding_peer None) toy_crypto read_skips k (sc_stream ?c) \<noteq> None" for k
    by (rule padding_peer_endless) (simp_all add: new_streamConn_def new_stream_def read_skips_def)
  moreover have "sc_readBuf ?c = []" by (simp add: new_streamConn_def)
  ultimately have "streamConn_Read (padding_peer None) toy_crypto ?c 10 = None"
    using stream_read_outcome [of ?c "padding_peer None" toy_crypto 10] by blast
  moreover have "\<forall>t m t'. tr_ReadMessage (padding_peer (Some 3)) t = (Inr m, t') \<longrightarrow> t < t' \<and> t' \<le> 3"
    using padding_peer_in_time by blast
  then have "streamConn_Read (padding_peer (Some 3)) toy_crypto ?c 10 \<noteq> None"
    using stream_read_outcome [of ?c "padding_peer (Some 3)" toy_crypto 10 "\<lambda>t. t" 3] by blast
  ultimately show ?thesis ..
qed

text \<open>
  On a connection on which the peer sends a finite number of bytes \<^verbatim>\<open>Read\<close> always returns, with
  data or an error: every round of its loop uses up input. It returns by the read deadline at
  the latest, and in finite time also without one, unless the peer falls silent without
  closing.
\<close>
theorem stream_read_returns:
  "\<exists>res c'. streamConn_Read lf_transport C c n = Some (res, c') \<and>
     (case res of Inr b \<Rightarrow> length b \<le> n \<and> (0 < n \<longrightarrow> b \<noteq> []) | Inl err \<Rightarrow> True) \<and>
     nc_clock (lf_c (ss_tr (sc_stream c'))) \<le> max (nc_clock (lf_c (ss_tr (sc_stream c)))) (nc_rdl (lf_c (ss_tr (sc_stream c)))) \<and>
     (nc_clock (lf_c (ss_tr (sc_stream c))) \<noteq> \<infinity> \<and> \<not> nc_silent (lf_c (ss_tr (sc_stream c))) \<longrightarrow>
       nc_clock (lf_c (ss_tr (sc_stream c'))) \<noteq> \<infinity>)"
proof -
  obtain e c1 where f: "read_fill lf_transport C c = Some (e, c1)"
    using lf.read_fill_ends [of C c] by auto
  have "e = None \<Longrightarrow> sc_readBuf c1 \<noteq> []"
    using f read_fill_data by blast
  moreover have "read_timed (lf_c (ss_tr (sc_stream c))) (lf_c (ss_tr (sc_stream c1)))"
    using read_fill_does [OF Recv_timed f] .
  ultimately show ?thesis
    using f by (cases e) (auto simp: streamConn_Read_def read_timed_def conn_answers_def)
qed

theorem stream_read_returns_witness:
  "\<exists>res c'. streamConn_Read lf_transport toy_crypto ((new_streamConn (new_stream (NewLengthFramer (toy_conn []))
       \<lparr>fa_aead = [], fa_prefix = [], fa_counter = 0\<rparr> \<lparr>fa_aead = [], fa_prefix = [], fa_counter = 0\<rparr>))\<lparr>sc_readBuf := [5, 6]\<rparr>) 1 =
       Some (res, c') \<and> (case res of Inr b \<Rightarrow> length b \<le> 1 \<and> b \<noteq> [] | Inl err \<Rightarrow> True) \<and>
       nc_clock (lf_c (ss_tr (sc_stream c'))) \<noteq> \<infinity>"
proof -
  define c where "c = (new_streamConn (new_stream (NewLengthFramer (toy_conn []))
       \<lparr>fa_aead = [], fa_prefix = [], fa_counter = 0\<rparr> \<lparr>fa_aead = [], fa_prefix = [], fa_counter = 0\<rparr>))\<lparr>sc_readBuf := [5, 6]\<rparr>"
  have "nc_clock (lf_c (ss_tr (sc_stream c))) \<noteq> \<infinity>" "\<not> nc_silent (lf_c (ss_tr (sc_stream c)))"
    by (simp_all add: c_def new_streamConn_def new_stream_def NewLengthFramer_def)
  then obtain res c' where "streamConn_Read lf_transport toy_crypto c 1 = Some (res, c')"
    "case res of Inr b \<Rightarrow> length b \<le> 1 \<and> ((0 :: nat) < 1 \<longrightarrow> b \<noteq> []) | Inl err \<Rightarrow> True" "nc_clock (lf_c (ss_tr (sc_stream c'))) \<noteq> \<infinity>"
    using stream_read_returns [of toy_crypto c 1] by blast
  then show ?thesis
    unfolding c_def [symmetric] by (intro exI [of _ res] exI [of _ c']) (simp split: sum.splits)
qed

text \<open>
  \<^verbatim>\<open>Write\<close> keeps the contract of \<^verbatim>\<open>io.Writer\<close>: the count it returns is at most the length of its argument, and
  it is the whole length exactly when there is no error.
\<close>
theorem stream_write_result:
  assumes "streamConn_Write T C now c p rnd = ((n, err), c', rnd')"
  shows "n \<le> length p \<and> (err = None \<longleftrightarrow> n = length p)"
  using assms write_loop_result [of T C now 0 0 c p rnd n err c' rnd']
  by (auto simp: streamConn_Write_def split: if_splits)

theorem stream_write_result_witness:
  "\<exists>c n err c' rnd'. streamConn_Write lf_transport toy_crypto (\<lambda>_ _. 0) (c :: LengthFramer streamConn) [1, 2] [] = ((n, err), c', rnd') \<and>
     err = Some ErrClosedPipe \<and> n \<le> length [1, 2 :: byte] \<and> n \<noteq> length [1, 2 :: byte]"
proof -
  define f where "f = \<lparr>fa_aead = [], fa_prefix = [], fa_counter = 0\<rparr>"
  define c where "c = new_streamConn ((new_stream (NewLengthFramer (toy_conn [])) f f)\<lparr>ss_closed := True\<rparr>)"
  have "streamConn_Write lf_transport toy_crypto (\<lambda>_ _. 0) c [1, 2] [] = ((0, Some ErrClosedPipe), c, [])"
    by (simp add: streamConn_Write_def write_loop.simps c_def new_streamConn_def SendTCPData_def sendFrame_def ewp_consts
        maxPayload_def)
  from this stream_write_result [OF this] show ?thesis by blast
qed

text \<open>
  \<^verbatim>\<open>Close\<close> of a tunnel over a plain connection closes the connection twice, once through the
  transport and once directly, so it returns the error of the second time although
  everything was closed in order; later calls repeat the error and change nothing. Without
  the direct reference (message transports) it returns no error.
\<close>
theorem stream_close_reports_second_close:
  assumes "\<not> sc_closeOnce c" and "\<not> ss_closeOnce (sc_stream c)" and "\<not> nc_closed (lf_c (ss_tr (sc_stream c)))"
  shows "\<exists>c'. streamConn_Close lf_transport (Some lf_underlying) c = (Some ErrClosedConn, c') \<and>
    ss_closed (sc_stream c') \<and> nc_closed (lf_c (ss_tr (sc_stream c'))) \<and>
    streamConn_Close lf_transport (Some lf_underlying) c' = (Some ErrClosedConn, c') \<and>
    fst (streamConn_Close lf_transport None c) = None"
  using assms by (simp add: streamConn_Close_def SecureStream_Close_def lf_transport_def lf_underlying_def on_conn_def
    LengthFramer_Close_def conn_Close_def Let_def split: option.split)

theorem stream_close_reports_second_close_witness:
  "\<exists>c c'. NewClientSecureStream (NewLengthFramer (toy_conn [])) toy_keys = Inr c \<and>
     streamConn_Close lf_transport (Some lf_underlying) (new_streamConn c) = (Some ErrClosedConn, c')"
proof -
  obtain c where c: "NewClientSecureStream (NewLengthFramer (toy_conn [])) toy_keys = Inr c" and o: "\<not> ss_closeOnce c"
    "\<not> nc_closed (lf_c (ss_tr c))"
    by (rule that) (rule new_streams(1) [OF toy_keys_wf], simp_all add: new_stream_def NewLengthFramer_def)
  with stream_close_reports_second_close [of "new_streamConn c"] show ?thesis
    by (auto simp: new_streamConn_def)
qed

end
