(* ===== verification/Packet.thy ===== *)
theory Packet
  imports Conn
begin

text \<open>
  \<^verbatim>\<open>src/packetconn.go\<close>: the \<^verbatim>\<open>net.PacketConn\<close> an application gets for a UDP tunnel, and the
  conversions between \<^verbatim>\<open>net.Addr\<close> and \<^verbatim>\<open>Address\<close>. As in \<^verbatim>\<open>Conn\<close>, the methods of the
  field \<^verbatim>\<open>underlying\<close> are passed as \<open>U\<close>. A nil \<^verbatim>\<open>net.Addr\<close> is \<open>None\<close>.

  Shown: datagrams written on one end come out of \<^verbatim>\<open>ReadFrom\<close> at the other in order, each
  with its address; which frames \<^verbatim>\<open>ReadFrom\<close> passes over and what it returns, and that only a
  read deadline saves it from a peer that sends such frames for ever; \<^verbatim>\<open>Close\<close> returns in time; the address conversions are inverse where they
  can be; and what becomes of the target of the first datagram and of two concurrent first
  writers.
\<close>

section \<open>Addresses of package net\<close>

text \<open>\<^verbatim>\<open>netip.AddrFromSlice\<close> and \<^verbatim>\<open>netip.Addr.Unmap\<close>.\<close>

definition AddrFromSlice :: "bytes \<Rightarrow> netip_Addr option" where
  "AddrFromSlice b =
     (if length b = 4 then Some (AddrFrom4 b) else if length b = 16 then Some (AddrFrom16 b []) else None)"

fun Addr_Is4In6 :: "netip_Addr \<Rightarrow> bool" where
  "Addr_Is4In6 (AddrFrom16 b _) \<longleftrightarrow> take 12 b = replicate 10 0 @ [0xff, 0xff]"
| "Addr_Is4In6 _ \<longleftrightarrow> False"

definition Addr_Unmap :: "netip_Addr \<Rightarrow> netip_Addr" where
  "Addr_Unmap a = (if Addr_Is4In6 a then AddrFrom4 (drop 12 (Addr_bytes a)) else a)"

definition addrToEWP :: "net_Addr option \<Rightarrow> ewp_error + Address" where
  "addrToEWP addr =
     (case addr of
        Some (UDPAddr ip port zone) \<Rightarrow>
          (case AddrFromSlice ip of
             None \<Rightarrow> Inl ErrNetAddr
           | Some ap \<Rightarrow> Inr (Address_zero\<lparr>addr_Addr := \<lparr>ap_ip = Addr_Unmap ap, ap_port = word_of_int port\<rparr>\<rparr>))
      | Some (TCPAddr ip port zone) \<Rightarrow>
          (case AddrFromSlice ip of
             None \<Rightarrow> Inl ErrNetAddr
           | Some ap \<Rightarrow> Inr (Address_zero\<lparr>addr_Addr := \<lparr>ap_ip = Addr_Unmap ap, ap_port = word_of_int port\<rparr>\<rparr>))
      | Some (FqdnAddr fqdn port) \<Rightarrow>
          if length fqdn > MaxDomainLen then Inl ErrDomainLen
          else Inr (Address_zero\<lparr>addr_Domain := fqdn, addr_Port := port\<rparr>)
      | _ \<Rightarrow> Inl ErrNetAddr)"

fun Addr_Zone :: "netip_Addr \<Rightarrow> string" where
  "Addr_Zone (AddrFrom16 _ z) = z"
| "Addr_Zone _ = []"

definition ewpToNetAddr :: "Address \<Rightarrow> net_Addr option" where
  "ewpToNetAddr a =
     (if addr_Domain a \<noteq> [] then Some (FqdnAddr (addr_Domain a) (addr_Port a))
      else if AddrPort_IsValid (addr_Addr a) then
        Some (UDPAddr (Addr_bytes (ap_ip (addr_Addr a))) (uint (ap_port (addr_Addr a))) (Addr_Zone (ap_ip (addr_Addr a))))
      else None)"

section \<open>packetConn\<close>

text \<open>The payload slices are nil or not: \<open>None\<close> is a nil \<^verbatim>\<open>pendingFirst\<close>.\<close>

record 't packetConn =
  pc_stream :: "'t SecureStream"
  pc_globalID :: bytes
  pc_defaultDst :: Address
  pc_isServer :: bool
  pc_pendingFirst :: "bytes option"
  pc_pendingFirstSrc :: Address
  pc_opened :: bool
  pc_closeOnce :: bool
  pc_closeErr :: "ewp_error option"

definition newClientPacketConn ::
  "'t SecureStream \<Rightarrow> Address \<Rightarrow> bytes \<Rightarrow> (ewp_error + 't packetConn) \<times> bytes" where
  "newClientPacketConn stream dst rnd =
     (case NewGlobalID rnd of
        (Inl err, rnd) \<Rightarrow> (Inl err, rnd)
      | (Inr gid, rnd) \<Rightarrow>
          (Inr \<lparr>pc_stream = stream, pc_globalID = gid, pc_defaultDst = dst, pc_isServer = False,
                pc_pendingFirst = None, pc_pendingFirstSrc = Address_zero, pc_opened = False,
                pc_closeOnce = False, pc_closeErr = None\<rparr>, rnd))"

text \<open>\<open>initial\<close> is the payload of a decoded frame, which is nil when it has no bytes.\<close>

definition newServerPacketConn ::
  "'t SecureStream \<Rightarrow> bytes \<Rightarrow> Address \<Rightarrow> bytes \<Rightarrow> 't packetConn" where
  "newServerPacketConn stream globalID defaultDst initial =
     \<lparr>pc_stream = stream, pc_globalID = globalID, pc_defaultDst = defaultDst, pc_isServer = True,
      pc_pendingFirst = (if initial = [] then None else Some initial), pc_pendingFirstSrc = defaultDst,
      pc_opened = True, pc_closeOnce = False, pc_closeErr = None\<rparr>"

definition ensureOpen ::
  "'t transport \<Rightarrow> crypto \<Rightarrow> int \<Rightarrow> 't packetConn \<Rightarrow> bytes \<Rightarrow> bytes \<Rightarrow> ewp_error option \<times> 't packetConn \<times> bytes" where
  "ensureOpen T C now p payload rnd =
     (if pc_opened p then (None, p, rnd)
      else
        case SendUDPNew T C now (pc_stream p) (pc_globalID p) (pc_defaultDst p) payload rnd of
          (Some err, s, rnd) \<Rightarrow> (Some err, p\<lparr>pc_stream := s\<rparr>, rnd)
        | (None, s, rnd) \<Rightarrow> (None, p\<lparr>pc_stream := s, pc_opened := True\<rparr>, rnd))"

text \<open>
  \<^verbatim>\<open>WriteToAddress\<close> reads the field \<^verbatim>\<open>opened\<close> without its mutex and acts on what it has read;
  \<open>write_seen\<close> is the part after that test, so that another writer can be put in between.
\<close>

definition write_seen ::
  "bool \<Rightarrow> 't transport \<Rightarrow> crypto \<Rightarrow> int \<Rightarrow> 't packetConn \<Rightarrow> bytes \<Rightarrow> Address \<Rightarrow> bytes \<Rightarrow>
   (nat \<times> ewp_error option) \<times> 't packetConn \<times> bytes" where
  "write_seen opened T C now p b target rnd =
     (if \<not> pc_isServer p \<and> \<not> opened then
        (case ensureOpen T C now p b rnd of
           (None, p, rnd) \<Rightarrow> ((length b, None), p, rnd)
         | (Some err, p, rnd) \<Rightarrow> ((0, Some err), p, rnd))
      else
        (case SendUDPData T C now (pc_stream p) (pc_globalID p) target b rnd of
           (Some err, s, rnd) \<Rightarrow> ((0, Some err), p\<lparr>pc_stream := s\<rparr>, rnd)
         | (None, s, rnd) \<Rightarrow> ((length b, None), p\<lparr>pc_stream := s\<rparr>, rnd)))"

definition WriteToAddress ::
  "'t transport \<Rightarrow> crypto \<Rightarrow> int \<Rightarrow> 't packetConn \<Rightarrow> bytes \<Rightarrow> Address \<Rightarrow> bytes \<Rightarrow>
   (nat \<times> ewp_error option) \<times> 't packetConn \<times> bytes" where
  "WriteToAddress T C now p b target rnd = write_seen (pc_opened p) T C now p b target rnd"

definition WriteTo ::
  "'t transport \<Rightarrow> crypto \<Rightarrow> int \<Rightarrow> 't packetConn \<Rightarrow> bytes \<Rightarrow> net_Addr option \<Rightarrow> bytes \<Rightarrow>
   (nat \<times> ewp_error option) \<times> 't packetConn \<times> bytes" where
  "WriteTo T C now p b addr rnd =
     (case addrToEWP addr of
        Inl err \<Rightarrow> ((0, Some err), p, rnd)
      | Inr target \<Rightarrow> WriteToAddress T C now p b target rnd)"

text \<open>The loop of \<^verbatim>\<open>ReadFrom\<close> for a buffer of \<open>n\<close> bytes: the bytes copied and their source.\<close>

partial_function (option) read_loop ::
  "'t transport \<Rightarrow> crypto \<Rightarrow> nat \<Rightarrow> 't packetConn \<Rightarrow>
   ((ewp_error + bytes \<times> net_Addr option) \<times> 't packetConn) option" where
  "read_loop T C n p =
     (case Recv T C (pc_stream p) of
        (Inl err, s) \<Rightarrow> Some (Inl err, p\<lparr>pc_stream := s\<rparr>)
      | (Inr ev, s) \<Rightarrow>
          if ev_Type ev \<in> set [FrameUDPData, FrameUDPNew] then
            (if ev_GlobalID ev \<noteq> pc_globalID p then read_loop T C n (p\<lparr>pc_stream := s\<rparr>)
             else
               Some (Inr (take n (ev_Payload ev),
                          if ev_HasAddr ev then ewpToNetAddr (ev_Address ev) else ewpToNetAddr (pc_defaultDst p)),
                     p\<lparr>pc_stream := s\<rparr>))
          else if ev_Type ev = FrameUDPEnd then
            (if ev_GlobalID ev = pc_globalID p then Some (Inl EOF, p\<lparr>pc_stream := s\<rparr>)
             else read_loop T C n (p\<lparr>pc_stream := s\<rparr>))
          else if ev_Type ev \<in> set [FramePing, FramePong, FramePaddingOnly, FrameUDPProbeReq, FrameUDPProbeResp] then
            read_loop T C n (p\<lparr>pc_stream := s\<rparr>)
          else Some (Inl (ErrUnexpectedFrame (ev_Type ev)), p\<lparr>pc_stream := s\<rparr>))"

definition ReadFrom ::
  "'t transport \<Rightarrow> crypto \<Rightarrow> nat \<Rightarrow> 't packetConn \<Rightarrow>
   ((ewp_error + bytes \<times> net_Addr option) \<times> 't packetConn) option" where
  "ReadFrom T C n p =
     (case pc_pendingFirst p of
        Some first \<Rightarrow>
          Some (Inr (take n first, ewpToNetAddr (pc_pendingFirstSrc p)), p\<lparr>pc_pendingFirst := None\<rparr>)
      | None \<Rightarrow> read_loop T C n p)"

text \<open>
  \<^verbatim>\<open>Close\<close>; \<open>now_dl\<close> is the clock reading, in nanoseconds, from which the deadline for
  the last frame is computed, and \<^verbatim>\<open>_ = underlying.SetWriteDeadline(t)\<close> is \<open>set_write_deadline\<close>.
\<close>

definition set_write_deadline :: "'t net_methods \<Rightarrow> enat \<Rightarrow> 't SecureStream \<Rightarrow> 't SecureStream" where
  "set_write_deadline underlying t s = s\<lparr>ss_tr := snd (nm_SetWriteDeadline underlying t (ss_tr s))\<rparr>"

definition packetConn_Close ::
  "'t transport \<Rightarrow> 't net_methods option \<Rightarrow> crypto \<Rightarrow> nat \<Rightarrow> int \<Rightarrow> 't packetConn \<Rightarrow> bytes \<Rightarrow>
   ewp_error option \<times> 't packetConn \<times> bytes" where
  "packetConn_Close T U C now_dl now p rnd =
     (if pc_closeOnce p then (pc_closeErr p, p, rnd)
      else
        let (s, rnd) =
              (case U of
                 Some underlying \<Rightarrow>
                   if pc_opened p then
                     let s = set_write_deadline underlying (enat (now_dl + 100 * 1000000)) (pc_stream p) in
                     (case SendUDPEnd T C now s (pc_globalID p) rnd of
                        (_, s, rnd) \<Rightarrow> (set_write_deadline underlying \<infinity> s, rnd))
                   else (pc_stream p, rnd)
               | None \<Rightarrow> (pc_stream p, rnd));
            (closeErr, s) = SecureStream_Close T s in
        (case U of
           None \<Rightarrow> (closeErr, p\<lparr>pc_stream := s, pc_closeOnce := True, pc_closeErr := closeErr\<rparr>, rnd)
         | Some underlying \<Rightarrow>
             (case nm_Close underlying (ss_tr s) of (err, tr) \<Rightarrow>
                let closeErr = (if err \<noteq> None \<and> closeErr = None then err else closeErr) in
                (closeErr, p\<lparr>pc_stream := s\<lparr>ss_tr := tr\<rparr>, pc_closeOnce := True, pc_closeErr := closeErr\<rparr>, rnd))))"

definition packetConn_LocalAddr :: "'t net_methods option \<Rightarrow> 't packetConn \<Rightarrow> net_Addr option" where
  "packetConn_LocalAddr U p =
     (case U of Some underlying \<Rightarrow> nm_LocalAddr underlying (ss_tr (pc_stream p)) | None \<Rightarrow> None)"

definition packetConn_SetDeadline ::
  "'t net_methods option \<Rightarrow> enat \<Rightarrow> 't packetConn \<Rightarrow> ewp_error option \<times> 't packetConn" where
  "packetConn_SetDeadline U t p =
     (case U of
        Some underlying \<Rightarrow>
          (case nm_SetDeadline underlying t (ss_tr (pc_stream p)) of (err, tr) \<Rightarrow>
             (err, p\<lparr>pc_stream := (pc_stream p)\<lparr>ss_tr := tr\<rparr>\<rparr>))
      | None \<Rightarrow> (None, p))"

definition packetConn_SetReadDeadline ::
  "'t net_methods option \<Rightarrow> enat \<Rightarrow> 't packetConn \<Rightarrow> ewp_error option \<times> 't packetConn" where
  "packetConn_SetReadDeadline U t p =
     (case U of
        Some underlying \<Rightarrow>
          (case nm_SetReadDeadline underlying t (ss_tr (pc_stream p)) of (err, tr) \<Rightarrow>
             (err, p\<lparr>pc_stream := (pc_stream p)\<lparr>ss_tr := tr\<rparr>\<rparr>))
      | None \<Rightarrow> (None, p))"

definition packetConn_SetWriteDeadline ::
  "'t net_methods option \<Rightarrow> enat \<Rightarrow> 't packetConn \<Rightarrow> ewp_error option \<times> 't packetConn" where
  "packetConn_SetWriteDeadline U t p =
     (case U of
        Some underlying \<Rightarrow>
          (case nm_SetWriteDeadline underlying t (ss_tr (pc_stream p)) of (err, tr) \<Rightarrow>
             (err, p\<lparr>pc_stream := (pc_stream p)\<lparr>ss_tr := tr\<rparr>\<rparr>))
      | None \<Rightarrow> (None, p))"


section \<open>Writing and reading datagrams\<close>

text \<open>Datagrams written one after the other until one fails, and read one after the other.\<close>

fun write_datagrams ::
  "'t transport \<Rightarrow> crypto \<Rightarrow> (nat \<Rightarrow> int) \<Rightarrow> 't packetConn \<Rightarrow> (bytes \<times> Address) list \<Rightarrow> bytes \<Rightarrow>
   ewp_error option \<times> 't packetConn \<times> bytes" where
  "write_datagrams T C now p [] rnd = (None, p, rnd)"
| "write_datagrams T C now p (d # ds) rnd =
     (case WriteToAddress T C (now (length ds)) p (fst d) (snd d) rnd of
        ((_, Some err), p, rnd) \<Rightarrow> (Some err, p, rnd)
      | ((_, None), p, rnd) \<Rightarrow> write_datagrams T C now p ds rnd)"

fun read_datagrams ::
  "'t transport \<Rightarrow> crypto \<Rightarrow> nat \<Rightarrow> nat \<Rightarrow> 't packetConn \<Rightarrow>
   ((ewp_error + (bytes \<times> net_Addr option) list) \<times> 't packetConn) option" where
  "read_datagrams T C n 0 p = Some (Inr [], p)"
| "read_datagrams T C n (Suc k) p =
     (case ReadFrom T C n p of
        None \<Rightarrow> None
      | Some (Inl err, p) \<Rightarrow> Some (Inl err, p)
      | Some (Inr d, p) \<Rightarrow>
          (case read_datagrams T C n k p of
             None \<Rightarrow> None
           | Some (Inl err, p) \<Rightarrow> Some (Inl err, p)
           | Some (Inr ds, p) \<Rightarrow> Some (Inr (d # ds), p)))"

text \<open>
  An event is a datagram for the connection, or one \<^verbatim>\<open>ReadFrom\<close> passes over: a frame of
  another sub-session or a control frame.
\<close>

definition own_datagram :: "bytes \<Rightarrow> Event \<Rightarrow> bool" where
  "own_datagram gid ev \<longleftrightarrow> ev_Type ev \<in> {FrameUDPData, FrameUDPNew} \<and> ev_GlobalID ev = gid"

definition passed_over :: "bytes \<Rightarrow> Event \<Rightarrow> bool" where
  "passed_over gid ev \<longleftrightarrow>
     ev_Type ev \<in> {FrameUDPData, FrameUDPNew, FrameUDPEnd} \<and> ev_GlobalID ev \<noteq> gid \<or>
     ev_Type ev \<in> {FramePing, FramePong, FramePaddingOnly, FrameUDPProbeReq, FrameUDPProbeResp}"

definition datagram_of :: "nat \<Rightarrow> Address \<Rightarrow> Event \<Rightarrow> bytes \<times> net_Addr option" where
  "datagram_of n dst ev =
     (take n (ev_Payload ev), ewpToNetAddr (if ev_HasAddr ev then ev_Address ev else dst))"

text \<open>What \<^verbatim>\<open>ReadFrom\<close> makes of an outcome of \<^verbatim>\<open>Recv\<close> that it does not pass over.\<close>

definition read_result :: "nat \<Rightarrow> 't packetConn \<Rightarrow> ewp_error + Event \<Rightarrow> ewp_error + bytes \<times> net_Addr option" where
  "read_result n p r =
     (case r of
        Inl err \<Rightarrow> Inl err
      | Inr ev \<Rightarrow>
          if ev_Type ev \<in> {FrameUDPData, FrameUDPNew} then Inr (datagram_of n (pc_defaultDst p) ev)
          else if ev_Type ev = FrameUDPEnd then Inl EOF
          else Inl (ErrUnexpectedFrame (ev_Type ev)))"

lemma read_result_stream [simp]: "read_result n (p\<lparr>pc_stream := s\<rparr>) r = read_result n p r"
  by (cases r) (simp_all add: read_result_def)

lemma passed_over_not_own: "passed_over gid ev \<Longrightarrow> \<not> own_datagram gid ev"
  by (auto simp: passed_over_def own_datagram_def frame_types)

context message_transport
begin

lemma read_loop_incoming:
  assumes "aead_ok C" and "incoming C (pc_stream p) (es @ ev # evs) rest"
    and "list_all (passed_over (pc_globalID p)) es" and "own_datagram (pc_globalID p) ev"
  shows "\<exists>s. read_loop T C n p = Some (Inr (datagram_of n (pc_defaultDst p) ev), p\<lparr>pc_stream := s\<rparr>) \<and>
    incoming C s evs rest"
  using assms(2-4)
proof (induction es arbitrary: p)
  case Nil
  obtain s where s: "Recv T C (pc_stream p) = (Inr ev, s)" "incoming C s evs rest"
    using incoming_Recv [OF assms(1), of "pc_stream p" ev evs rest] Nil.prems(1) by auto
  with Nil.prems(3) show ?case
    by (subst read_loop.simps) (auto simp: own_datagram_def datagram_of_def)
next
  case (Cons e es)
  obtain s where s: "Recv T C (pc_stream p) = (Inr e, s)" "incoming C s (es @ ev # evs) rest"
    using incoming_Recv [OF assms(1), of "pc_stream p" e "es @ ev # evs" rest] Cons.prems(1) by auto
  have "read_loop T C n p = read_loop T C n (p\<lparr>pc_stream := s\<rparr>)"
    using s(1) Cons.prems(2) by (subst read_loop.simps) (auto simp: passed_over_def frame_types)
  with Cons.IH [of "p\<lparr>pc_stream := s\<rparr>"] s(2) Cons.prems(2,3) show ?case by simp
qed

lemma read_datagrams_incoming:
  assumes "aead_ok C" and "incoming C (pc_stream p) evs rest" and "pc_pendingFirst p = None"
    and "list_all (\<lambda>ev. own_datagram (pc_globalID p) ev \<or> passed_over (pc_globalID p) ev) evs"
  shows "\<exists>p'. read_datagrams T C n (length (filter (own_datagram (pc_globalID p)) evs)) p =
    Some (Inr (map (datagram_of n (pc_defaultDst p)) (filter (own_datagram (pc_globalID p)) evs)), p')"
  using assms(2-4)
proof (induction "length evs" arbitrary: p evs rule: less_induct)
  case less
  let ?own = "own_datagram (pc_globalID p)"
  show ?case
  proof (cases "filter ?own evs")
    case Nil
    then show ?thesis by simp
  next
    case (Cons ev rs)
    from Cons obtain es evs' where e: "evs = es @ ev # evs'" "\<forall>x \<in> set es. \<not> ?own x" "?own ev" "rs = filter ?own evs'"
      by (auto simp: filter_eq_Cons_iff)
    have "list_all (passed_over (pc_globalID p)) es"
      using less.prems(3) e(1,2) by (auto simp: list_all_iff)
    from read_loop_incoming [OF assms(1) less.prems(1) [unfolded e(1)] this e(3)] obtain s where
      s: "read_loop T C n p = Some (Inr (datagram_of n (pc_defaultDst p) ev), p\<lparr>pc_stream := s\<rparr>)" "incoming C s evs' rest"
      by blast
    have "\<exists>p'. read_datagrams T C n (length (filter ?own evs')) (p\<lparr>pc_stream := s\<rparr>) =
        Some (Inr (map (datagram_of n (pc_defaultDst p)) (filter ?own evs')), p')"
      using less.hyps [of evs' "p\<lparr>pc_stream := s\<rparr>"] e(1) s(2) less.prems(2,3) by simp
    with s(1) less.prems(2) Cons e(4) show ?thesis by (auto simp: ReadFrom_def)
  qed
qed

text \<open>Writing: an open sub-session sends data frames, a new one opens with the first datagram.\<close>

lemma WriteToAddress_data:
  assumes "WriteToAddress T C now p b a rnd = ((k, None), p', rnd')" and "pc_isServer p \<or> pc_opened p"
    and "length (pc_globalID p) = 8" and "wf_Address a"
  shows "k = length b \<and> p' = p\<lparr>pc_stream := pc_stream p'\<rparr> \<and>
    sent_run C (pc_stream p) [udp_event FrameUDPData (pc_globalID p) a b] (pc_stream p')"
proof -
  obtain s where s: "SendUDPData T C now (pc_stream p) (pc_globalID p) a b rnd = (None, s, rnd')"
    and "p' = p\<lparr>pc_stream := s\<rparr>" "k = length b"
    using assms(1,2) by (auto simp: WriteToAddress_def write_seen_def split: prod.splits option.splits)
  with send_udp_meta_run [OF s [unfolded SendUDPData_def] _ assms(3,4)] show ?thesis by simp
qed

lemma WriteToAddress_first:
  assumes "WriteToAddress T C now p b a rnd = ((k, None), p', rnd')" and "\<not> pc_isServer p" and "\<not> pc_opened p"
    and "length (pc_globalID p) = 8" and "wf_Address (pc_defaultDst p)"
  shows "k = length b \<and> p' = p\<lparr>pc_stream := pc_stream p', pc_opened := True\<rparr> \<and>
    sent_run C (pc_stream p) [udp_event FrameUDPNew (pc_globalID p) (pc_defaultDst p) b] (pc_stream p')"
proof -
  obtain s where s: "SendUDPNew T C now (pc_stream p) (pc_globalID p) (pc_defaultDst p) b rnd = (None, s, rnd')"
    and "p' = p\<lparr>pc_stream := s, pc_opened := True\<rparr>" "k = length b"
    using assms(1-3) by (auto simp: WriteToAddress_def write_seen_def ensureOpen_def split: prod.splits option.splits)
  with send_udp_meta_run [OF s [unfolded SendUDPNew_def] _ assms(4,5)] show ?thesis by simp
qed

lemma write_datagrams_run:
  assumes "write_datagrams T C now p ds rnd = (None, p', rnd')" and "pc_isServer p \<or> pc_opened p"
    and "length (pc_globalID p) = 8" and "\<forall>d \<in> set ds. wf_Address (snd d)"
  shows "sent_run C (pc_stream p) (map (\<lambda>d. udp_event FrameUDPData (pc_globalID p) (snd d) (fst d)) ds) (pc_stream p')"
  using assms
proof (induction ds arbitrary: p rnd)
  case Nil
  then show ?case by (simp add: sent_run_refl)
next
  case (Cons d ds)
  then obtain k p1 r1 where w: "WriteToAddress T C (now (length ds)) p (fst d) (snd d) rnd = ((k, None), p1, r1)"
    and r: "write_datagrams T C now p1 ds r1 = (None, p', rnd')"
    by (auto split: prod.splits option.splits)
  have s: "p1 = p\<lparr>pc_stream := pc_stream p1\<rparr>"
    "sent_run C (pc_stream p) [udp_event FrameUDPData (pc_globalID p) (snd d) (fst d)] (pc_stream p1)"
    using WriteToAddress_data [OF w Cons.prems(2,3)] Cons.prems(4) by simp_all
  have f: "pc_globalID p1 = pc_globalID p" "pc_isServer p1 = pc_isServer p" "pc_opened p1 = pc_opened p"
    using arg_cong [OF s(1), of pc_globalID] arg_cong [OF s(1), of pc_isServer] arg_cong [OF s(1), of pc_opened] by simp_all
  have "sent_run C (pc_stream p1) (map (\<lambda>d. udp_event FrameUDPData (pc_globalID p) (snd d) (fst d)) ds) (pc_stream p')"
    using Cons.IH [OF r] Cons.prems f by simp
  from sent_run_trans [OF s(2) this] show ?case by simp
qed

lemma read_loop_ends: "\<exists>r. read_loop T C n p = Some r"
proof (induction "length (inp (ss_tr (pc_stream p)))" arbitrary: p rule: less_induct)
  case less
  obtain res s where R: "Recv T C (pc_stream p) = (res, s)"
    by (metis prod.exhaust)
  show ?case
  proof (cases res)
    case (Inl e)
    with R show ?thesis by (subst read_loop.simps) simp
  next
    case (Inr ev)
    have "\<exists>r. read_loop T C n (p\<lparr>pc_stream := s\<rparr>) = Some r"
      by (rule less.hyps) (simp add: Recv_shrinks [OF R [unfolded Inr]])
    with R Inr show ?thesis by (subst read_loop.simps) auto
  qed
qed

end

lemma datagram_events:
  "filter (own_datagram gid) (map (\<lambda>d. udp_event FrameUDPData gid (snd d) (fst d)) ds) =
     map (\<lambda>d. udp_event FrameUDPData gid (snd d) (fst d)) ds"
  "list_all (own_datagram gid) (map (\<lambda>d. udp_event FrameUDPData gid (snd d) (fst d)) ds)"
  by (induction ds) (auto simp: own_datagram_def udp_event_def)

lemma datagram_of_udp_event:
  "datagram_of n dst (udp_event t gid a b) = (take n b, ewpToNetAddr (if has_target a then canon a else dst))"
  by (simp add: datagram_of_def udp_event_def)

section \<open>Properties\<close>

lemma set_write_deadline_lf:
  "set_write_deadline lf_underlying t s =
     s\<lparr>ss_tr := (ss_tr s)\<lparr>lf_c := (if nc_closed (lf_c (ss_tr s)) then lf_c (ss_tr s) else (lf_c (ss_tr s))\<lparr>nc_wdl := t\<rparr>)\<rparr>\<rparr>"
  by (simp add: set_write_deadline_def lf_underlying_def on_conn_def conn_SetWriteDeadline_def)

lemma read_loop_bound:
  assumes "read_loop T C n p = Some (res, p')"
  shows "case res of Inr (b, src) \<Rightarrow> length b \<le> n | Inl err \<Rightarrow> True"
proof -
  have "case fst y of Inr (b, src) \<Rightarrow> length b \<le> n | Inl err \<Rightarrow> True" if "read_loop T C n p = Some y" for y
    using _ that
  proof (rule read_loop.raw_induct [where P = "\<lambda>T C n p y. case fst y of Inr (b, src) \<Rightarrow> length b \<le> n | Inl err \<Rightarrow> True"],
      goal_cases)
    case (1 rf T C n p y)
    from 1(2) show ?case by (auto split: if_splits prod.splits sum.splits dest: 1(1))
  qed
  from this [OF assms] show ?thesis by simp
qed

text \<open>
  C17: A UDP tunnel delivers datagrams. What one end has written without error on an open sub-session,
  the other end, in the matching cipher state and with the same GlobalID, reads with as many
  calls of \<^verbatim>\<open>ReadFrom\<close>: each datagram once, in order, cut to the buffer, with the address it
  was written to (in the form the wire keeps), or with the default destination where it was
  written to no valid address.
\<close>
theorem udp_tunnel_delivers:
  assumes "aead_ok C" and "wf_fa (ss_send (pc_stream p))" and "pc_isServer p \<or> pc_opened p"
    and "length (pc_globalID p) = 8" and "\<forall>d \<in> set ds. wf_Address (snd d)"
    and "write_datagrams lf_transport C now p ds rnd = (None, p', rnd')"
    and "ss_recv (pc_stream q) = ss_send (pc_stream p)" and "\<not> ss_closed (pc_stream q)"
    and "conn_ready (lf_c (ss_tr (pc_stream q)))" and "pc_globalID q = pc_globalID p" and "pc_pendingFirst q = None"
    and "nc_in (lf_c (ss_tr (pc_stream q))) =
      drop (length (nc_out (lf_c (ss_tr (pc_stream p))))) (nc_out (lf_c (ss_tr (pc_stream p')))) @ rest"
  shows "\<exists>q'. read_datagrams lf_transport C n (length ds) q = Some (Inr (map (\<lambda>d. (take n (fst d),
    ewpToNetAddr (if has_target (snd d) then canon (snd d) else pc_defaultDst q))) ds), q')"
proof -
  let ?evs = "map (\<lambda>d. udp_event FrameUDPData (pc_globalID p) (snd d) (fst d)) ds"
  have r: "lf.sent_run C (pc_stream p) ?evs (pc_stream p')"
    by (rule lf.write_datagrams_run [OF assms(6,3-5)])
  then obtain w where w: "lf_out (ss_tr (pc_stream p')) = lf_out (ss_tr (pc_stream p)) @ w"
    unfolding lf.sent_run_def by blast
  have i: "lf.incoming C (pc_stream q) ?evs rest"
    by (rule lf.sent_run_incoming [OF r assms(2,7,8) _ w])
      (use assms(9,12) w in \<open>simp_all add: lf_open_def lf_in_def lf_out_def\<close>)
  have "list_all (\<lambda>ev. own_datagram (pc_globalID q) ev \<or> passed_over (pc_globalID q) ev) ?evs"
    using datagram_events(2) [of "pc_globalID p" ds] assms(10) by (auto simp: list_all_iff)
  from lf.read_datagrams_incoming [OF assms(1) i assms(11) this, of n] show ?thesis
    unfolding assms(10) datagram_events(1) by (simp add: comp_def datagram_of_udp_event)
qed

text \<open>A server-side connection that can write, and its peer.\<close>

definition toy_packet :: "LengthFramer packetConn" where
  "toy_packet = newServerPacketConn
     (new_stream (NewLengthFramer (toy_conn [])) \<lparr>fa_aead = C2SKey toy_keys, fa_prefix = C2SNonce toy_keys, fa_counter = 0\<rparr>
        \<lparr>fa_aead = S2CKey toy_keys, fa_prefix = S2CNonce toy_keys, fa_counter = 0\<rparr>)
     (replicate 8 7) Address_zero []"

definition toy_packet_peer :: "bytes \<Rightarrow> LengthFramer packetConn" where
  "toy_packet_peer w = newServerPacketConn
     (new_stream (NewLengthFramer (toy_conn w)) \<lparr>fa_aead = S2CKey toy_keys, fa_prefix = S2CNonce toy_keys, fa_counter = 0\<rparr>
        \<lparr>fa_aead = C2SKey toy_keys, fa_prefix = C2SNonce toy_keys, fa_counter = 0\<rparr>)
     (replicate 8 7) Address_zero []"

lemma ewpToNetAddr_zero: "ewpToNetAddr Address_zero = None"
  by (simp add: ewpToNetAddr_def Address_zero_def AddrPort_zero_def AddrPort_IsValid_def)

lemma toy_packet_facts:
  "wf_fa (ss_send (pc_stream toy_packet))" "\<not> ss_closed (pc_stream toy_packet)" "lf_open (ss_tr (pc_stream toy_packet))"
  "nc_room (lf_c (ss_tr (pc_stream toy_packet))) = 1000000" "nc_out (lf_c (ss_tr (pc_stream toy_packet))) = []"
  "pc_isServer toy_packet" "pc_opened toy_packet" "\<not> pc_closeOnce toy_packet" "pc_globalID toy_packet = replicate 8 7"
  "ss_recv (pc_stream (toy_packet_peer w)) = ss_send (pc_stream toy_packet)" "\<not> ss_closed (pc_stream (toy_packet_peer w))"
  "conn_ready (lf_c (ss_tr (pc_stream (toy_packet_peer w))))" "pc_globalID (toy_packet_peer w) = replicate 8 7"
  "pc_pendingFirst (toy_packet_peer w) = None" "pc_defaultDst (toy_packet_peer w) = Address_zero" "nc_in (lf_c (ss_tr (pc_stream (toy_packet_peer w)))) = w"
  by (simp_all add: toy_packet_def toy_packet_peer_def newServerPacketConn_def new_stream_def NewLengthFramer_def lf_open_def
      wf_fa_def toy_keys_def)

theorem udp_tunnel_delivers_witness:
  "\<exists>p' rnd' q'. write_datagrams lf_transport toy_crypto (\<lambda>_. 0) toy_packet [([1, 2, 3], Address_zero)] (replicate 5000 0) =
       (None, p', rnd') \<and>
     read_datagrams lf_transport toy_crypto 2 (length [([1 :: byte, 2, 3], Address_zero)])
       (toy_packet_peer (nc_out (lf_c (ss_tr (pc_stream p'))))) = Some (Inr [([1, 2], None)], q')"
proof -
  note f = toy_packet_facts
  obtain s' rnd' where s: "sendFrame lf_transport toy_crypto 0 (pc_stream toy_packet) FrameUDPData (replicate 8 7) [1, 2, 3] (-1)
      (replicate 5000 0) = (None, s', rnd')"
    using sendFrame_lf [OF toy_aead_ok f(1,2), of FrameUDPData "replicate 8 7" "[1, 2, 3]" "replicate 5000 0" 0] f(3,4)
    by (auto simp: FrameType_Valid_def)
  define p' where "p' = toy_packet\<lparr>pc_stream := s'\<rparr>"
  have "buildUDPMeta (replicate 8 7) Address_zero = Inr (replicate 8 7)"
    by (simp add: buildUDPMeta_def IsDomain_def AddrPort_IsValid_def Address_zero_def AddrPort_zero_def array_copy_def ewp_consts)
  then have w: "write_datagrams lf_transport toy_crypto (\<lambda>_. 0) toy_packet [([1, 2, 3], Address_zero)] (replicate 5000 0) =
      (None, p', rnd')"
    using s f(6,9) by (simp add: WriteToAddress_def write_seen_def SendUDPData_def send_udp_meta_def p'_def)
  have "\<exists>q'. read_datagrams lf_transport toy_crypto 2 (length [([1 :: byte, 2, 3], Address_zero)])
      (toy_packet_peer (nc_out (lf_c (ss_tr (pc_stream p'))))) =
    Some (Inr (map (\<lambda>d. (take 2 (fst d), ewpToNetAddr (if has_target (snd d) then canon (snd d)
      else pc_defaultDst (toy_packet_peer (nc_out (lf_c (ss_tr (pc_stream p')))))))) [([1, 2, 3], Address_zero)]), q')"
    by (rule udp_tunnel_delivers [OF toy_aead_ok f(1) disjI1 [OF f(6)] _ _ w, where rest = "[]"])
      (simp_all add: f wf_Address_def Address_zero_def AddrPort_zero_def)
  then obtain q' where "read_datagrams lf_transport toy_crypto 2 (length [([1 :: byte, 2, 3], Address_zero)])
      (toy_packet_peer (nc_out (lf_c (ss_tr (pc_stream p'))))) = Some (Inr [([1, 2], None)], q')"
    by (auto simp: f ewpToNetAddr_zero simp del: read_datagrams.simps)
  with w show ?thesis by (intro exI conjI)
qed

text \<open>
  Closing a UDP tunnel ends it for the peer: when \<^verbatim>\<open>Close\<close> is called on an open sub-session whose
  connection still takes a frame within the 100 ms that \<^verbatim>\<open>Close\<close> allows, the peer that has read
  all datagrams gets \<^verbatim>\<open>io.EOF\<close> from its next \<^verbatim>\<open>ReadFrom\<close>.
\<close>
theorem packet_close_ends_peer:
  assumes "aead_ok C" and "wf_fa (ss_send (pc_stream p))" and "\<not> ss_closed (pc_stream p)"
    and "conn_ready (lf_c (ss_tr (pc_stream p)))" and "conn_on_time (enat (t + 100000000)) (lf_c (ss_tr (pc_stream p)))"
    and "65536 \<le> nc_room (lf_c (ss_tr (pc_stream p)))"
    and "4100 \<le> length rnd" and "pc_opened p" and "\<not> pc_closeOnce p" and "length (pc_globalID p) = 8"
    and "packetConn_Close lf_transport (Some lf_underlying) C t now p rnd = (err, p', rnd')"
    and "ss_recv (pc_stream q) = ss_send (pc_stream p)" and "\<not> ss_closed (pc_stream q)"
    and "conn_ready (lf_c (ss_tr (pc_stream q)))" and "pc_globalID q = pc_globalID p" and "pc_pendingFirst q = None"
    and "nc_in (lf_c (ss_tr (pc_stream q))) =
      drop (length (nc_out (lf_c (ss_tr (pc_stream p))))) (nc_out (lf_c (ss_tr (pc_stream p')))) @ rest"
  shows "\<exists>q'. ReadFrom lf_transport C n q = Some (Inl EOF, q')"
proof -
  let ?ev = "udp_event FrameUDPEnd (pc_globalID p) Address_zero []"
  define s0 where "s0 = set_write_deadline lf_underlying (enat (t + 100000000)) (pc_stream p)"
  have s0: "ss_send s0 = ss_send (pc_stream p)" "\<not> ss_closed s0" "lf_out (ss_tr s0) = lf_out (ss_tr (pc_stream p))"
    "lf_open (ss_tr s0)" "nc_room (lf_c (ss_tr s0)) = nc_room (lf_c (ss_tr (pc_stream p)))"
    using assms(3-5) by (auto simp: s0_def set_write_deadline_lf conn_ready_def lf_out_def lf_open_def)
  obtain s1 r1 where s: "sendFrame lf_transport C now s0 FrameUDPEnd (array_copy 8 (pc_globalID p)) [] (-1) rnd = (None, s1, r1)"
    using sendFrame_lf [OF assms(1) _ s0(2), of FrameUDPEnd "array_copy 8 (pc_globalID p)" "[]" rnd now] assms(2,6,7,10) s0
    by (auto simp: FrameType_Valid_def)
  have r: "lf.sent_run C s0 [?ev] s1"
    by (rule lf.sendFrame_run [OF s]) (use assms(10) in \<open>simp add: event_of_gid\<close>)
  have "packetConn_Close lf_transport (Some lf_underlying) C t now p rnd =
      (case SecureStream_Close lf_transport (set_write_deadline lf_underlying \<infinity> s1) of (closeErr, s) \<Rightarrow>
       case on_conn conn_Close (ss_tr s) of (err, tr) \<Rightarrow>
         let closeErr = (if err \<noteq> None \<and> closeErr = None then err else closeErr) in
         (closeErr, p\<lparr>pc_stream := s\<lparr>ss_tr := tr\<rparr>, pc_closeOnce := True, pc_closeErr := closeErr\<rparr>, r1))"
    using assms(8,9) s by (simp add: packetConn_Close_def SendUDPEnd_def s0_def lf_underlying_def Let_def split: prod.split)
  with assms(11) have out: "lf_out (ss_tr (pc_stream p')) = lf_out (ss_tr s1)"
    by (auto simp: SecureStream_Close_def lf_transport_def LengthFramer_Close_def set_write_deadline_lf on_conn_def
        conn_Close_def lf_out_def Let_def split: if_splits prod.splits option.splits)
  obtain w where w: "lf_out (ss_tr s1) = lf_out (ss_tr s0) @ w"
    using r unfolding lf.sent_run_def by blast
  have "lf.incoming C (pc_stream q) [?ev] rest"
    by (rule lf.sent_run_incoming [OF r _ _ assms(13) _ w])
      (use assms(2,12,14,17) w out s0 in \<open>simp_all add: lf_open_def lf_in_def lf_out_def\<close>)
  from lf.incoming_Recv [OF assms(1) this] obtain s where "Recv lf_transport C (pc_stream q) = (Inr ?ev, s)"
    by blast
  with assms(15,16) show ?thesis
    by (simp add: ReadFrom_def, subst read_loop.simps) (simp add: udp_event_def frame_types)
qed

theorem packet_close_ends_peer_witness:
  "\<exists>err p' rnd' q'. packetConn_Close lf_transport (Some lf_underlying) toy_crypto 0 0 toy_packet (replicate 5000 0) =
       (err, p', rnd') \<and>
     ReadFrom lf_transport toy_crypto 100 (toy_packet_peer (nc_out (lf_c (ss_tr (pc_stream p'))))) = Some (Inl EOF, q')"
proof -
  note f = toy_packet_facts
  obtain err p' rnd' where c: "packetConn_Close lf_transport (Some lf_underlying) toy_crypto 0 0 toy_packet
      (replicate 5000 0) = (err, p', rnd')"
    by (metis prod.exhaust)
  have "\<exists>q'. ReadFrom lf_transport toy_crypto 100 (toy_packet_peer (nc_out (lf_c (ss_tr (pc_stream p'))))) = Some (Inl EOF, q')"
    by (rule packet_close_ends_peer [OF toy_aead_ok f(1,2) f(3) [unfolded lf_open_def] _ _ _ f(7,8) _ c, where rest = "[]"])
      (simp_all add: f conn_on_time_def, simp_all add: toy_packet_def newServerPacketConn_def new_stream_def NewLengthFramer_def)
  then obtain q' where "ReadFrom lf_transport toy_crypto 100 (toy_packet_peer (nc_out (lf_c (ss_tr (pc_stream p'))))) =
      Some (Inl EOF, q')" ..
  with c show ?thesis by (intro exI conjI)
qed

lemma read_loop_does:
  assumes "recv_does T C R" and "read_loop T C n p = Some (res, p')"
  shows "R (ss_tr (pc_stream p)) (ss_tr (pc_stream p'))"
proof -
  have "recv_does T C R \<longrightarrow> R (ss_tr (pc_stream p)) (ss_tr (pc_stream (snd y)))" if "read_loop T C n p = Some y" for y
    using _ that
  proof (rule read_loop.raw_induct [where P = "\<lambda>T C n p y. recv_does T C R \<longrightarrow> R (ss_tr (pc_stream p)) (ss_tr (pc_stream (snd y)))"], goal_cases)
    case (1 rf T C n p y)
    show ?case
    proof
      assume r: "recv_does T C R"
      obtain res s where R: "Recv T C (pc_stream p) = (res, s)" by (metis prod.exhaust)
      have s: "R (ss_tr (pc_stream p)) (ss_tr s)"
        using r R unfolding recv_does_def by blast
      have "R (ss_tr (pc_stream p)) (ss_tr (pc_stream (snd y)))" if "rf T C n (p\<lparr>pc_stream := s\<rparr>) = Some y"
        using 1(1) [OF that] r s unfolding recv_does_def by (auto dest: transpD)
      then show "R (ss_tr (pc_stream p)) (ss_tr (pc_stream (snd y)))"
        using 1(2) R s by (auto split: if_splits prod.splits sum.splits)
    qed
  qed
  with assms show ?thesis by fastforce
qed

lemma read_loop_skip:
  assumes "Recv T C (pc_stream p) = (Inr ev, s)" and "passed_over (pc_globalID p) ev"
  shows "read_loop T C n p = read_loop T C n (p\<lparr>pc_stream := s\<rparr>)"
  using assms by (subst read_loop.simps) (auto simp: passed_over_def frame_types)

lemma read_loop_stop:
  assumes "Recv T C (pc_stream p) = (r, s)" and "\<forall>ev. r = Inr ev \<longrightarrow> \<not> passed_over (pc_globalID p) ev"
  shows "read_loop T C n p = Some (read_result n p r, p\<lparr>pc_stream := s\<rparr>)"
proof (cases r)
  case (Inr ev)
  with assms show ?thesis
    by (subst read_loop.simps) (auto simp: passed_over_def read_result_def datagram_of_def)
qed (use assms in \<open>subst read_loop.simps, simp add: read_result_def\<close>)

lemma read_loop_after_skips:
  assumes "after_skips T C (passed_over (pc_globalID p)) k (pc_stream p) = Some s"
  shows "read_loop T C n p = read_loop T C n (p\<lparr>pc_stream := s\<rparr>)"
  using assms
proof (induction k arbitrary: p)
  case (Suc k)
  then obtain ev s1 where r: "Recv T C (pc_stream p) = (Inr ev, s1)" "passed_over (pc_globalID p) ev"
    "after_skips T C (passed_over (pc_globalID p)) k s1 = Some s"
    by (auto split: prod.splits sum.splits if_splits)
  with Suc.IH [of "p\<lparr>pc_stream := s1\<rparr>"] read_loop_skip [OF r(1,2)] show ?case by simp
qed auto

lemma read_loop_returns_only:
  assumes "read_loop T C n p = Some y"
  shows "\<exists>k. after_skips T C (passed_over (pc_globalID p)) k (pc_stream p) = None"
  using _ assms
proof (rule read_loop.raw_induct [where P = "\<lambda>T C n p y. \<exists>k. after_skips T C (passed_over (pc_globalID p)) k (pc_stream p) = None"], goal_cases)
  case (1 rf T C n p y)
  obtain r s where R: "Recv T C (pc_stream p) = (r, s)" by (metis prod.exhaust)
  show ?case
  proof (cases "\<exists>ev. r = Inr ev \<and> passed_over (pc_globalID p) ev")
    case True
    then obtain ev where ev: "r = Inr ev" "passed_over (pc_globalID p) ev" by blast
    then have "rf T C n (p\<lparr>pc_stream := s\<rparr>) = Some y"
      using 1(2) R by (auto simp: passed_over_def frame_types split: if_splits)
    from 1(1) [OF this] obtain k where "after_skips T C (passed_over (pc_globalID p)) k s = None" by auto
    then show ?thesis using R ev by (intro exI [of _ "Suc k"]) simp
  next
    case False
    then show ?thesis using R by (intro exI [of _ 1]) (auto split: sum.splits)
  qed
qed

lemma read_loop_None_iff:
  "read_loop T C n p = None \<longleftrightarrow> (\<forall>k. after_skips T C (passed_over (pc_globalID p)) k (pc_stream p) \<noteq> None)"
    (is "?none \<longleftrightarrow> ?endless")
proof
  assume none: ?none
  show ?endless
  proof (rule allI, rule notI)
    fix k assume "after_skips T C (passed_over (pc_globalID p)) k (pc_stream p) = None"
    then obtain j s1 r s2 where j: "after_skips T C (passed_over (pc_globalID p)) j (pc_stream p) = Some s1"
      "Recv T C s1 = (r, s2)" "\<forall>ev. r = Inr ev \<longrightarrow> \<not> passed_over (pc_globalID p) ev" by (rule after_skips_stop)
    with none read_loop_after_skips [OF j(1), of n] read_loop_stop [of T C "p\<lparr>pc_stream := s1\<rparr>" r s2 n]
    show False by simp
  qed
next
  assume ?endless
  then have "read_loop T C n p \<noteq> Some y" for y
    using read_loop_returns_only [of T C n p y] by blast
  then show ?none by (cases "read_loop T C n p") blast+
qed

text \<open>
  C30: What \<^verbatim>\<open>ReadFrom\<close> returns, and when, over any transport. The datagram that came with the
  first frame is handed out at once. Otherwise ping, pong, padding and probe frames and the frames of
  other tunnels are passed over, and the first other outcome of \<^verbatim>\<open>Recv\<close> decides: a datagram
  of this tunnel is returned with its source, cut to the buffer; the end of this tunnel is
  \<^verbatim>\<open>EOF\<close>; an error of \<^verbatim>\<open>Recv\<close> is passed on; any other frame is an error. \<^verbatim>\<open>ReadFrom\<close> never returns
  exactly when every call of \<^verbatim>\<open>Recv\<close> for ever returns a frame to be passed over. A read deadline
  prevents it: when receiving takes time, and fails after the deadline \<open>dl\<close>, it returns.
\<close>
theorem packet_read_outcome:
  "(\<forall>first. pc_pendingFirst p = Some first \<longrightarrow>
      ReadFrom T C n p = Some (Inr (take n first, ewpToNetAddr (pc_pendingFirstSrc p)), p\<lparr>pc_pendingFirst := None\<rparr>)) \<and>
   (\<forall>k s r s'. pc_pendingFirst p = None \<and> after_skips T C (passed_over (pc_globalID p)) k (pc_stream p) = Some s \<and>
      Recv T C s = (r, s') \<and> (\<forall>ev. r = Inr ev \<longrightarrow> \<not> passed_over (pc_globalID p) ev) \<longrightarrow>
      ReadFrom T C n p = Some (read_result n p r, p\<lparr>pc_stream := s'\<rparr>)) \<and>
   (ReadFrom T C n p = None \<longleftrightarrow> pc_pendingFirst p = None \<and>
      (\<forall>k. after_skips T C (passed_over (pc_globalID p)) k (pc_stream p) \<noteq> None)) \<and>
   ((\<forall>t m t'. tr_ReadMessage T t = (Inr m, t') \<longrightarrow> clk t < clk t' \<and> clk t' \<le> (dl :: nat)) \<longrightarrow>
      ReadFrom T C n p \<noteq> None)"
proof (cases "pc_pendingFirst p")
  case None
  have none: "ReadFrom T C n p = None \<longleftrightarrow> (\<forall>k. after_skips T C (passed_over (pc_globalID p)) k (pc_stream p) \<noteq> None)"
    using read_loop_None_iff [of T C n p] by (simp add: ReadFrom_def None)
  have "ReadFrom T C n p = Some (read_result n p r, p\<lparr>pc_stream := s'\<rparr>)"
    if "after_skips T C (passed_over (pc_globalID p)) k (pc_stream p) = Some s" "Recv T C s = (r, s')"
      "\<forall>ev. r = Inr ev \<longrightarrow> \<not> passed_over (pc_globalID p) ev" for k s r s'
    using read_loop_after_skips [OF that(1), of n] read_loop_stop [of T C "p\<lparr>pc_stream := s\<rparr>" r s' n] that(2,3)
    by (simp add: ReadFrom_def None)
  moreover have "ReadFrom T C n p \<noteq> None"
    if "\<forall>t m t'. tr_ReadMessage T t = (Inr m, t') \<longrightarrow> clk t < clk t' \<and> clk t' \<le> dl"
    using none after_skips_bounded [where clk = clk and dl = dl and T = T and s = "pc_stream p"] that by blast
  ultimately show ?thesis
    by (intro conjI) (simp add: None, blast, simp add: None none, blast)
qed (simp add: ReadFrom_def)

theorem packet_read_outcome_witness:
  "ReadFrom (padding_peer None) toy_crypto 10
      (newServerPacketConn (new_stream 0 toy_fa (toy_fa\<lparr>fa_counter := 0\<rparr>)) (replicate 8 1) Address_zero []) = None \<and>
   ReadFrom (padding_peer (Some 3)) toy_crypto 10
      (newServerPacketConn (new_stream 0 toy_fa (toy_fa\<lparr>fa_counter := 0\<rparr>)) (replicate 8 1) Address_zero []) \<noteq> None"
proof -
  let ?p = "newServerPacketConn (new_stream (0 :: nat) toy_fa (toy_fa\<lparr>fa_counter := 0\<rparr>)) (replicate 8 1) Address_zero []"
  have "after_skips (padding_peer None) toy_crypto (passed_over (pc_globalID ?p)) k (pc_stream ?p) \<noteq> None" for k
    by (rule padding_peer_endless) (simp_all add: newServerPacketConn_def new_stream_def passed_over_def)
  moreover have "pc_pendingFirst ?p = None" by (simp add: newServerPacketConn_def)
  ultimately have "ReadFrom (padding_peer None) toy_crypto 10 ?p = None"
    using packet_read_outcome [of ?p "padding_peer None" toy_crypto 10] by blast
  moreover have "\<forall>t m t'. tr_ReadMessage (padding_peer (Some 3)) t = (Inr m, t') \<longrightarrow> t < t' \<and> t' \<le> 3"
    using padding_peer_in_time by blast
  then have "ReadFrom (padding_peer (Some 3)) toy_crypto 10 ?p \<noteq> None"
    using packet_read_outcome [of ?p "padding_peer (Some 3)" toy_crypto 10 "\<lambda>t. t" 3] by blast
  ultimately show ?thesis ..
qed

text \<open>
  On a connection on which the peer sends a finite number of bytes \<^verbatim>\<open>ReadFrom\<close> always returns,
  with a datagram or an error: frames it passes over use up input. It returns by the read
  deadline at the latest, and in finite time also without one, unless the peer falls silent
  without closing.
\<close>
theorem packet_read_returns:
  "\<exists>res p'. ReadFrom lf_transport C n p = Some (res, p') \<and>
     (case res of Inr (b, src) \<Rightarrow> length b \<le> n | Inl err \<Rightarrow> True) \<and>
     nc_clock (lf_c (ss_tr (pc_stream p'))) \<le> max (nc_clock (lf_c (ss_tr (pc_stream p)))) (nc_rdl (lf_c (ss_tr (pc_stream p)))) \<and>
     (nc_clock (lf_c (ss_tr (pc_stream p))) \<noteq> \<infinity> \<and> \<not> nc_silent (lf_c (ss_tr (pc_stream p))) \<longrightarrow>
       nc_clock (lf_c (ss_tr (pc_stream p'))) \<noteq> \<infinity>)"
proof (cases "pc_pendingFirst p")
  case None
  obtain res p' where r: "read_loop lf_transport C n p = Some (res, p')"
    using lf.read_loop_ends [of C n p] by auto
  have "case res of Inr (b, src) \<Rightarrow> length b \<le> n | Inl err \<Rightarrow> True"
    using read_loop_bound [OF r] by simp
  with None r read_loop_does [OF Recv_timed r] show ?thesis
    by (simp add: ReadFrom_def read_timed_def conn_answers_def)
next
  case (Some first)
  then show ?thesis by (simp add: ReadFrom_def)
qed

theorem packet_read_returns_witness:
  "\<exists>res p'. ReadFrom lf_transport toy_crypto 10 (toy_packet_peer []) = Some (res, p') \<and>
     nc_clock (lf_c (ss_tr (pc_stream p'))) \<noteq> \<infinity>"
proof -
  have "nc_clock (lf_c (ss_tr (pc_stream (toy_packet_peer [])))) \<noteq> \<infinity>" "\<not> nc_silent (lf_c (ss_tr (pc_stream (toy_packet_peer []))))"
    by (simp_all add: toy_packet_peer_def newServerPacketConn_def new_stream_def NewLengthFramer_def)
  with packet_read_returns [of toy_crypto 10 "toy_packet_peer []"] show ?thesis by blast
qed

lemma lf_Close_clock: "lf_clock (ss_tr (snd (SecureStream_Close lf_transport s))) = lf_clock (ss_tr s)"
  by (auto simp: SecureStream_Close_def lf_transport_def LengthFramer_Close_def conn_Close_def lf_clock_def Let_def
      split: option.split prod.split)

lemma sendFrame_clock:
  assumes "sendFrame lf_transport C now s t meta payload padLen rnd = (res, s', rnd')"
  shows "lf_clock (ss_tr s') \<le> max (lf_clock (ss_tr s)) (if nc_closed (lf_c (ss_tr s)) then 0 else nc_wdl (lf_c (ss_tr s)))"
proof -
  have send: "lf_clock f' \<le> max (lf_clock f) (if nc_closed (lf_c f) then 0 else nc_wdl (lf_c f))"
    if "LengthFramer_SendMessage f m = (r, f')" for f m r f'
    using that SendMessage_facts(6) [OF that]
    by (auto simp: LengthFramer_SendMessage_def conn_Write_def Let_def split: if_splits)
  show ?thesis
  proof (cases res)
    case None
    show ?thesis
      by (rule sendFrame_None [OF assms [unfolded None]]) (auto simp: lf_transport_def dest: send)
  next
    case (Some e)
    show ?thesis
      using assms [unfolded Some]
    proof (cases rule: sendFrame_Some)
      case (transport wire x tr)
      then have "LengthFramer_SendMessage (ss_tr s) wire = (Some x, tr)" by (simp add: lf_transport_def)
      from send [OF this] transport(4) show ?thesis
        by (simp add: closeUnderlying_def lf_Close_clock)
    qed simp_all
  qed
qed

text \<open>\<^verbatim>\<open>Close\<close> over a connection: the stream after the last frame, then both closings.\<close>

definition after_end :: "crypto \<Rightarrow> nat \<Rightarrow> int \<Rightarrow> LengthFramer packetConn \<Rightarrow> bytes \<Rightarrow> LengthFramer SecureStream" where
  "after_end C t now p rnd =
     (if pc_opened p then
        set_write_deadline lf_underlying \<infinity> (fst (snd (SendUDPEnd lf_transport C now
          (set_write_deadline lf_underlying (enat (t + 100000000)) (pc_stream p)) (pc_globalID p) rnd)))
      else pc_stream p)"

lemma packetConn_Close_lf:
  assumes "packetConn_Close lf_transport (Some lf_underlying) C t now p rnd = (err, p', rnd')" and "\<not> pc_closeOnce p"
  shows "ss_tr (pc_stream p') = snd (on_conn conn_Close (ss_tr (snd (SecureStream_Close lf_transport (after_end C t now p rnd))))) \<and>
    pc_closeOnce p' \<and> pc_closeErr p' = err"
  using assms
  by (auto simp: packetConn_Close_def after_end_def lf_underlying_def Let_def split: if_splits prod.splits)

lemma after_end_clock:
  "lf_clock (ss_tr (after_end C t now p rnd)) \<le> max (lf_clock (ss_tr (pc_stream p))) (enat (t + 100000000))"
proof (cases "pc_opened p")
  case True
  let ?s = "set_write_deadline lf_underlying (enat (t + 100000000)) (pc_stream p)"
  obtain r s1 r1 where s: "SendUDPEnd lf_transport C now ?s (pc_globalID p) rnd = (r, s1, r1)"
    by (metis prod.exhaust)
  then have "lf_clock (ss_tr s1) \<le> max (lf_clock (ss_tr ?s)) (if nc_closed (lf_c (ss_tr ?s)) then 0 else nc_wdl (lf_c (ss_tr ?s)))"
    by (auto simp: SendUDPEnd_def dest: sendFrame_clock)
  also have "\<dots> \<le> max (lf_clock (ss_tr (pc_stream p))) (enat (t + 100000000))"
    by (simp add: set_write_deadline_lf lf_clock_def)
  finally show ?thesis
    using True s by (simp add: after_end_def set_write_deadline_lf lf_clock_def)
qed (simp add: after_end_def)

text \<open>
  C31: A dead peer cannot hang \<^verbatim>\<open>Close\<close>: whatever state the tunnel is in, whatever deadlines were set before and
  however slow the connection is, \<^verbatim>\<open>Close\<close> of a UDP tunnel over a connection returns at most
  100 ms after the clock reading it starts from (or at once, if the clock is past that), the
  connection is closed, and a second call returns the same result without doing anything.
\<close>
theorem packet_close_in_time:
  assumes "packetConn_Close lf_transport (Some lf_underlying) C t now p rnd = (err, p', rnd')"
    and "pc_closeOnce p \<longrightarrow> nc_closed (lf_c (ss_tr (pc_stream p)))"
  shows "nc_clock (lf_c (ss_tr (pc_stream p'))) \<le> max (nc_clock (lf_c (ss_tr (pc_stream p)))) (enat (t + 100000000)) \<and>
    nc_closed (lf_c (ss_tr (pc_stream p'))) \<and> pc_closeErr p' = err \<and>
    packetConn_Close lf_transport (Some lf_underlying) C t2 now2 p' rnd2 = (err, p', rnd2)"
proof (cases "pc_closeOnce p")
  case True
  with assms show ?thesis by (auto simp: packetConn_Close_def)
next
  case False
  note c = packetConn_Close_lf [OF assms(1) False]
  have "nc_closed (lf_c (snd (on_conn conn_Close f))) \<and> lf_clock (snd (on_conn conn_Close f)) = lf_clock f" for f
    by (auto simp: on_conn_def conn_Close_def lf_clock_def)
  with c after_end_clock [of C t now p rnd] lf_Close_clock [of "after_end C t now p rnd"] show ?thesis
    by (auto simp: lf_clock_def packetConn_Close_def)
qed

theorem packet_close_in_time_witness:
  "\<exists>err p' rnd'. packetConn_Close lf_transport (Some lf_underlying) toy_crypto 7 0 toy_packet (replicate 5000 0) = (err, p', rnd') \<and>
     nc_clock (lf_c (ss_tr (pc_stream p'))) \<le> enat 100000007"
proof -
  obtain err p' rnd' where c: "packetConn_Close lf_transport (Some lf_underlying) toy_crypto 7 0 toy_packet (replicate 5000 0) = (err, p', rnd')"
    by (metis prod.exhaust)
  have "nc_clock (lf_c (ss_tr (pc_stream toy_packet))) = 0" "\<not> pc_closeOnce toy_packet"
    by (simp_all add: toy_packet_def newServerPacketConn_def new_stream_def NewLengthFramer_def)
  with packet_close_in_time [OF c] have "nc_clock (lf_c (ss_tr (pc_stream p'))) \<le> enat 100000007" by simp
  with c show ?thesis by blast
qed

text \<open>
  The address conversions fit together. An encodable address turned into a \<^verbatim>\<open>net.Addr\<close> and back is the
  address the wire keeps of it, with an IPv4-mapped IPv6 address turned into the IPv4 one;
  and an IPv4 \<^verbatim>\<open>*net.UDPAddr\<close> survives the way through \<^verbatim>\<open>Address\<close> exactly when its port is
  one, up to the zone: other ports are cut to 16 bits.
\<close>
theorem net_addr_conversion:
  assumes "encodable a" and "length ip = 4"
  shows "addrToEWP (ewpToNetAddr a) =
      Inr (canon a\<lparr>addr_Addr := \<lparr>ap_ip = Addr_Unmap (ap_ip (addr_Addr (canon a))), ap_port = ap_port (addr_Addr (canon a))\<rparr>\<rparr>) \<and>
    (\<exists>b. addrToEWP (Some (UDPAddr ip port zone)) = Inr b \<and> ewpToNetAddr b = Some (UDPAddr ip (port mod 65536) []))"
proof
  show "addrToEWP (ewpToNetAddr a) =
      Inr (canon a\<lparr>addr_Addr := \<lparr>ap_ip = Addr_Unmap (ap_ip (addr_Addr (canon a))), ap_port = ap_port (addr_Addr (canon a))\<rparr>\<rparr>)"
    using assms(1)
    by (cases "ap_ip (addr_Addr a)") (auto simp: encodable_def wf_Address_def ewpToNetAddr_def addrToEWP_def canon_def IsDomain_def
        AddrPort_IsValid_def AddrFromSlice_def Addr_Unmap_def Address_zero_def AddrPort_zero_def split: if_splits)
  show "\<exists>b. addrToEWP (Some (UDPAddr ip port zone)) = Inr b \<and> ewpToNetAddr b = Some (UDPAddr ip (port mod 65536) [])"
    using assms(2)
    by (simp add: addrToEWP_def AddrFromSlice_def ewpToNetAddr_def Addr_Unmap_def Address_zero_def AddrPort_IsValid_def
        uint_word_of_int)
qed

theorem net_addr_conversion_witness:
  "addrToEWP (ewpToNetAddr (Address_zero\<lparr>addr_Domain := [97], addr_Port := 53\<rparr>)) =
     Inr (Address_zero\<lparr>addr_Domain := [97], addr_Port := 53\<rparr>) \<and>
   (\<exists>b. addrToEWP (Some (UDPAddr [1, 2, 3, 4] 65537 [])) = Inr b \<and> ewpToNetAddr b = Some (UDPAddr [1, 2, 3, 4] (65537 mod 65536) []))"
proof -
  let ?a = "Address_zero\<lparr>addr_Domain := [97], addr_Port := 53\<rparr>"
  have "encodable ?a" "length [1, 2, 3, 4 :: byte] = 4"
    by (simp_all add: encodable_def wf_Address_def IsDomain_def Address_zero_def AddrPort_zero_def ewp_consts)
  from net_addr_conversion [OF this, of 65537 "[]"] show ?thesis
    by (simp add: canon_def IsDomain_def Address_zero_def AddrPort_zero_def Addr_Unmap_def)
qed

text \<open>
  C37: Two first writers. \<^verbatim>\<open>WriteToAddress\<close> reads \<^verbatim>\<open>opened\<close> before it takes the mutex. When a second writer
  has read false while the first one opens the sub-session, the second call returns the full
  length and no error but has sent nothing: state and connection are as the first left them.
\<close>
theorem concurrent_first_write_lost:
  assumes "\<not> pc_isServer p" and "write_seen False T C now p b1 t1 rnd = ((n1, None), p1, rnd1)"
  shows "write_seen False T C now' p1 b2 t2 rnd1 = ((length b2, None), p1, rnd1)"
proof -
  have "pc_opened p1 \<and> pc_isServer p1 = pc_isServer p"
    using assms by (auto simp: write_seen_def ensureOpen_def split: prod.splits option.splits if_splits)
  with assms(1) show ?thesis by (simp add: write_seen_def ensureOpen_def)
qed

theorem concurrent_first_write_lost_witness:
  "\<exists>p n1 p1 rnd1. write_seen False lf_transport toy_crypto 0 p [1, 2, 3] Address_zero (replicate 5000 0) = ((n1, None), p1, rnd1) \<and>
     write_seen False lf_transport toy_crypto 0 p1 [4, 5] Address_zero rnd1 = ((length [4, 5 :: byte], None), p1, rnd1)"
proof -
  note f = toy_packet_facts
  define p where "p = toy_packet\<lparr>pc_isServer := False, pc_opened := False\<rparr>"
  obtain s' rnd' where s: "sendFrame lf_transport toy_crypto 0 (pc_stream toy_packet) FrameUDPNew (replicate 8 7) [1, 2, 3] (-1)
      (replicate 5000 0) = (None, s', rnd')"
    using sendFrame_lf [OF toy_aead_ok f(1,2), of FrameUDPNew "replicate 8 7" "[1, 2, 3]" "replicate 5000 0" 0] f(3,4)
    by (auto simp: FrameType_Valid_def)
  have "pc_defaultDst p = Address_zero" "buildUDPMeta (replicate 8 7) Address_zero = Inr (replicate 8 7)"
    by (simp_all add: p_def toy_packet_def newServerPacketConn_def buildUDPMeta_def IsDomain_def AddrPort_IsValid_def
        Address_zero_def AddrPort_zero_def array_copy_def ewp_consts)
  then have w: "write_seen False lf_transport toy_crypto 0 p [1, 2, 3] Address_zero (replicate 5000 0) =
      ((3, None), p\<lparr>pc_stream := s', pc_opened := True\<rparr>, rnd')"
    using s f(9) by (simp add: write_seen_def ensureOpen_def SendUDPNew_def send_udp_meta_def p_def)
  have "\<not> pc_isServer p" by (simp add: p_def)
  from w concurrent_first_write_lost [OF this w, of 0 "[4, 5]" Address_zero] show ?thesis by (intro exI conjI)
qed

text \<open>
  The target of a client's first datagram is ignored: the first \<^verbatim>\<open>WriteToAddress\<close> does the same for
  every target, namely opens the sub-session with the default destination.
\<close>
theorem first_datagram_target_ignored:
  assumes "\<not> pc_isServer p" and "\<not> pc_opened p"
  shows "WriteToAddress T C now p b t1 rnd = WriteToAddress T C now p b t2 rnd"
  using assms by (simp add: WriteToAddress_def write_seen_def)

theorem first_datagram_target_ignored_witness:
  "WriteToAddress lf_transport toy_crypto 0 (toy_packet\<lparr>pc_isServer := False, pc_opened := False\<rparr>) [1] Address_zero [] =
   WriteToAddress lf_transport toy_crypto 0 (toy_packet\<lparr>pc_isServer := False, pc_opened := False\<rparr>) [1]
     (Address_zero\<lparr>addr_Domain := [97], addr_Port := 53\<rparr>) []"
  by (rule first_datagram_target_ignored) simp_all

end
