(* ===== verification/Client.thy ===== *)
theory Client
  imports Agreement Packet
begin

text \<open>
  The client of \<^verbatim>\<open>src/client.go\<close>: \<^verbatim>\<open>ParseUUID\<close>, \<^verbatim>\<open>NewClient\<close>, the client's side of the
  handshake over a transport, bounded by the deadline of the context, and the two dialling
  functions. A context is the deadline it carries, if any, which is all the package reads of
  it. Shown: which strings \<^verbatim>\<open>ParseUUID\<close> accepts, that \<^verbatim>\<open>handshake\<close> closes the transport
  whenever it fails, and that it ends by the deadline and leaves none behind.
\<close>

section \<open>UUIDs\<close>

text \<open>\<^verbatim>\<open>hex.DecodeString\<close>: the value of a digit, and pairs of digits.\<close>

definition fromHexChar :: "char \<Rightarrow> nat option" where
  "fromHexChar c =
     (let n = of_char c :: nat in
      if 48 \<le> n \<and> n \<le> 57 then Some (n - 48)
      else if 97 \<le> n \<and> n \<le> 102 then Some (n - 97 + 10)
      else if 65 \<le> n \<and> n \<le> 70 then Some (n - 65 + 10)
      else None)"

fun hex_DecodeString :: "string \<Rightarrow> ewp_error + bytes" where
  "hex_DecodeString [] = Inr []"
| "hex_DecodeString [c] = Inl ErrUUIDHex"
| "hex_DecodeString (a # b # cs) =
     (case (fromHexChar a, fromHexChar b) of
        (Some x, Some y) \<Rightarrow>
          (case hex_DecodeString cs of Inl err \<Rightarrow> Inl err | Inr bs \<Rightarrow> Inr (word_of_nat (16 * x + y) # bs))
      | _ \<Rightarrow> Inl ErrUUIDHex)"

definition ParseUUID :: "string \<Rightarrow> ewp_error + bytes" where
  "ParseUUID s =
     (let clean = filter (\<lambda>c. c \<noteq> CHR ''-'') s in
      if length clean \<noteq> 32 then Inl ErrUUIDFormat
      else case hex_DecodeString clean of
        Inl err \<Rightarrow> Inl (ErrWrap ''ewp: invalid UUID hex'' err)
      | Inr b \<Rightarrow> Inr (array_copy UUIDLen b))"

section \<open>Dialling\<close>

record Client =
  cl_uuid :: bytes

definition NewClient :: "string \<Rightarrow> ewp_error + Client" where
  "NewClient uuidStr = (case ParseUUID uuidStr of Inl err \<Rightarrow> Inl err | Inr u \<Rightarrow> Inr \<lparr>cl_uuid = u\<rparr>)"

text \<open>
  The error branches of both handshakes: \<^verbatim>\<open>tr.Close()\<close>, result ignored, and the error wrapped.
  A panic of a callee passes through and leaves the transport as it is.
\<close>

definition close_with :: "'t transport \<Rightarrow> string \<Rightarrow> ewp_error \<Rightarrow> 't \<Rightarrow> ewp_error \<times> 't" where
  "close_with T msg err tr = (if is_panic err then (err, tr) else (ErrWrap msg err, snd (tr_Close T tr)))"

text \<open>
  \<^verbatim>\<open>if dc, ok := tr.(deadlineSetter); ok { _ = dc.SetDeadline(t) }\<close>, for both handshakes;
  \<open>\<infinity>\<close> is \<^verbatim>\<open>time.Time{}\<close>.
\<close>

definition set_deadline :: "'t transport \<Rightarrow> enat \<Rightarrow> 't \<Rightarrow> 't" where
  "set_deadline T t tr = (case tr_SetDeadline T of None \<Rightarrow> tr | Some SetDeadline \<Rightarrow> snd (SetDeadline t tr))"

text \<open>\<open>now\<close> and \<open>now'\<close> are the clock readings of \<^verbatim>\<open>WriteClientHello\<close> and \<^verbatim>\<open>ReadServerHello\<close>.\<close>

definition handshake_steps ::
  "'t transport \<Rightarrow> crypto \<Rightarrow> int \<Rightarrow> int \<Rightarrow> Client \<Rightarrow> 't \<Rightarrow> byte \<Rightarrow> Address \<Rightarrow> bytes \<Rightarrow>
   (ewp_error \<times> 't + 't SecureStream) \<times> bytes" where
  "handshake_steps T C now now' c tr cmd dst rnd =
     (case WriteClientHello C now (tr_SendMessage T) tr (cl_uuid c) cmd dst rnd of
        (Inl err, tr, rnd) \<Rightarrow> (Inl (close_with T ''ewp: write ClientHello'' err tr), rnd)
      | (Inr state, tr, rnd) \<Rightarrow>
        (case tr_ReadMessage T tr of
           (Inl err, tr) \<Rightarrow> (Inl (close_with T ''ewp: read ServerHello'' err tr), rnd)
         | (Inr shBytes, tr) \<Rightarrow>
           (case ReadServerHello C now' state shBytes of
              (Inl err, state) \<Rightarrow> (Inl (close_with T ''ewp: process ServerHello'' err tr), rnd)
            | (Inr res, state) \<Rightarrow>
              (case NewClientSecureStream tr (hr_Keys res) of
                 Inl err \<Rightarrow> (Inl (close_with T ''ewp: build SecureStream'' err tr), rnd)
               | Inr stream \<Rightarrow> (Inr stream, rnd)))))"

text \<open>
  \<^verbatim>\<open>handshake\<close>: the deadline set before the steps, and the deferred call that clears it on
  every way out, the transport closed or not. \<open>ctx\<close> is the result of \<^verbatim>\<open>ctx.Deadline()\<close>.
\<close>

definition handshake ::
  "'t transport \<Rightarrow> crypto \<Rightarrow> int \<Rightarrow> int \<Rightarrow> nat option \<Rightarrow> Client \<Rightarrow> 't \<Rightarrow> byte \<Rightarrow> Address \<Rightarrow> bytes \<Rightarrow>
   (ewp_error \<times> 't + 't SecureStream) \<times> bytes" where
  "handshake T C now now' ctx c tr cmd dst rnd =
     (case ctx of
        None \<Rightarrow> handshake_steps T C now now' c tr cmd dst rnd
      | Some dl \<Rightarrow>
        (case handshake_steps T C now now' c (set_deadline T (enat dl) tr) cmd dst rnd of
           (Inl (err, tr), rnd) \<Rightarrow> (Inl (err, set_deadline T \<infinity> tr), rnd)
         | (Inr stream, rnd) \<Rightarrow> (Inr (stream\<lparr>ss_tr := set_deadline T \<infinity> (ss_tr stream)\<rparr>), rnd)))"

definition DialConn ::
  "crypto \<Rightarrow> int \<Rightarrow> int \<Rightarrow> nat option \<Rightarrow> Client \<Rightarrow> net_conn \<Rightarrow> Address \<Rightarrow> bytes \<Rightarrow>
   (ewp_error \<times> LengthFramer + LengthFramer streamConn) \<times> bytes" where
  "DialConn C now now' ctx c conn dst rnd =
     (case handshake lf_transport C now now' ctx c (NewLengthFramer conn) CommandTCP dst rnd of
        (Inl err, rnd) \<Rightarrow> (Inl err, rnd)
      | (Inr stream, rnd) \<Rightarrow> (Inr (new_streamConn stream), rnd))"

definition DialPacketConn ::
  "crypto \<Rightarrow> int \<Rightarrow> int \<Rightarrow> nat option \<Rightarrow> Client \<Rightarrow> net_conn \<Rightarrow> Address \<Rightarrow> bytes \<Rightarrow>
   (ewp_error \<times> LengthFramer + LengthFramer packetConn) \<times> bytes" where
  "DialPacketConn C now now' ctx c conn dst rnd =
     (case handshake lf_transport C now now' ctx c (NewLengthFramer conn) CommandUDP dst rnd of
        (Inl err, rnd) \<Rightarrow> (Inl err, rnd)
      | (Inr stream, rnd) \<Rightarrow>
        (case newClientPacketConn stream dst rnd of
           (Inl err, rnd) \<Rightarrow> (Inl (err, ss_tr stream), rnd)
         | (Inr p, rnd) \<Rightarrow> (Inr p, rnd)))"

section \<open>The deadline\<close>

lemma lf_set_deadline:
  "lf_shut (set_deadline lf_transport d f) = lf_shut f"
  "set_deadline lf_transport d f = f\<lparr>lf_c := (if nc_closed (lf_c f) then lf_c f else (lf_c f)\<lparr>nc_rdl := d, nc_wdl := d\<rparr>)\<rparr>"
  by (simp_all add: set_deadline_def lf_transport_def LengthFramer_SetDeadline_def conn_SetDeadline_def lf_shut_def)

lemma WriteClientHello_send:
  assumes "WriteClientHello C now send tr uuid cmd addr rnd = (res, tr', rnd')"
  shows "tr' = tr \<or> (\<exists>m r. send tr m = (r, tr'))"
  using assms by (auto simp: WriteClientHello_def Let_def split: if_splits prod.splits option.splits sum.splits)

text \<open>Where the transport of a finished handshake comes from: at most one message out and one in, and \<^verbatim>\<open>Close\<close>.\<close>

definition hs_transport :: "ewp_error \<times> 't + 't SecureStream \<Rightarrow> 't" where
  "hs_transport res = (case res of Inl (err, tr) \<Rightarrow> tr | Inr stream \<Rightarrow> ss_tr stream)"

lemma NewClient_tr: "NewClientSecureStream tr keys = Inr s \<Longrightarrow> ss_tr s = tr"
  by (auto simp: NewClientSecureStream_def new_stream_def split: sum.splits)

lemma handshake_steps_path:
  assumes "handshake_steps T C now now' c tr cmd dst rnd = (res, rnd')"
  obtains tr1 tr2 where "tr1 = tr \<or> (\<exists>m r. tr_SendMessage T tr m = (r, tr1))" "tr2 = tr1 \<or> (\<exists>r. tr_ReadMessage T tr1 = (r, tr2))"
    "hs_transport res = tr2 \<or> hs_transport res = snd (tr_Close T tr2)"
    "\<And>err tr'. res = Inl (err, tr') \<Longrightarrow> \<not> is_panic err \<Longrightarrow> tr' = snd (tr_Close T tr2)"
proof -
  obtain r1 tr1 rn where w: "WriteClientHello C now (tr_SendMessage T) tr (cl_uuid c) cmd dst rnd = (r1, tr1, rn)"
    by (metis prod.exhaust)
  note t1 = WriteClientHello_send [OF w]
  obtain r2 tr2 where r: "tr_ReadMessage T tr1 = (r2, tr2)" by (metis prod.exhaust)
  show thesis
  proof (cases r1)
    case (Inl e)
    with assms w t1 show thesis
      by (intro that [of tr1 tr1]) (auto simp: handshake_steps_def hs_transport_def close_with_def split: if_splits)
  next
    case (Inr st)
    with assms w t1 r show thesis
      by (intro that [of tr1 tr2])
        (auto simp: handshake_steps_def hs_transport_def close_with_def split: if_splits prod.splits sum.splits dest: NewClient_tr)
  qed
qed

context message_transport
begin

lemma handshake_failed:
  assumes "\<And>d t. shut (set_deadline T d t) = shut t"
    and "handshake T C now now' ctx c tr cmd dst rnd = (Inl (err, tr'), rnd')" and "\<not> is_panic err"
  shows "shut tr'"
proof -
  have *: "shut t'" if "handshake_steps T C now now' c t cmd dst rnd = (Inl (err, t'), r)" for t t' r
  proof (rule handshake_steps_path [OF that])
    fix tr2
    assume "\<And>err' tr'. Inl (err, t') = Inl (err', tr') \<Longrightarrow> \<not> is_panic err' \<Longrightarrow> tr' = snd (tr_Close T tr2)"
    then have "t' = snd (tr_Close T tr2)" using assms(3) by blast
    then show ?thesis using close_shuts [of tr2 "fst (tr_Close T tr2)" t'] by simp
  qed
  from assms(2) show ?thesis
    by (auto simp: handshake_def assms(1) split: option.splits prod.splits sum.splits dest: *)
qed

end

context deadline_transport
begin

lemma set_deadline_eq: "set_deadline T d t = snd (setdl d t)"
  by (simp add: set_deadline_def has_setdl)

lemma set_deadline_keeps:
  "shut (set_deadline T d t) = shut t" "clock (set_deadline T d t) = clock t"
  "outp (set_deadline T d t) = outp t" "inp (set_deadline T d t) = inp t"
  using set_keeps [of d t "fst (setdl d t)" "snd (setdl d t)"] by (simp_all add: set_deadline_eq)

lemma set_deadline_limit: "\<not> shut t \<Longrightarrow> limit (set_deadline T d t) = d"
  using set_limit [of d t "fst (setdl d t)" "snd (setdl d t)"] by (simp add: set_deadline_eq)

text \<open>With a deadline the handshake is over by it, and afterwards there is none.\<close>

lemma handshake_in_time:
  assumes "handshake T C now now' (Some dl) c tr cmd dst rnd = (res, rnd')" and "\<not> shut tr"
  shows "clock (hs_transport res) \<le> max (clock tr) (enat dl)"
    and "\<not> shut (hs_transport res) \<Longrightarrow> limit (hs_transport res) = \<infinity>"
proof -
  let ?d = "max (clock tr) (enat dl)" and ?t = "set_deadline T (enat dl) tr"
  obtain r0 rn where h: "handshake_steps T C now now' c ?t cmd dst rnd = (r0, rn)" by (metis prod.exhaust)
  have res: "hs_transport res = set_deadline T \<infinity> (hs_transport r0)"
    using assms(1) h by (auto simp: handshake_def hs_transport_def split: sum.splits prod.splits)
  have b: "bounded_by ?d ?t"
    using assms(2) by (simp add: bounded_by_def set_deadline_keeps set_deadline_limit)
  have "clock (hs_transport r0) \<le> ?d"
  proof (rule handshake_steps_path [OF h])
    fix tr1 tr2
    assume p: "tr1 = ?t \<or> (\<exists>m r. tr_SendMessage T ?t m = (r, tr1))" "tr2 = tr1 \<or> (\<exists>r. tr_ReadMessage T tr1 = (r, tr2))"
      "hs_transport r0 = tr2 \<or> hs_transport r0 = snd (tr_Close T tr2)"
    have "bounded_by ?d tr2"
      using p(1,2) b within_send within_read by blast
    then have "clock tr2 \<le> ?d" "clock (snd (tr_Close T tr2)) \<le> ?d"
      using within_close [of ?d tr2 "fst (tr_Close T tr2)" "snd (tr_Close T tr2)"] by (simp_all add: bounded_by_def)
    with p(3) show ?thesis by auto
  qed
  then show "clock (hs_transport res) \<le> max (clock tr) (enat dl)"
    "\<not> shut (hs_transport res) \<Longrightarrow> limit (hs_transport res) = \<infinity>"
    by (simp_all add: res set_deadline_keeps set_deadline_limit)
qed

lemma handshake_open:
  assumes "handshake T C now now' ctx c tr cmd dst rnd = (Inr stream, rnd')"
  shows "\<not> shut (ss_tr stream)"
proof -
  have *: "\<not> shut (ss_tr s)" if h: "handshake_steps T C now now' c t cmd dst rnd = (Inr s, r)" for t s r
    using h by (auto simp: handshake_steps_def split: prod.splits sum.splits dest: read_sound NewClient_tr)
  from assms show ?thesis
    by (auto simp: handshake_def set_deadline_keeps split: option.splits prod.splits sum.splits dest: *)
qed

end

section \<open>Properties\<close>

text \<open>A UUID printed as 32 hex digits, and in the canonical form 8-4-4-4-12.\<close>

definition hex_string :: "bytes \<Rightarrow> string" where
  "hex_string u = concat (map (\<lambda>b. [hex_digit (unat b div 16), hex_digit (unat b mod 16)]) u)"

definition uuid_string :: "bytes \<Rightarrow> string" where
  "uuid_string u =
     (let h = hex_string u in
      subslice 0 8 h @ ''-'' @ subslice 8 12 h @ ''-'' @ subslice 12 16 h @ ''-'' @ subslice 16 20 h @ ''-'' @ drop 20 h)"

lemma hex_digit_value:
  assumes "n < 16"
  shows "fromHexChar (hex_digit n) = Some n \<and> hex_digit n \<noteq> CHR ''-''"
proof -
  have "\<forall>n \<in> set [0..<16]. fromHexChar (hex_digit n) = Some n \<and> hex_digit n \<noteq> CHR ''-''"
    by code_simp
  with assms show ?thesis by simp
qed

lemma hex_string_facts:
  "length (hex_string u) = 2 * length u"
  "hex_DecodeString (hex_string u) = Inr u"
  "CHR ''-'' \<notin> set (hex_string u)"
proof (induction u)
  case (Cons b u)
  have n: "unat b div 16 < 16" "unat b mod 16 < 16"
    using unsigned_less [of b, where ?'a = nat] by (auto simp: less_mult_imp_div_less)
  have b: "word_of_nat (16 * (unat b div 16) + unat b mod 16) = b"
    by simp
  {
    case 1
    with Cons show ?case by (simp add: hex_string_def)
  next
    case 2
    with Cons b hex_digit_value [OF n(1)] hex_digit_value [OF n(2)] show ?case
      by (simp add: hex_string_def)
  next
    case 3
    with Cons hex_digit_value [OF n(1)] hex_digit_value [OF n(2)] show ?case
      by (simp add: hex_string_def eq_commute [of "CHR ''-''"])
  }
qed (simp_all add: hex_string_def)

lemma filter_uuid_string: "filter (\<lambda>c. c \<noteq> CHR ''-'') (uuid_string u) = hex_string u"
proof -
  have f: "filter (\<lambda>c. c \<noteq> CHR ''-'') xs = xs" if "set xs \<subseteq> set (hex_string u)" for xs
    using that hex_string_facts(3) [of u] by (auto simp: filter_id_conv)
  have s: "set (subslice i j (hex_string u)) \<subseteq> set (hex_string u)" for i j
    by (auto simp: subslice_def dest: in_set_takeD in_set_dropD)
  have "take 8 h @ subslice 8 12 h @ subslice 12 16 h @ subslice 16 20 h @ drop 20 h = h" for h :: string
    by (simp add: take_subslice del: append_assoc flip: append_assoc)
  then show ?thesis
    by (simp add: uuid_string_def Let_def f [OF s] f [OF set_drop_subset] f [OF set_take_subset])
qed

text \<open>
  \<^verbatim>\<open>ParseUUID\<close> reads what is printed: a 16-byte UUID printed as 32 hex digits or in the canonical
  hyphenated form parses to itself. Whatever it accepts is 16 bytes long, and hyphens make
  no difference to it, wherever they stand.
\<close>
theorem parse_uuid_roundtrip:
  assumes "length u = 16"
  shows "ParseUUID (uuid_string u) = Inr u \<and> ParseUUID (hex_string u) = Inr u \<and>
    (ParseUUID s = Inr v \<longrightarrow> length v = 16) \<and> ParseUUID (filter (\<lambda>c. c \<noteq> CHR ''-'') s) = ParseUUID s"
proof -
  have "filter (\<lambda>c. c \<noteq> CHR ''-'') (hex_string u) = hex_string u"
    using hex_string_facts(3) [of u] by (auto simp: filter_id_conv)
  with assms show ?thesis
    using hex_string_facts [of u]
    by (auto simp: ParseUUID_def filter_uuid_string UUIDLen_def Let_def split: sum.splits)
qed

theorem parse_uuid_roundtrip_witness:
  "ParseUUID (uuid_string (replicate 16 0xab)) = Inr (replicate 16 0xab) \<and>
   uuid_string (replicate 16 0xab) = ''abababab-abab-abab-abab-abababababab''"
proof
  show "ParseUUID (uuid_string (replicate 16 0xab)) = Inr (replicate 16 0xab)"
    using parse_uuid_roundtrip [of "replicate 16 0xab" "[]" "[]"] by simp
  show "uuid_string (replicate 16 0xab) = ''abababab-abab-abab-abab-abababababab''"
    by code_simp
qed

text \<open>
  A failed dial leaves nothing open: whenever \<^verbatim>\<open>DialConn\<close> returns an error, the connection it was
  given is closed (a panic of the random source is not an error it returns).
\<close>
theorem dial_failure_closes:
  assumes "DialConn C now now' ctx c conn dst rnd = (Inl (err, f), rnd')" and "\<not> is_panic err"
  shows "nc_closed (lf_c f)"
proof -
  from assms(1) have "handshake lf_transport C now now' ctx c (NewLengthFramer conn) CommandTCP dst rnd = (Inl (err, f), rnd')"
    by (auto simp: DialConn_def split: prod.splits sum.splits)
  from lf.handshake_failed [OF _ this assms(2)] show ?thesis
    using lf_set_deadline(1) by (simp add: lf_shut_def)
qed

theorem dial_failure_closes_witness:
  "\<exists>err f rnd'. DialConn toy_crypto 0 0 None \<lparr>cl_uuid = toy_uuid\<rparr> (toy_conn []) Address_zero [] = (Inl (err, f), rnd') \<and>
     nc_closed (lf_c f)"
proof -
  obtain err f rnd' where "DialConn toy_crypto 0 0 None \<lparr>cl_uuid = toy_uuid\<rparr> (toy_conn []) Address_zero [] = (Inl (err, f), rnd')"
    "\<not> is_panic err"
    by (simp add: DialConn_def handshake_def handshake_steps_def WriteClientHello_def toy_crypto_def toy_gen_def close_with_def CommandTCP_def CommandUDP_def
        split: prod.splits)
  with dial_failure_closes [OF this] show ?thesis by blast
qed

text \<open>
  C27: The context's deadline bounds dialling: \<^verbatim>\<open>DialConn\<close> with a deadline on an open connection returns by
  that deadline (or at once, if it is past), however slow the connection and the server are
  and even if the server stays silent. When it succeeds, the connection is open and no
  deadline is left on it; when it fails, the connection is closed.
\<close>
theorem dial_in_time:
  assumes "DialConn C now now' (Some dl) c conn dst rnd = (res, rnd')" and "\<not> nc_closed conn"
  shows "case res of
      Inl (err, f) \<Rightarrow> nc_clock (lf_c f) \<le> max (nc_clock conn) (enat dl) \<and> (\<not> is_panic err \<longrightarrow> nc_closed (lf_c f))
    | Inr sc \<Rightarrow> nc_clock (lf_c (ss_tr (sc_stream sc))) \<le> max (nc_clock conn) (enat dl) \<and>
        \<not> nc_closed (lf_c (ss_tr (sc_stream sc))) \<and>
        nc_rdl (lf_c (ss_tr (sc_stream sc))) = \<infinity> \<and> nc_wdl (lf_c (ss_tr (sc_stream sc))) = \<infinity>"
proof -
  obtain r rn where h: "handshake lf_transport C now now' (Some dl) c (NewLengthFramer conn) CommandTCP dst rnd = (r, rn)"
    by (metis prod.exhaust)
  have "lf_clock (hs_transport r) \<le> max (nc_clock conn) (enat dl)"
    using lfd.handshake_in_time(1) [OF h] assms(2) by (simp add: lf_clock_def lf_shut_def NewLengthFramer_def)
  moreover have "lf_shut f" if "r = Inl (err, f)" "\<not> is_panic err" for err f
    using lf.handshake_failed [OF lf_set_deadline(1) h [unfolded that(1)] that(2)] .
  moreover have "\<not> lf_shut (ss_tr s) \<and> nc_rdl (lf_c (ss_tr s)) = \<infinity> \<and> nc_wdl (lf_c (ss_tr s)) = \<infinity>" if r: "r = Inr s" for s
  proof -
    have o: "\<not> lf_shut (ss_tr s)" by (rule lfd.handshake_open [OF h [unfolded r]])
    have "\<exists>f. ss_tr s = set_deadline lf_transport \<infinity> f"
      using h r by (auto simp: handshake_def split: sum.splits prod.splits)
    with o show ?thesis by (auto simp: lf_set_deadline lf_shut_def)
  qed
  ultimately show ?thesis
    using assms(1) h by (auto simp: DialConn_def hs_transport_def lf_clock_def lf_shut_def new_streamConn_def
        split: sum.splits prod.splits)
qed

text \<open>A connection whose peer never sends anything: the dial fails, when the deadline comes at the latest.\<close>

lemma handshake_steps_silent:
  assumes "handshake_steps lf_transport C now now' c f cmd dst rnd = (Inr stream, rnd')" and "lf_in f = []"
  shows False
proof -
  obtain st f1 rn sh f2 where w: "WriteClientHello C now (tr_SendMessage lf_transport) f (cl_uuid c) cmd dst rnd = (Inr st, f1, rn)"
    and r: "tr_ReadMessage lf_transport f1 = (Inr sh, f2)"
    using assms(1) by (auto simp: handshake_steps_def split: prod.splits sum.splits)
  have "lf_in f1 = []"
    using WriteClientHello_send [OF w] assms(2) by (auto simp: lf_transport_def dest: SendMessage_facts(2))
  with lf.read_sound [OF r] lf.enc_nonempty [of sh] show False by simp
qed

theorem dial_in_time_witness:
  "\<exists>err f rnd'. DialConn toy_crypto 1000 1000 (Some 500) \<lparr>cl_uuid = toy_uuid\<rparr> ((toy_conn [])\<lparr>nc_silent := True, nc_times := [3, 4, 9]\<rparr>)
       (Address_zero\<lparr>addr_Domain := [97, 98], addr_Port := 443\<rparr>) (replicate 2000 0) = (Inl (err, f), rnd') \<and>
     nc_clock (lf_c f) \<le> enat 500"
proof -
  let ?conn = "(toy_conn [])\<lparr>nc_silent := True, nc_times := [3, 4, 9]\<rparr>"
  obtain res rnd' where d: "DialConn toy_crypto 1000 1000 (Some 500) \<lparr>cl_uuid = toy_uuid\<rparr> ?conn
      (Address_zero\<lparr>addr_Domain := [97, 98], addr_Port := 443\<rparr>) (replicate 2000 0) = (res, rnd')"
    by (metis prod.exhaust)
  have "\<not> isl res \<Longrightarrow> False"
    using d by (auto simp: DialConn_def handshake_def split: prod.splits sum.splits dest!: handshake_steps_silent simp: lf_set_deadline lf_in_def NewLengthFramer_def)
  then obtain err f where r: "res = Inl (err, f)" by (cases res) auto
  have "nc_clock (lf_c f) \<le> enat 500"
    using dial_in_time [OF d] by (simp add: r)
  with d r show ?thesis by blast
qed

end
