(* ===== verification/Server.thy ===== *)
theory Server
  imports Client
begin

text \<open>
  \<^verbatim>\<open>src/server.go\<close>: the service with its users, its lookup and its replay cache, and the server's
  side of a connection up to the call of the handler. The handler is the application: the
  model returns which of its two methods is called and with what (\<open>dispatch\<close>), which is the
  last thing \<^verbatim>\<open>handleTransport\<close> does. \<open>ctx\<close> is the deadline of the context, as in \<^verbatim>\<open>Client\<close>,
  and \<open>U\<close> has the methods of the underlying connection (\<open>None\<close> for nil).

  Shown: the users have no duplicates and the lookup is always that of the current users;
  only users are served; a refused connection is closed; the deadline bounds the handshake,
  but not the wait for the first datagram of a UDP tunnel.
\<close>

section \<open>The service\<close>

record Metadata =
  md_UserUUID :: bytes
  md_Destination :: Address
  md_Source :: "net_Addr option"

record Service =
  sv_users :: "bytes list"
  sv_lookup :: "UUIDLookup option"
  sv_replay :: "ReplayCache option"

definition rebuildLookup :: "crypto \<Rightarrow> Service \<Rightarrow> Service" where
  "rebuildLookup C s = s\<lparr>sv_lookup := Some (MakeUUIDLookup C (sv_users s))\<rparr>"

definition NewService :: "crypto \<Rightarrow> 'h option \<Rightarrow> ewp_error + Service" where
  "NewService C h =
     (case h of
        None \<Rightarrow> Inl (Panic ''ewp: NewService: handler is nil'' ErrNilDeref)
      | Some _ \<Rightarrow>
          Inr (rebuildLookup C \<lparr>sv_users = [], sv_lookup = None, sv_replay = Some (NewReplayCache ReplayWindow)\<rparr>))"

definition SetReplayCache :: "Service \<Rightarrow> ReplayCache option \<Rightarrow> Service" where
  "SetReplayCache s cache = s\<lparr>sv_replay := cache\<rparr>"

definition AddUser :: "crypto \<Rightarrow> Service \<Rightarrow> string \<Rightarrow> ewp_error option \<times> Service" where
  "AddUser C s uuidStr =
     (case ParseUUID uuidStr of
        Inl err \<Rightarrow> (Some err, s)
      | Inr u \<Rightarrow>
          if u \<in> set (sv_users s) then (None, s)
          else (None, rebuildLookup C (s\<lparr>sv_users := sv_users s @ [u]\<rparr>)))"

definition RemoveUser :: "crypto \<Rightarrow> Service \<Rightarrow> string \<Rightarrow> bool \<times> Service" where
  "RemoveUser C s uuidStr =
     (case ParseUUID uuidStr of
        Inl err \<Rightarrow> (False, s)
      | Inr u \<Rightarrow>
          if u \<in> set (sv_users s) then (True, rebuildLookup C (s\<lparr>sv_users := remove1 u (sv_users s)\<rparr>))
          else (False, s))"

definition Users :: "Service \<Rightarrow> bytes list" where
  "Users s = sv_users s"

section \<open>A connection\<close>

datatype 't dispatch =
    NewConnection "'t streamConn" Metadata
  | NewPacketConnection "'t packetConn" Metadata
  | Refused ewp_error 't

text \<open>The part after the handshake: the command decides.\<close>

definition serve_command ::
  "'t transport \<Rightarrow> crypto \<Rightarrow> 't net_methods option \<Rightarrow> ClientHello \<Rightarrow> 't SecureStream \<Rightarrow> 't dispatch" where
  "serve_command T C U ch stream =
     (let meta = \<lparr>md_UserUUID = ch_UUID ch, md_Destination = ch_Address ch,
                  md_Source = (case U of None \<Rightarrow> None | Some underlying \<Rightarrow> nm_RemoteAddr underlying (ss_tr stream))\<rparr> in
      if ch_Command ch = CommandTCP then NewConnection (new_streamConn stream) meta
      else if ch_Command ch = CommandUDP then
        (case Recv T C stream of
           (Inl err, stream) \<Rightarrow>
             Refused (ErrWrap ''ewp: read initial UDP_NEW'' err) (ss_tr (snd (SecureStream_Close T stream)))
         | (Inr ev, stream) \<Rightarrow>
             if ev_Type ev \<noteq> FrameUDPNew then
               Refused (ErrUnexpectedFrame (ev_Type ev)) (ss_tr (snd (SecureStream_Close T stream)))
             else
               let dst = (if ev_HasAddr ev then ev_Address ev else ch_Address ch) in
               NewPacketConnection (newServerPacketConn stream (ev_GlobalID ev) dst (ev_Payload ev)) meta)
      else Refused (ErrUnsupportedCommand (ch_Command ch)) (ss_tr (snd (SecureStream_Close T stream))))"

text \<open>
  The part before: the handshake under the context's deadline, which is cleared once the
  stream is there. An error has closed the transport.
\<close>

definition accept_stream ::
  "'t transport \<Rightarrow> crypto \<Rightarrow> int \<Rightarrow> int \<Rightarrow> int \<Rightarrow> nat option \<Rightarrow> Service \<Rightarrow> 't \<Rightarrow> bytes \<Rightarrow>
   (ewp_error \<times> 't + HandshakeResult \<times> 't SecureStream) \<times> Service \<times> bytes" where
  "accept_stream T C now_check now_mark now_hello ctx s tr rnd =
     (case sv_lookup s of
        None \<Rightarrow> (Inl (ErrNoUsers, snd (tr_Close T tr)), s, rnd)
      | Some lookup \<Rightarrow>
      (case tr_ReadMessage T (case ctx of None \<Rightarrow> tr | Some dl \<Rightarrow> set_deadline T (enat dl) tr) of
        (Inl err, tr) \<Rightarrow> (Inl (close_with T ''ewp: read ClientHello'' err tr), s, rnd)
      | (Inr helloIn, tr) \<Rightarrow>
      (case AcceptClientHelloWithReplay C now_check now_mark now_hello helloIn lookup (sv_replay s) rnd of
        (Inl err, replay, rnd) \<Rightarrow>
          (Inl (close_with T ''ewp: accept ClientHello'' err tr), s\<lparr>sv_replay := replay\<rparr>, rnd)
      | (Inr (helloOut, res), replay, rnd) \<Rightarrow>
        let s = s\<lparr>sv_replay := replay\<rparr> in
        (case tr_SendMessage T tr helloOut of
           (Some err, tr) \<Rightarrow> (Inl (close_with T ''ewp: send ServerHello'' err tr), s, rnd)
         | (None, tr) \<Rightarrow>
         (case NewServerSecureStream tr (hr_Keys res) of
            Inl err \<Rightarrow> (Inl (close_with T ''ewp: build server SecureStream'' err tr), s, rnd)
          | Inr stream \<Rightarrow> (Inr (res, stream\<lparr>ss_tr := set_deadline T \<infinity> (ss_tr stream)\<rparr>), s, rnd))))))"

definition handleTransport ::
  "'t transport \<Rightarrow> crypto \<Rightarrow> int \<Rightarrow> int \<Rightarrow> int \<Rightarrow> nat option \<Rightarrow> Service \<Rightarrow> 't net_methods option \<Rightarrow> 't \<Rightarrow> bytes \<Rightarrow>
   't dispatch \<times> Service \<times> bytes" where
  "handleTransport T C now_check now_mark now_hello ctx s U tr rnd =
     (case accept_stream T C now_check now_mark now_hello ctx s tr rnd of
        (Inl (err, tr), s, rnd) \<Rightarrow> (Refused err tr, s, rnd)
      | (Inr (res, stream), s, rnd) \<Rightarrow>
        (case hr_ClientHello res of
           None \<Rightarrow> (Refused (Panic ''nil ClientHello'' ErrNilDeref) (ss_tr stream), s, rnd)
         | Some ch \<Rightarrow> (serve_command T C U ch stream, s, rnd)))"

definition HandleConn ::
  "crypto \<Rightarrow> int \<Rightarrow> int \<Rightarrow> int \<Rightarrow> nat option \<Rightarrow> Service \<Rightarrow> net_conn \<Rightarrow> bytes \<Rightarrow>
   LengthFramer dispatch \<times> Service \<times> bytes" where
  "HandleConn C now_check now_mark now_hello ctx s conn rnd =
     handleTransport lf_transport C now_check now_mark now_hello ctx s (Some lf_underlying) (NewLengthFramer conn) rnd"

definition HandleMessageTransport ::
  "'t transport \<Rightarrow> crypto \<Rightarrow> int \<Rightarrow> int \<Rightarrow> int \<Rightarrow> nat option \<Rightarrow> Service \<Rightarrow> 't net_methods option \<Rightarrow> 't \<Rightarrow> bytes \<Rightarrow>
   't dispatch \<times> Service \<times> bytes" where
  "HandleMessageTransport T C now_check now_mark now_hello ctx s U tr rnd =
     handleTransport T C now_check now_mark now_hello ctx s U tr rnd"

section \<open>Users and refusals\<close>

text \<open>
  The states of a service: any calls, in any order, of its methods. The handler is not part
  of the state, and a connection over another transport changes the same field (the replay
  cache) as one over \<^verbatim>\<open>LengthFramer\<close>.
\<close>

inductive service_reach :: "crypto \<Rightarrow> Service \<Rightarrow> bool" for C where
  new: "NewService C (Some ()) = Inr s \<Longrightarrow> service_reach C s"
| add: "service_reach C s \<Longrightarrow> service_reach C (snd (AddUser C s uuidStr))"
| remove: "service_reach C s \<Longrightarrow> service_reach C (snd (RemoveUser C s uuidStr))"
| replay: "service_reach C s \<Longrightarrow> service_reach C (SetReplayCache s cache)"
| handle: "service_reach C s \<Longrightarrow> HandleConn C t1 t2 t3 ctx s conn rnd = (d, s', rnd') \<Longrightarrow>
    service_reach C s'"

definition service_inv :: "crypto \<Rightarrow> Service \<Rightarrow> bool" where
  "service_inv C s \<longleftrightarrow> distinct (sv_users s) \<and> list_all (\<lambda>u. length u = 16) (sv_users s) \<and>
     sv_lookup s = Some (MakeUUIDLookup C (sv_users s))"

lemma ParseUUID_length: "ParseUUID s = Inr u \<Longrightarrow> length u = 16"
  by (auto simp: ParseUUID_def UUIDLen_def Let_def split: if_splits sum.splits)

lemma handle_keeps:
  assumes "handleTransport T C t1 t2 t3 ctx s U tr rnd = (d, s', rnd')"
  shows "sv_users s' = sv_users s \<and> sv_lookup s' = sv_lookup s"
proof -
  obtain r s1 rn where a: "accept_stream T C t1 t2 t3 ctx s tr rnd = (r, s1, rn)" by (metis prod.exhaust)
  then have "sv_users s1 = sv_users s \<and> sv_lookup s1 = sv_lookup s"
    by (auto simp: accept_stream_def Let_def split: option.splits prod.splits sum.splits)
  moreover have "s' = s1"
    using assms a by (auto simp: handleTransport_def split: option.splits sum.splits)
  ultimately show ?thesis by simp
qed

lemma service_reach_inv: "service_reach C s \<Longrightarrow> service_inv C s"
proof (induction rule: service_reach.induct)
  case (handle s t1 t2 t3 ctx conn rnd d s' rnd')
  then show ?case
    using handle_keeps [of lf_transport C t1 t2 t3 ctx s "Some lf_underlying" "NewLengthFramer conn" rnd d s' rnd']
    by (simp add: service_inv_def HandleConn_def)
qed (auto simp: NewService_def AddUser_def RemoveUser_def SetReplayCache_def rebuildLookup_def service_inv_def list_all_iff
    dest: ParseUUID_length notin_set_remove1 split: sum.splits)

text \<open>\<^verbatim>\<open>handleTransport\<close> up to the handler, inverted.\<close>

lemma handle_served:
  assumes "handleTransport T C t1 t2 t3 ctx s U tr rnd = (d, s', rnd')" and "\<forall>e t. d \<noteq> Refused e t"
  obtains lookup hello tr1 out res ch tr2 stream where "sv_lookup s = Some lookup"
    "tr_ReadMessage T (case ctx of None \<Rightarrow> tr | Some dl \<Rightarrow> set_deadline T (enat dl) tr) = (Inr hello, tr1)"
    "AcceptClientHelloWithReplay C t1 t2 t3 hello lookup (sv_replay s) rnd = (Inr (out, res), sv_replay s', rnd')"
    "tr_SendMessage T tr1 out = (None, tr2)" "NewServerSecureStream tr2 (hr_Keys res) = Inr stream"
    "hr_ClientHello res = Some ch" "d = serve_command T C U ch (stream\<lparr>ss_tr := set_deadline T \<infinity> (ss_tr stream)\<rparr>)"
proof -
  obtain res stream where a: "accept_stream T C t1 t2 t3 ctx s tr rnd = (Inr (res, stream), s', rnd')"
    "\<exists>ch. hr_ClientHello res = Some ch \<and> d = serve_command T C U ch stream"
    using assms by (auto simp: handleTransport_def split: option.splits prod.splits sum.splits)
  with that show thesis
    by (auto simp: accept_stream_def Let_def split: option.splits prod.splits sum.splits)
qed

lemma Accept_ClientHello:
  assumes "AcceptClientHelloWithReplay C t1 t2 t3 msg lookup cache rnd = (Inr (out, res), cache', rnd')"
    and "hr_ClientHello res = Some ch"
  shows "16 \<le> length msg \<and> lookup (take (length msg - 16) msg) (drop (length msg - 16) msg) = Inr (ch_UUID ch) \<and>
    DecodeClientHello C msg (ch_UUID ch) = Inr ch \<and> absDiff (uint (ch_Timestamp ch)) t1 \<le> 120 \<and>
    accept_replay t2 cache ch = (True, cache')"
proof (rule Accept_Inr [OF assms(1)])
  fix ch'
  assume a: "16 \<le> length msg" "lookup (take (length msg - 16) msg) (drop (length msg - 16) msg) = Inr (ch_UUID ch')"
    "DecodeClientHello C msg (ch_UUID ch') = Inr ch'" "absDiff (uint (ch_Timestamp ch')) t1 \<le> 120"
    "accept_replay t2 cache ch' = (True, cache')" "accept_respond C t3 (ch_UUID ch') ch' rnd = (Inr (out, res), rnd')"
  from a(6) have "hr_ClientHello res = Some ch'"
    by (rule accept_respond_Inr) simp
  with a assms(2) show ?thesis by simp
qed

lemma serve_command_meta:
  assumes "serve_command T C U ch stream = NewConnection c meta \<or>
    serve_command T C U ch stream = NewPacketConnection p meta"
  shows "md_UserUUID meta = ch_UUID ch \<and> md_Destination meta = ch_Address ch \<and>
    md_Source meta = (case U of None \<Rightarrow> None | Some underlying \<Rightarrow> nm_RemoteAddr underlying (ss_tr stream))"
  using assms by (auto simp: serve_command_def Let_def split: if_splits prod.splits sum.splits)

lemma Close_again: "ss_closeOnce s \<Longrightarrow> SecureStream_Close T s = (None, s)"
  by (simp add: SecureStream_Close_def)

context message_transport
begin

lemma close_with_shuts: "close_with T m e tr = (err, tr') \<Longrightarrow> \<not> is_panic err \<Longrightarrow> shut tr'"
  using close_shuts [of tr "fst (tr_Close T tr)" tr'] by (auto simp: close_with_def split: if_splits)

lemma Close_shuts: "\<not> ss_closeOnce s \<Longrightarrow> shut (ss_tr (snd (SecureStream_Close T s)))"
  using close_shuts
  by (auto simp: SecureStream_Close_def Let_def split: prod.splits option.splits)

lemma serve_command_refused:
  assumes "serve_command T C U ch stream = Refused err tr" and "\<not> ss_closed stream" and "\<not> ss_closeOnce stream"
  shows "shut tr"
proof (cases "Recv T C stream")
  case (Pair res s)
  show ?thesis
  proof (cases res)
    case (Inl e)
    with Recv_Inl [of T C stream e s] Pair assms(2,3) obtain s1 where "s = closeUnderlying T s1" "\<not> ss_closeOnce s1"
      by auto
    moreover from this have "ss_closeOnce s"
      by (auto simp: closeUnderlying_def SecureStream_Close_def Let_def split: prod.splits option.splits)
    ultimately have "shut (ss_tr (snd (SecureStream_Close T s)))"
      using Close_shuts [of s1] Close_again [of s T] by (simp add: closeUnderlying_def)
    with assms Close_shuts [OF assms(3)] Pair Inl show ?thesis
      by (auto simp: serve_command_def Let_def split: if_splits)
  next
    case (Inr ev)
    have "\<not> ss_closeOnce s"
      by (rule Recv_Inr [OF Pair [unfolded Inr]]) (simp add: assms(3))
    with assms Close_shuts Pair Inr show ?thesis
      by (auto simp: serve_command_def Let_def split: if_splits)
  qed
qed

lemma handle_refused:
  assumes "handleTransport T C t1 t2 t3 ctx s U tr rnd = (Refused err tr', s', rnd')" and "\<not> is_panic err"
  shows "shut tr'"
proof -
  have new: "\<not> ss_closed stream \<and> \<not> ss_closeOnce stream" if "NewServerSecureStream t keys = Inr stream" for t keys stream
    using that by (auto simp: NewServerSecureStream_def new_stream_def split: sum.splits)
  have c: "shut (snd (tr_Close T tr))"
    using close_shuts [of tr "fst (tr_Close T tr)" "snd (tr_Close T tr)"] by simp
  obtain r s1 rn where a: "accept_stream T C t1 t2 t3 ctx s tr rnd = (r, s1, rn)" by (metis prod.exhaust)
  show ?thesis
  proof (cases r)
    case (Inl x)
    with assms a c show ?thesis
      by (auto simp: handleTransport_def accept_stream_def Let_def split: option.splits prod.splits sum.splits dest: close_with_shuts)
  next
    case (Inr x)
    obtain res stream where x: "x = (res, stream)" by (metis prod.exhaust)
    have "\<not> ss_closed stream \<and> \<not> ss_closeOnce stream"
      using a Inr x by (auto simp: accept_stream_def Let_def split: option.splits prod.splits sum.splits dest: new)
    with assms a Inr x show ?thesis
      by (auto simp: handleTransport_def split: option.splits dest: serve_command_refused)
  qed
qed

end

text \<open>The server's handshake is over by the deadline, and none is left when it succeeds.\<close>

definition as_transport :: "ewp_error \<times> 't + HandshakeResult \<times> 't SecureStream \<Rightarrow> 't" where
  "as_transport r = (case r of Inl (err, tr) \<Rightarrow> tr | Inr (res, stream) \<Rightarrow> ss_tr stream)"

lemma NewServer_tr: "NewServerSecureStream tr keys = Inr s \<Longrightarrow> ss_tr s = tr"
  by (auto simp: NewServerSecureStream_def new_stream_def split: sum.splits)

lemma accept_stream_path:
  assumes "accept_stream T C t1 t2 t3 ctx s tr rnd = (r, s', rnd')"
  obtains tr1 tr2 where
    "tr1 = tr \<and> tr2 = tr \<and> as_transport r = snd (tr_Close T tr) \<or>
      (\<exists>x. tr_ReadMessage T (case ctx of None \<Rightarrow> tr | Some dl \<Rightarrow> set_deadline T (enat dl) tr) = (x, tr1))"
    "tr2 = tr1 \<or> (\<exists>m x. tr_SendMessage T tr1 m = (x, tr2))"
    "as_transport r = tr2 \<or> as_transport r = snd (tr_Close T tr2) \<or> as_transport r = set_deadline T \<infinity> tr2"
    "\<And>err tr'. r = Inl (err, tr') \<Longrightarrow> \<not> is_panic err \<Longrightarrow> tr' = snd (tr_Close T tr2)"
    "\<And>res stream. r = Inr (res, stream) \<Longrightarrow> ss_tr stream = set_deadline T \<infinity> tr2 \<and> (\<exists>m. tr_SendMessage T tr1 m = (None, tr2))"
proof -
  let ?t = "case ctx of None \<Rightarrow> tr | Some dl \<Rightarrow> set_deadline T (enat dl) tr"
  obtain x tr1 where R: "tr_ReadMessage T ?t = (x, tr1)" by (metis prod.exhaust)
  show thesis
  proof (cases "sv_lookup s")
    case None
    with assms show thesis by (intro that [of tr tr]) (auto simp: accept_stream_def as_transport_def)
  next
    case (Some lookup)
    note A = assms Some R
    show thesis
    proof (cases x)
      case (Inl e)
      with A show thesis
        by (intro that [of tr1 tr1]) (auto simp: accept_stream_def as_transport_def close_with_def split: if_splits)
    next
      case (Inr hello)
      obtain y replay rn where acc: "AcceptClientHelloWithReplay C t1 t2 t3 hello lookup (sv_replay s) rnd = (y, replay, rn)"
        by (metis prod.exhaust)
      show thesis
      proof (cases y)
        case (Inl e)
        with A Inr acc show thesis
          by (intro that [of tr1 tr1]) (auto simp: accept_stream_def as_transport_def close_with_def split: if_splits)
      next
        case y: (Inr z)
        obtain out res where z: "z = (out, res)" by (metis prod.exhaust)
        obtain w tr2 where S: "tr_SendMessage T tr1 out = (w, tr2)" by (metis prod.exhaust)
        with A Inr acc y z show thesis
          by (intro that [of tr1 tr2])
            (auto simp: accept_stream_def as_transport_def close_with_def Let_def
              split: if_splits option.splits sum.splits dest: NewServer_tr)
      qed
    qed
  qed
qed

context deadline_transport
begin

lemma accept_stream_in_time:
  assumes "accept_stream T C t1 t2 t3 (Some dl) s tr rnd = (r, s', rnd')" and "\<not> shut tr"
  shows "clock (as_transport r) \<le> max (clock tr) (enat dl)"
proof -
  let ?d = "max (clock tr) (enat dl)" and ?t = "set_deadline T (enat dl) tr"
  have b: "bounded_by ?d ?t"
    using assms(2) by (simp add: bounded_by_def set_deadline_keeps set_deadline_limit)
  show ?thesis
  proof (rule accept_stream_path [OF assms(1)])
    fix tr1 tr2
    assume p: "tr1 = tr \<and> tr2 = tr \<and> as_transport r = snd (tr_Close T tr) \<or>
        (\<exists>x. tr_ReadMessage T (case Some dl of None \<Rightarrow> tr | Some dl \<Rightarrow> set_deadline T (enat dl) tr) = (x, tr1))"
      "tr2 = tr1 \<or> (\<exists>m x. tr_SendMessage T tr1 m = (x, tr2))"
      "as_transport r = tr2 \<or> as_transport r = snd (tr_Close T tr2) \<or> as_transport r = set_deadline T \<infinity> tr2"
    show ?thesis
    proof (cases "as_transport r = snd (tr_Close T tr)")
      case True
      then show ?thesis
        using close_in_time [of tr "fst (tr_Close T tr)" "snd (tr_Close T tr)"] by simp
    next
      case False
      with p(1,2) b have "bounded_by ?d tr2"
        by (auto dest: within_read within_send)
      then have "clock tr2 \<le> ?d" "clock (snd (tr_Close T tr2)) \<le> ?d"
        using within_close [of ?d tr2 "fst (tr_Close T tr2)" "snd (tr_Close T tr2)"] by (simp_all add: bounded_by_def)
      with p(3) show ?thesis by (auto simp: set_deadline_keeps)
    qed
  qed
qed

end

section \<open>Both ends of a handshake\<close>

text \<open>The hello does not depend on how it is sent.\<close>

lemma WriteClientHello_any_send:
  assumes "WriteClientHello C now (\<lambda>q m. (None, q @ [m])) [] uuid cmd addr rnd = (Inr s, [msg], rnd')"
  shows "WriteClientHello C now send tr uuid cmd addr rnd =
    (case send tr msg of
       (Some err, tr') \<Rightarrow> (Inl (ErrWrap ''ewp/v2: send ClientHello'' err), tr', rnd')
     | (None, tr') \<Rightarrow> (Inr s, tr', rnd'))"
  using assms
  by (auto simp: WriteClientHello_def Let_def split: if_splits prod.splits option.splits sum.splits)

lemma honest_hello_length:
  assumes "aead_ok C" "kdf_ok C" "dh_ok C" "kem_ok C" "length uuid = 16" "encodable addr"
    and w: "WriteClientHello C now (\<lambda>q m. (None, q @ [m])) [] uuid cmd addr rnd = (Inr s, [msg], rnd')"
  shows "length msg \<le> 2566"
proof (rule WriteClientHello_Inr [OF assms(2-6) w])
  fix priv r1 dk r2 key pad
  assume h: "wf_ClientHello (cs_hello s)" "ch_Address (cs_hello s) = addr" "length key = 32" "length pad \<le> 1024"
    "(None, [] @ [hello_body C key (cs_hello s) pad @ OuterMAC C uuid (hello_body C key (cs_hello s) pad)]) = (None, [msg])"
  have "length (hello_body C key (cs_hello s) pad) = 1269 + EncodedLen addr + length pad"
    using length_hello_body [OF assms(1) h(1) _ h(3), of pad] h(2) assms(6) by simp
  with h(4,5) EncodedLen_bounds [OF assms(6)] length_OuterMAC [OF assms(2)] show ?thesis by auto
qed

lemma ReadServerHello_length: "ReadServerHello C now s out = (Inr res, s') \<Longrightarrow> length out = 1153"
  by (erule ReadServerHello_Inr) (auto simp: DecodeServerHello_def ewp_consts Let_def split: if_splits)

text \<open>The client's side and the server's side over \<^verbatim>\<open>LengthFramer\<close>, given what the messages do.\<close>

text \<open>
  \<open>conn_admits ctx c\<close>: a handshake under the context's deadline does not time out on \<open>c\<close>. After
  the handshake there is no deadline, or the one that was there before.
\<close>

definition conn_admits :: "nat option \<Rightarrow> net_conn \<Rightarrow> bool" where
  "conn_admits ctx c \<longleftrightarrow> \<not> nc_closed c \<and>
     (case ctx of None \<Rightarrow> conn_ready c | Some dl \<Rightarrow> conn_on_time (enat dl) c)"

definition with_ctx :: "nat option \<Rightarrow> LengthFramer \<Rightarrow> LengthFramer" where
  "with_ctx ctx tr = (case ctx of None \<Rightarrow> tr | Some dl \<Rightarrow> set_deadline lf_transport (enat dl) tr)"

text \<open>\<open>moved tr m rest tr'\<close>: the message \<open>m\<close> went out, \<open>rest\<close> is still to come, all else is as before.\<close>

definition moved :: "LengthFramer \<Rightarrow> bytes \<Rightarrow> bytes \<Rightarrow> LengthFramer \<Rightarrow> bool" where
  "moved tr m rest tr' \<longleftrightarrow> lf_open tr' \<and> lf_in tr' = rest \<and> lf_out tr' = lf_out tr @ lf_enc m \<and>
     nc_room (lf_c tr) \<le> nc_room (lf_c tr') + 3000 \<and> nc_raddr (lf_c tr') = nc_raddr (lf_c tr) \<and>
     nc_silent (lf_c tr') = nc_silent (lf_c tr)"

lemma with_ctx_facts:
  assumes "conn_admits ctx (lf_c tr)"
  shows "lf_open (with_ctx ctx tr)" "lf_in (with_ctx ctx tr) = lf_in tr" "lf_out (with_ctx ctx tr) = lf_out tr"
    "nc_room (lf_c (with_ctx ctx tr)) = nc_room (lf_c tr)" "nc_raddr (lf_c (with_ctx ctx tr)) = nc_raddr (lf_c tr)"
    "nc_silent (lf_c (with_ctx ctx tr)) = nc_silent (lf_c tr)"
  using assms
  by (auto simp: with_ctx_def conn_admits_def lf_set_deadline lf_open_def conn_ready_def lf_in_def lf_out_def split: option.splits)

lemma clear_moved:
  assumes "moved tr m rest tr'"
  shows "moved tr m rest (set_deadline lf_transport \<infinity> tr')" "nc_rdl (lf_c (set_deadline lf_transport \<infinity> tr')) = \<infinity>"
  using assms by (auto simp: moved_def lf_set_deadline lf_open_def conn_ready_def lf_in_def lf_out_def)

lemma with_ctx_moved: "conn_admits ctx (lf_c tr) \<Longrightarrow> moved (with_ctx ctx tr) m rest tr' \<Longrightarrow> moved tr m rest tr'"
  using with_ctx_facts [of ctx tr] by (simp add: moved_def)

text \<open>One message out and one in, in either order.\<close>

lemma send_read_moved:
  assumes "lf_open tr" and "lf_in tr = lf_enc m' @ rest" and "length m \<le> 2566" and "length m' \<le> 2566" and "3000 \<le> nc_room (lf_c tr)"
  obtains tr1 tr2 where "tr_SendMessage lf_transport tr m = (None, tr1)" "tr_ReadMessage lf_transport tr1 = (Inr m', tr2)"
    "moved tr m rest tr2"
proof -
  obtain tr1 where s: "LengthFramer_SendMessage tr m = (None, tr1)"
    using SendMessage_room [OF assms(1), of m] assms(3,5) by (auto simp: lf_ok_def)
  note f = SendMessage_facts [OF s]
  have "lf_open tr1" "lf_in tr1 = lf_enc m' @ rest" using f(2,5) assms(1,2) by simp_all
  then obtain tr2 where r: "LengthFramer_ReadMessage tr1 = (Inr m', tr2)" "lf_open tr2" "lf_in tr2 = rest"
    using ReadMessage_enc [of tr1 m' rest] assms(4) by (auto simp: lf_ok_def)
  note g = ReadMessage_facts [OF r(1)]
  show thesis
    by (rule that [of tr1 tr2]) (use s r f g assms(3) in \<open>auto simp: lf_transport_def moved_def conn_same_def\<close>)
qed

lemma read_send_moved:
  assumes "lf_open tr" and "lf_in tr = lf_enc m' @ rest" and "length m \<le> 2566" and "length m' \<le> 2566" and "3000 \<le> nc_room (lf_c tr)"
  obtains tr1 tr2 where "tr_ReadMessage lf_transport tr = (Inr m', tr1)" "tr_SendMessage lf_transport tr1 m = (None, tr2)"
    "moved tr m rest tr2"
proof -
  obtain tr1 where r: "LengthFramer_ReadMessage tr = (Inr m', tr1)" "lf_open tr1" "lf_in tr1 = rest"
    using ReadMessage_enc [OF assms(1,2)] assms(4) by (auto simp: lf_ok_def)
  note g = ReadMessage_facts [OF r(1)]
  obtain tr2 where s: "LengthFramer_SendMessage tr1 m = (None, tr2)"
    using SendMessage_room [OF r(2), of m] assms(3,5) g(3) by (auto simp: lf_ok_def)
  note f = SendMessage_facts [OF s]
  show thesis
    by (rule that [of tr1 tr2]) (use s r f g assms(3) in \<open>auto simp: lf_transport_def moved_def conn_same_def\<close>)
qed

lemma handshake_lf:
  assumes w: "WriteClientHello C t0 (\<lambda>q m. (None, q @ [m])) [] uuid cmd addr rnd = (Inr st, [msg], rnd')"
    and r: "ReadServerHello C t4 st out = (Inr res, st')" and k: "wf_keys (hr_Keys res)" and l: "length msg \<le> 2566"
    and tr: "conn_admits ctx (lf_c tr)" "lf_in tr = lf_enc out @ rest" "3000 \<le> nc_room (lf_c tr)"
  shows "\<exists>tr'. handshake lf_transport C t0 t4 ctx \<lparr>cl_uuid = uuid\<rparr> tr cmd addr rnd = (Inr (new_stream tr'
      \<lparr>fa_aead = C2SKey (hr_Keys res), fa_prefix = C2SNonce (hr_Keys res), fa_counter = 0\<rparr>
      \<lparr>fa_aead = S2CKey (hr_Keys res), fa_prefix = S2CNonce (hr_Keys res), fa_counter = 0\<rparr>), rnd') \<and> moved tr msg rest tr'"
proof -
  note c = with_ctx_facts [OF tr(1)]
  have "length out \<le> 2566" using ReadServerHello_length [OF r] by simp
  then obtain tr1 tr2 where m: "tr_SendMessage lf_transport (with_ctx ctx tr) msg = (None, tr1)"
    "tr_ReadMessage lf_transport tr1 = (Inr out, tr2)" "moved (with_ctx ctx tr) msg rest tr2"
    using send_read_moved [OF c(1), of out rest msg] c(2,4) tr(2,3) l by auto
  have h: "handshake_steps lf_transport C t0 t4 \<lparr>cl_uuid = uuid\<rparr> (with_ctx ctx tr) cmd addr rnd = (Inr (new_stream tr2
      \<lparr>fa_aead = C2SKey (hr_Keys res), fa_prefix = C2SNonce (hr_Keys res), fa_counter = 0\<rparr>
      \<lparr>fa_aead = S2CKey (hr_Keys res), fa_prefix = S2CNonce (hr_Keys res), fa_counter = 0\<rparr>), rnd')"
    using m(1,2) r by (simp add: handshake_steps_def WriteClientHello_any_send [OF w] new_streams(1) [OF k])
  note t = with_ctx_moved [OF tr(1) m(3)]
  show ?thesis
  proof (cases ctx)
    case None
    with h t show ?thesis by (auto simp: handshake_def with_ctx_def)
  next
    case (Some dl)
    with h clear_moved(1) [OF t] show ?thesis
      by (intro exI [of _ "set_deadline lf_transport \<infinity> tr2"]) (simp add: handshake_def with_ctx_def new_stream_def)
  qed
qed

lemma handleTransport_lf:
  assumes a: "AcceptClientHelloWithReplay C t1 t2 t3 msg lookup (sv_replay s) rnd = (Inr (out, res), cache', rnd')"
    and h: "sv_lookup s = Some lookup" "hr_ClientHello res = Some ch" and k: "wf_keys (hr_Keys res)"
    and l: "length msg \<le> 2566" "length out = 1153"
    and tr: "conn_admits ctx (lf_c tr)" "lf_in tr = lf_enc msg @ rest" "3000 \<le> nc_room (lf_c tr)"
  shows "\<exists>tr'. handleTransport lf_transport C t1 t2 t3 ctx s U tr rnd = (serve_command lf_transport C U ch (new_stream tr'
      \<lparr>fa_aead = S2CKey (hr_Keys res), fa_prefix = S2CNonce (hr_Keys res), fa_counter = 0\<rparr>
      \<lparr>fa_aead = C2SKey (hr_Keys res), fa_prefix = C2SNonce (hr_Keys res), fa_counter = 0\<rparr>), s\<lparr>sv_replay := cache'\<rparr>, rnd') \<and>
    moved tr out rest tr' \<and> nc_rdl (lf_c tr') = \<infinity>"
proof -
  note c = with_ctx_facts [OF tr(1)]
  obtain tr1 tr2 where m: "tr_ReadMessage lf_transport (with_ctx ctx tr) = (Inr msg, tr1)"
    "tr_SendMessage lf_transport tr1 out = (None, tr2)" "moved (with_ctx ctx tr) out rest tr2"
    using read_send_moved [OF c(1), of msg rest out] c(2,4) tr(2,3) l by auto
  have "accept_stream lf_transport C t1 t2 t3 ctx s tr rnd = (Inr (res, new_stream (set_deadline lf_transport \<infinity> tr2)
      \<lparr>fa_aead = S2CKey (hr_Keys res), fa_prefix = S2CNonce (hr_Keys res), fa_counter = 0\<rparr>
      \<lparr>fa_aead = C2SKey (hr_Keys res), fa_prefix = C2SNonce (hr_Keys res), fa_counter = 0\<rparr>), s\<lparr>sv_replay := cache'\<rparr>, rnd')"
    using a h(1) m(1,2)
    by (simp add: accept_stream_def with_ctx_def [symmetric] new_streams(2) [OF k] Let_def) (simp add: new_stream_def)
  with h(2) clear_moved [OF with_ctx_moved [OF tr(1) m(3)]] show ?thesis
    by (intro exI [of _ "set_deadline lf_transport \<infinity> tr2"]) (simp add: handleTransport_def)
qed

text \<open>
  An honest client and a service that knows it: there are an answer and a pair of cipher
  states such that both sides, each on its own connection, complete.
\<close>

lemma dial_and_serve:
  assumes C: "aead_ok C" "kdf_ok C" "dh_ok C" "kem_ok C" and u: "length uuid = 16" and a: "encodable addr"
    and w: "WriteClientHello C t0 (\<lambda>q m. (None, q @ [m])) [] uuid cmd addr rnd = (Inr st, [msg], rnd')"
    and s: "sv_lookup s = Some (MakeUUIDLookup C (sv_users s))"
    and us: "uuid \<in> set (sv_users s)" "\<forall>u \<in> set (sv_users s). OuterMAC C u (take (length msg - 16) msg) =
      OuterMAC C uuid (take (length msg - 16) msg) \<longrightarrow> u = uuid"
    and t: "0 \<le> t0" "t0 < 2 ^ 32" "absDiff t0 t1 \<le> 120" "0 \<le> t3" "t3 < 2 ^ 32" "absDiff t3 t4 \<le> 120"
    and f: "fresh_in (sv_replay s) t2 uuid (cs_nonce st)"
    and b: "x25519_GenerateKey C rnd2 = (Some b, rnd2')"
  obtains out ch fc fs cache' rnd3 where "wf_fa fc" "wf_fa fs" "ch_UUID ch = uuid" "ch_Command ch = cmd" "ch_Address ch = canon addr"
    "\<And>ctx tr rest. conn_admits ctx (lf_c tr) \<Longrightarrow> lf_in tr = lf_enc out @ rest \<Longrightarrow> 3000 \<le> nc_room (lf_c tr) \<Longrightarrow>
       \<exists>tr'. handshake lf_transport C t0 t4 ctx \<lparr>cl_uuid = uuid\<rparr> tr cmd addr rnd = (Inr (new_stream tr' fc fs), rnd') \<and> moved tr msg rest tr'"
    "\<And>ctx tr rest U. conn_admits ctx (lf_c tr) \<Longrightarrow> lf_in tr = lf_enc msg @ rest \<Longrightarrow> 3000 \<le> nc_room (lf_c tr) \<Longrightarrow>
       \<exists>tr'. handleTransport lf_transport C t1 t2 t3 ctx s U tr rnd2 =
           (serve_command lf_transport C U ch (new_stream tr' fs fc), s\<lparr>sv_replay := cache'\<rparr>, rnd3) \<and>
         moved tr out rest tr' \<and> nc_rdl (lf_c tr') = \<infinity>"
proof (rule handshake_run [OF C u a w us t f b])
  fix out sres cres cache' rnd3 st'
  assume x: "AcceptClientHelloWithReplay C t1 t2 t3 msg (MakeUUIDLookup C (sv_users s)) (sv_replay s) rnd2 =
       (Inr (out, sres), cache', rnd3)"
    and r: "ReadServerHello C t4 st out = (Inr cres, st')" and k: "hr_Keys cres = hr_Keys sres" "wf_keys (hr_Keys sres)"
    and h: "hr_ClientHello sres = Some ((cs_hello st)\<lparr>ch_Address := canon addr\<rparr>)" "ch_Command (cs_hello st) = cmd"
  have l: "length msg \<le> 2566"
    by (rule honest_hello_length [OF C u a w])
  have c: "ch_UUID (cs_hello st) = uuid"
    by (rule honest_hello [OF C u a w]) simp
  let ?fc = "\<lparr>fa_aead = C2SKey (hr_Keys sres), fa_prefix = C2SNonce (hr_Keys sres), fa_counter = 0\<rparr>"
  let ?fs = "\<lparr>fa_aead = S2CKey (hr_Keys sres), fa_prefix = S2CNonce (hr_Keys sres), fa_counter = 0\<rparr>"
  show thesis
  proof (rule that [of ?fc ?fs "(cs_hello st)\<lparr>ch_Address := canon addr\<rparr>" out cache' rnd3])
    show "wf_fa ?fc" "wf_fa ?fs" using k(2) by (simp_all add: wf_fa_def wf_keys_def)
  next
    fix ctx tr rest
    assume "conn_admits ctx (lf_c tr)" "lf_in tr = lf_enc out @ rest" "3000 \<le> nc_room (lf_c tr)"
    from handshake_lf [OF w r _ l this] k
    show "\<exists>tr'. handshake lf_transport C t0 t4 ctx \<lparr>cl_uuid = uuid\<rparr> tr cmd addr rnd = (Inr (new_stream tr' ?fc ?fs), rnd') \<and> moved tr msg rest tr'"
      by simp
  next
    fix ctx tr rest U
    assume "conn_admits ctx (lf_c tr)" "lf_in tr = lf_enc msg @ rest" "3000 \<le> nc_room (lf_c tr)"
    from handleTransport_lf [OF x s h(1) k(2) l ReadServerHello_length [OF r] this]
    show "\<exists>tr'. handleTransport lf_transport C t1 t2 t3 ctx s U tr rnd2 =
           (serve_command lf_transport C U ((cs_hello st)\<lparr>ch_Address := canon addr\<rparr>) (new_stream tr' ?fs ?fc),
            s\<lparr>sv_replay := cache'\<rparr>, rnd3) \<and>
         moved tr out rest tr' \<and> nc_rdl (lf_c tr') = \<infinity>"
      by blast
  qed (use h c in simp_all)
qed

section \<open>Properties\<close>

text \<open>
  C24: Whatever is done with a service, adding and removing users, swapping the replay cache, serving
  connections, its users stay free of duplicates and 16 bytes long, and the lookup used by
  the next connection is the one of exactly these users.
\<close>
theorem service_invariant:
  assumes "service_reach C s"
  shows "distinct (Users s) \<and> (\<forall>u \<in> set (Users s). length u = 16) \<and>
    sv_lookup s = Some (MakeUUIDLookup C (Users s))"
  using service_reach_inv [OF assms] by (simp add: service_inv_def Users_def list_all_iff)

lemma toy_service: "\<exists>s. NewService C (Some ()) = Inr s \<and> service_reach C s \<and> sv_users s = []"
  by (auto simp: NewService_def rebuildLookup_def intro: service_reach.new)

theorem service_invariant_witness:
  "\<exists>s. service_reach toy_crypto s \<and> distinct (Users s) \<and> Users s = [replicate 16 0]"
proof -
  obtain s0 where s0: "service_reach toy_crypto s0" "sv_users s0 = []"
    using toy_service by blast
  define s where "s = snd (AddUser toy_crypto s0 (replicate 32 (CHR ''0'')))"
  have r: "service_reach toy_crypto s"
    unfolding s_def by (rule service_reach.add [OF s0(1)])
  have "ParseUUID (replicate 32 (CHR ''0'')) = Inr (replicate 16 0)"
    by code_simp
  then have "Users s = [replicate 16 0]"
    using s0(2) by (simp add: s_def AddUser_def Users_def rebuildLookup_def)
  with r service_invariant [OF r] show ?thesis by blast
qed

text \<open>
  Adding and removing users does what it says: after \<^verbatim>\<open>AddUser\<close> the users are the old ones and
  the new one, after \<^verbatim>\<open>RemoveUser\<close> the old ones without it, its result tells whether it was
  there, and a string that is no UUID changes nothing.
\<close>
theorem user_management:
  assumes "service_reach C s"
  shows "(case ParseUUID str of
      Inl err \<Rightarrow> AddUser C s str = (Some err, s) \<and> RemoveUser C s str = (False, s)
    | Inr u \<Rightarrow> fst (AddUser C s str) = None \<and> set (Users (snd (AddUser C s str))) = insert u (set (Users s)) \<and>
        (fst (RemoveUser C s str) \<longleftrightarrow> u \<in> set (Users s)) \<and>
        set (Users (snd (RemoveUser C s str))) = set (Users s) - {u})"
  using service_reach_inv [OF assms]
  by (auto simp: AddUser_def RemoveUser_def Users_def rebuildLookup_def service_inv_def set_remove1_eq split: sum.splits)

theorem user_management_witness:
  "\<exists>s. NewService toy_crypto (Some ()) = Inr s \<and> fst (AddUser toy_crypto s (replicate 32 (CHR ''0''))) = None \<and>
     \<not> fst (RemoveUser toy_crypto s (replicate 32 (CHR ''0'')))"
proof -
  obtain s where s: "NewService toy_crypto (Some ()) = Inr s" "service_reach toy_crypto s" "sv_users s = []"
    using toy_service by blast
  have p: "ParseUUID (replicate 32 (CHR ''0'')) = Inr (replicate 16 0)"
    by code_simp
  have "fst (AddUser toy_crypto s (replicate 32 (CHR ''0''))) = None"
    "\<not> fst (RemoveUser toy_crypto s (replicate 32 (CHR ''0'')))"
    using user_management [OF s(2), of "replicate 32 (CHR ''0'')"] s(3) unfolding p by (simp_all add: Users_def)
  with s(1) show ?thesis by blast
qed

text \<open>
  C4: Only users are served. When a connection reaches the handler, the first message read from it is a
  ClientHello that carries the outer MAC of a currently registered user and opens under that
  user's key, its time is within 120 seconds of the server's, the replay cache has let it
  pass and recorded it, and the metadata names this user and the destination in the hello.
\<close>
theorem only_users_are_served:
  assumes "service_reach C s" and "handleTransport T C t1 t2 t3 ctx s U tr rnd = (d, s', rnd')"
    and "d = NewConnection c meta \<or> d = NewPacketConnection p meta"
  shows "\<exists>hello tr1 ch. tr_ReadMessage T (case ctx of None \<Rightarrow> tr | Some dl \<Rightarrow> set_deadline T (enat dl) tr) = (Inr hello, tr1) \<and> md_UserUUID meta \<in> set (Users s) \<and>
    drop (length hello - 16) hello = OuterMAC C (md_UserUUID meta) (take (length hello - 16) hello) \<and>
    DecodeClientHello C hello (md_UserUUID meta) = Inr ch \<and> md_Destination meta = ch_Address ch \<and>
    absDiff (uint (ch_Timestamp ch)) t1 \<le> 120 \<and> accept_replay t2 (sv_replay s) ch = (True, sv_replay s') \<and>
    Users s' = Users s"
proof -
  from assms(3) have "\<forall>e t. d \<noteq> Refused e t" by auto
  from assms(2) this show ?thesis
  proof (rule handle_served)
    fix lookup hello tr1 out res ch tr2 stream
    assume h: "sv_lookup s = Some lookup"
      "tr_ReadMessage T (case ctx of None \<Rightarrow> tr | Some dl \<Rightarrow> set_deadline T (enat dl) tr) = (Inr hello, tr1)"
      "AcceptClientHelloWithReplay C t1 t2 t3 hello lookup (sv_replay s) rnd = (Inr (out, res), sv_replay s', rnd')"
      "hr_ClientHello res = Some ch" "d = serve_command T C U ch (stream\<lparr>ss_tr := set_deadline T \<infinity> (ss_tr stream)\<rparr>)"
    have m: "md_UserUUID meta = ch_UUID ch" "md_Destination meta = ch_Address ch"
      using serve_command_meta [of T C U ch _ c meta p] assms(3) h(5) by auto
    have l: "lookup = MakeUUIDLookup C (sv_users s)"
      using service_reach_inv [OF assms(1)] h(1) by (simp add: service_inv_def)
    note a = Accept_ClientHello [OF h(3,4), unfolded l]
    have "ch_UUID ch \<in> set (sv_users s) \<and> drop (length hello - 16) hello = OuterMAC C (ch_UUID ch) (take (length hello - 16) hello)"
      using a by (intro MakeUUIDLookup_Inr) simp
    with h(2) m a handle_keeps [OF assms(2)] show ?thesis by (simp add: Users_def)
  qed
qed

lemma toy_service_user:
  "\<exists>s. service_reach toy_crypto s \<and> sv_users s = [toy_uuid] \<and> sv_replay s = Some (NewReplayCache ReplayWindow) \<and>
     sv_lookup s = Some (MakeUUIDLookup toy_crypto (sv_users s))"
proof -
  obtain s0 where s0: "NewService toy_crypto (Some ()) = Inr s0" "service_reach toy_crypto s0" "sv_users s0 = []"
    using toy_service by blast
  have "ParseUUID (concat (replicate 16 ''01'')) = Inr (replicate 16 1)"
    by code_simp
  with s0 have "snd (AddUser toy_crypto s0 (concat (replicate 16 ''01''))) =
      \<lparr>sv_users = [toy_uuid], sv_lookup = Some (MakeUUIDLookup toy_crypto [toy_uuid]), sv_replay = Some (NewReplayCache ReplayWindow)\<rparr>"
    by (auto simp: AddUser_def rebuildLookup_def NewService_def)
  with service_reach.add [OF s0(2), of "concat (replicate 16 ''01'')"] show ?thesis by (metis Service.select_convs)
qed

theorem only_users_are_served_witness:
  "\<exists>s conn d s' rnd' c meta. service_reach toy_crypto s \<and>
     HandleConn toy_crypto 1010 1010 1011 None s conn (replicate 200 7) = (d, s', rnd') \<and> d = NewConnection c meta \<and>
     md_UserUUID meta \<in> set (Users s)"
proof -
  obtain st msg rnd' where w: "WriteClientHello toy_crypto 1000 (\<lambda>q m. (None, q @ [m])) [] toy_uuid CommandTCP
       (Address_zero\<lparr>addr_Domain := [97, 98], addr_Port := 443\<rparr>) (replicate 2000 0) = (Inr st, [msg], rnd')"
    by (rule toy_write)
  obtain s where s: "service_reach toy_crypto s" "sv_users s = [toy_uuid]" "sv_replay s = Some (NewReplayCache ReplayWindow)"
    "sv_lookup s = Some (MakeUUIDLookup toy_crypto (sv_users s))"
    using toy_service_user by blast
  have f: "fresh_in (sv_replay s) 1010 toy_uuid (cs_nonce st)"
    by (simp add: s fresh_in_def rc_live_def spec_live_def NewReplayCache_def)
  show ?thesis
  proof (rule dial_and_serve [OF toy_aead_ok toy_kdf_ok toy_dh_ok toy_kem_ok _ toy_addr(1) w s(4) _ _ _ _ _ _ _ _ f toy_server_keygen,
        of 1010 1011 1005])
    fix out ch fc fs cache' rnd3
    assume ch: "ch_Command ch = CommandTCP" and h: "\<And>ctx tr rest U. conn_admits ctx (lf_c tr) \<Longrightarrow> lf_in tr = lf_enc msg @ rest \<Longrightarrow>
      3000 \<le> nc_room (lf_c tr) \<Longrightarrow> \<exists>tr'. handleTransport lf_transport toy_crypto 1010 1010 1011 ctx s U tr (replicate 200 7) =
           (serve_command lf_transport toy_crypto U ch (new_stream tr' fs fc), s\<lparr>sv_replay := cache'\<rparr>, rnd3) \<and> moved tr out rest tr' \<and> nc_rdl (lf_c tr') = \<infinity>"
    obtain c meta where d: "handleTransport lf_transport toy_crypto 1010 1010 1011 None s (Some lf_underlying)
        (NewLengthFramer (toy_conn (lf_enc msg))) (replicate 200 7) = (NewConnection c meta, s\<lparr>sv_replay := cache'\<rparr>, rnd3)"
      using h [of None "NewLengthFramer (toy_conn (lf_enc msg))" "[]" "Some lf_underlying"] ch
      by (auto simp: conn_admits_def lf_in_def NewLengthFramer_def serve_command_def Let_def)
    have "md_UserUUID meta \<in> set (Users s)"
      using only_users_are_served [OF s(1) d, of c meta] by auto
    with s(1) d show ?thesis
      unfolding HandleConn_def by (intro exI conjI) auto
  qed (use s(2) in \<open>auto simp: absDiff_def\<close>)
qed

text \<open>
  C34: A refused connection is closed: whenever \<^verbatim>\<open>HandleConn\<close> returns an error of its own instead of
  calling the handler, the connection has been closed.
\<close>
theorem refused_connection_closed:
  assumes "HandleConn C t1 t2 t3 ctx s conn rnd = (Refused err f, s', rnd')" and "\<not> is_panic err"
  shows "nc_closed (lf_c f)"
  using lf.handle_refused [of C t1 t2 t3 ctx s "Some lf_underlying" "NewLengthFramer conn" rnd err f s' rnd'] assms
  by (simp add: HandleConn_def lf_shut_def)

theorem refused_connection_closed_witness:
  "\<exists>s err f s' rnd'. HandleConn toy_crypto 0 0 0 None s (toy_conn []) [] = (Refused err f, s', rnd') \<and> nc_closed (lf_c f)"
proof -
  define s where "s = \<lparr>sv_users = [], sv_lookup = None, sv_replay = None\<rparr>"
  then obtain f where h: "HandleConn toy_crypto 0 0 0 None s (toy_conn []) [] = (Refused ErrNoUsers f, s, [])"
    by (simp add: HandleConn_def handleTransport_def accept_stream_def)
  have "nc_closed (lf_c f)"
    by (rule refused_connection_closed [OF h]) simp
  with h show ?thesis by blast
qed

text \<open>
  C28: The context's deadline bounds the server's handshake: the part of \<^verbatim>\<open>handleTransport\<close> up to the built stream, with
  a deadline on an open connection, is over by that deadline (or at once, if it is past),
  however slow the connection and the client are. When it fails, the connection is closed;
  when it succeeds, the connection is open and no deadline is left on it, so that a TCP tunnel
  is handed to the handler in time and without one.
\<close>
theorem accept_in_time:
  assumes "accept_stream lf_transport C t1 t2 t3 (Some dl) s (NewLengthFramer conn) rnd = (r, s', rnd')" and "\<not> nc_closed conn"
  shows "case r of
      Inl (err, f) \<Rightarrow> nc_clock (lf_c f) \<le> max (nc_clock conn) (enat dl) \<and> (\<not> is_panic err \<longrightarrow> nc_closed (lf_c f))
    | Inr (res, stream) \<Rightarrow> nc_clock (lf_c (ss_tr stream)) \<le> max (nc_clock conn) (enat dl) \<and>
        \<not> nc_closed (lf_c (ss_tr stream)) \<and> nc_rdl (lf_c (ss_tr stream)) = \<infinity> \<and> nc_wdl (lf_c (ss_tr stream)) = \<infinity>"
proof -
  have "lf_clock (as_transport r) \<le> max (nc_clock conn) (enat dl)"
    using lfd.accept_stream_in_time [OF assms(1)] assms(2) by (simp add: lf_clock_def lf_shut_def NewLengthFramer_def)
  moreover have "(\<forall>err f. r = Inl (err, f) \<longrightarrow> \<not> is_panic err \<longrightarrow> lf_shut f) \<and>
      (\<forall>res stream. r = Inr (res, stream) \<longrightarrow> \<not> lf_shut (ss_tr stream) \<and> nc_rdl (lf_c (ss_tr stream)) = \<infinity> \<and>
        nc_wdl (lf_c (ss_tr stream)) = \<infinity>)"
  proof (rule accept_stream_path [OF assms(1)])
    fix tr1 tr2
    assume e: "\<And>err tr'. r = Inl (err, tr') \<Longrightarrow> \<not> is_panic err \<Longrightarrow> tr' = snd (tr_Close lf_transport tr2)"
      and o: "\<And>res stream. r = Inr (res, stream) \<Longrightarrow>
        ss_tr stream = set_deadline lf_transport \<infinity> tr2 \<and> (\<exists>m. tr_SendMessage lf_transport tr1 m = (None, tr2))"
    have "lf_shut (snd (tr_Close lf_transport tr2))"
      using lf.close_shuts [of tr2 "fst (tr_Close lf_transport tr2)" "snd (tr_Close lf_transport tr2)"] by simp
    moreover have "\<not> lf_shut tr2" if "r = Inr (res, stream)" for res stream
      using o [OF that] lf.send_ok by blast
    moreover have "nc_rdl (lf_c (set_deadline lf_transport \<infinity> f)) = \<infinity> \<and> nc_wdl (lf_c (set_deadline lf_transport \<infinity> f)) = \<infinity>"
      if "\<not> lf_shut f" for f
      using that by (simp add: lf_set_deadline(2) lf_shut_def)
    ultimately show ?thesis
      using e o lf_set_deadline(1) by metis
  qed
  ultimately show ?thesis
    by (cases r) (auto simp: as_transport_def lf_clock_def lf_shut_def)
qed

theorem accept_in_time_witness:
  "\<exists>s err f s' rnd'. accept_stream lf_transport toy_crypto 0 0 0 (Some 500) s
       (NewLengthFramer ((toy_conn [])\<lparr>nc_silent := True\<rparr>)) [] = (Inl (err, f), s', rnd') \<and> nc_clock (lf_c f) \<le> enat 500 \<and>
     nc_closed (lf_c f)"
proof -
  obtain s :: Service where s: "sv_lookup s = Some (MakeUUIDLookup toy_crypto [toy_uuid])"
    by (metis Service.select_convs(2))
  let ?conn = "(toy_conn [])\<lparr>nc_silent := True\<rparr>"
  obtain r s' rnd' where a: "accept_stream lf_transport toy_crypto 0 0 0 (Some 500) s (NewLengthFramer ?conn) [] = (r, s', rnd')"
    by (metis prod.exhaust)
  obtain f1 where "tr_ReadMessage lf_transport (set_deadline lf_transport (enat 500) (NewLengthFramer ?conn)) = (Inl ErrDeadlineExceeded, f1)"
    by (simp add: lf_set_deadline NewLengthFramer_def)
      (simp add: lf_transport_def LengthFramer_ReadMessage_def conn_ReadFull_def conn_wait_def io_ReadFull_def zero_enat_def)
  with a s obtain err f where r: "r = Inl (err, f)" "\<not> is_panic err"
    by (auto simp: accept_stream_def close_with_def)
  from accept_in_time [OF a] r have "nc_clock (lf_c f) \<le> enat 500" "nc_closed (lf_c f)" by simp_all
  with a r show ?thesis by blast
qed

end
