(* ===== verification/Network.thy ===== *)
theory Network
  imports Conn
begin

text \<open>
  A hostile network between the two ends of a session. It may drop, repeat, reorder, cut and
  splice messages, change the padding, and put in bytes of its own; what it cannot do is make
  the AEAD open something under the session key that the sender has not sealed (\<open>unforged\<close>,
  the authenticity of ChaCha20-Poly1305 for the bytes at hand).

  Shown: whatever it does, the events received without error are the first events sent, and
  the bytes read from a TCP tunnel are the first bytes written. The network can end a stream
  early and nothing more.
\<close>

section \<open>What the network cannot do\<close>

text \<open>Header and plaintext of the frames of a run: what the sender has sealed.\<close>

definition sealed_parts :: "sent_frame list \<Rightarrow> (bytes \<times> bytes) set" where
  "sealed_parts ss = set (map (\<lambda>s. (take 17 (sf_wire s), df_Meta (sf_frame s) @ df_Payload (sf_frame s))) ss)"

text \<open>
  A message is a header, a ciphertext of the length the header announces, and more. If the
  ciphertext opens under the session key, with the nonce that belongs to the header's counter
  and the header as associated data, then the sender has sealed it.
\<close>

definition announced :: "bytes \<Rightarrow> nat \<Rightarrow> bool" where
  "announced h n \<longleftrightarrow> uint (get_be (take 4 h) :: u32) = int (13 + n + unat (get_be (drop 15 h) :: u16))"

definition unforged :: "crypto \<Rightarrow> FrameAEAD \<Rightarrow> (bytes \<times> bytes) set \<Rightarrow> bytes \<Rightarrow> bool" where
  "unforged C f L m \<longleftrightarrow> (\<forall>h c x p. m = h @ c @ x \<and> length h = 17 \<and> announced h (length c) \<and>
     chacha_Open C (fa_aead f) (fa_prefix f @ subslice 4 12 h) c h = Some p \<longrightarrow> (h, p) \<in> L)"

text \<open>All messages that can be read from the bytes \<open>w\<close>.\<close>

definition wire_unforged :: "crypto \<Rightarrow> FrameAEAD \<Rightarrow> (bytes \<times> bytes) set \<Rightarrow> bytes \<Rightarrow> bool" where
  "wire_unforged C f L w \<longleftrightarrow> (\<forall>ms rest. w = concat (map lf_enc ms) @ rest \<and> list_all lf_ok ms \<longrightarrow> list_all (unforged C f L) ms)"

lemma wire_unforged_step:
  assumes "wire_unforged C f L (lf_enc m @ w)" and "lf_ok m"
  shows "unforged C f L m" "wire_unforged C f L w"
proof -
  have *: "list_all (unforged C f L) (m # ms)" if "w = concat (map lf_enc ms) @ rest" "list_all lf_ok ms" for ms rest
    using assms(1) [unfolded wire_unforged_def, rule_format, of "m # ms" rest] assms(2) that by simp
  from * [of "[]" w] show "unforged C f L m" by simp
  from * show "wire_unforged C f L w" unfolding wire_unforged_def by auto
qed

text \<open>The fields of a header.\<close>

lemma frame_hdr_parts:
  "take 4 (frame_hdr n c t m p) = put_be 4 (word_of_int n :: u32)"
  "subslice 4 12 (frame_hdr n c t m p) = put_be 8 c"
  "frame_hdr n c t m p ! 12 = t"
  "subslice 13 15 (frame_hdr n c t m p) = put_be 2 (word_of_nat m :: u16)"
  "drop 15 (frame_hdr n c t m p) = put_be 2 (word_of_int p :: u16)"
  by (simp_all add: frame_hdr_def subslice_def nth_append)

lemma frame_hdr_announced:
  assumes "n = int (13 + k + p)" and "n < 2 ^ 32" and "p < 2 ^ 16"
  shows "announced (frame_hdr n c t m (int p)) k"
proof -
  have "uint (word_of_int n :: u32) = n"
    using assms(1,2) by (intro uint_u32) auto
  moreover have "unat (word_of_nat p :: u16) = p"
    by (rule unat_u16 [OF assms(3)])
  ultimately show ?thesis
    using assms(1) by (simp add: announced_def frame_hdr_parts get_put_be)
qed

lemma frames_sent_nth:
  assumes "frames_sent C f ss f'" and "i < length ss"
  obtains t meta payload pad where "frame_fits t meta payload (int (length pad))"
    "ss ! i = sent_of C (f\<lparr>fa_counter := fa_counter f + of_nat i\<rparr>) t meta payload pad"
proof -
  have "\<exists>t meta payload pad. frame_fits t meta payload (int (length pad)) \<and>
      ss ! i = sent_of C (f\<lparr>fa_counter := fa_counter f + of_nat i\<rparr>) t meta payload pad"
    using assms
  proof (induction arbitrary: i rule: frames_sent.induct)
    case (frame t meta payload pad f ss f')
    then show ?case
      by (cases i) (auto simp: bump_def add.assoc)
  qed simp
  then show thesis using that by blast
qed

text \<open>A frame accepted in the state after \<open>i\<close> frames is the \<open>i\<close>-th frame of the sender.\<close>

lemma accepted_is_next:
  assumes r: "frames_sent C f ss f'" and l: "length ss < 2 ^ 64" and i: "i \<le> length ss"
    and u: "unforged C f (sealed_parts ss) m" and d: "DecodeFrame C m (f\<lparr>fa_counter := fa_counter f + of_nat i\<rparr>) = (Inr df, rest, g)"
  shows "i < length ss \<and> df = sf_frame (ss ! i) \<and> g = f\<lparr>fa_counter := fa_counter f + of_nat (Suc i)\<rparr>"
proof -
  let ?g = "f\<lparr>fa_counter := fa_counter f + of_nat i\<rparr>"
  obtain n k c pad where m: "m = frame_hdr n (fa_counter ?g) (df_Type df) k (int (length pad)) @ c @ pad @ rest"
    and b: "n = int (13 + length c + length pad)" "n \<le> 65536" "k \<le> 1024" "length pad \<le> 4096"
    and body: "decode_body C ?g (frame_hdr n (fa_counter ?g) (df_Type df) k (int (length pad))) (fa_counter ?g) (df_Type df) k c = (Inr df, g)"
    by (rule DecodeFrame_accept [OF d])
  let ?h = "frame_hdr n (fa_counter ?g) (df_Type df) k (int (length pad))"
  obtain p where p: "chacha_Open C (fa_aead f) (fa_prefix f @ put_be 8 (fa_counter ?g)) c ?h = Some p"
    "df_Counter df = fa_counter ?g" "df_Meta df = take k p" "df_Payload df = drop k p" "g = bump ?g"
    using body by (cases df) (auto simp: decode_body_def composeNonce_def bump_def Let_def split: if_splits option.splits)
  have "length ?h = 17" by (simp add: frame_hdr_def)
  moreover have "announced ?h (length c)"
    by (rule frame_hdr_announced [OF b(1)]) (use b in simp_all)
  ultimately have "(?h, p) \<in> sealed_parts ss"
    using u [unfolded unforged_def, rule_format, of ?h c "pad @ rest" p] m p(1) by (simp add: frame_hdr_parts(2))
  then obtain j where j: "j < length ss" "take 17 (sf_wire (ss ! j)) = ?h"
    "df_Meta (sf_frame (ss ! j)) @ df_Payload (sf_frame (ss ! j)) = p"
    by (auto simp: sealed_parts_def in_set_conv_nth)
  obtain t meta payload pad' where s: "frame_fits t meta payload (int (length pad'))"
    "ss ! j = sent_of C (f\<lparr>fa_counter := fa_counter f + of_nat j\<rparr>) t meta payload pad'"
    by (rule frames_sent_nth [OF r j(1)])
  let ?n' = "int (13 + length meta + length payload + 16 + length pad')"
  have h: "?h = frame_hdr ?n' (fa_counter f + of_nat j) t (length meta) (int (length pad'))"
    using j(2) by (simp add: s(2) sent_of_def frame_wire_def Let_def frame_hdr_def)
  have "put_be 8 (fa_counter f + of_nat i) = put_be 8 (fa_counter f + of_nat j)"
    using arg_cong [OF h, of "subslice 4 12"] by (simp add: frame_hdr_parts)
  then have "of_nat i = (of_nat j :: u64)"
    by (simp add: put_be64_inj)
  then have ij: "i = j"
    using of_nat_u64_inj [of i j] l i j(1) by simp
  have t: "df_Type df = t"
    using arg_cong [OF h, of "\<lambda>h. h ! 12"] by (simp add: frame_hdr_parts)
  have "put_be 2 (word_of_nat k :: u16) = put_be 2 (word_of_nat (length meta) :: u16)"
    using arg_cong [OF h, of "subslice 13 15"] by (simp add: frame_hdr_parts)
  then have "(word_of_nat k :: u16) = word_of_nat (length meta)"
    by (metis get_put_be16)
  then have k: "k = length meta"
    using unat_u16 [of k] unat_u16 [of "length meta"] b(3) s(1) by (simp add: frame_fits_def ewp_consts)
  have "p = meta @ payload" using j(3) by (simp add: s(2) sent_of_def)
  then have "df = sf_frame (ss ! j)"
    using p(2-4) t k ij by (cases df) (simp add: s(2) sent_of_def)
  with ij j(1) p(5) show ?thesis by (simp add: bump_def add.assoc)
qed

section \<open>What the receiver gets\<close>

text \<open>
  \<open>expects C f ss i s\<close>: the stream \<open>s\<close> has received \<open>i\<close> frames of the sender's run \<open>ss\<close> and
  has unforged bytes before it.
\<close>

definition expects :: "crypto \<Rightarrow> FrameAEAD \<Rightarrow> sent_frame list \<Rightarrow> nat \<Rightarrow> LengthFramer SecureStream \<Rightarrow> bool" where
  "expects C f ss i s \<longleftrightarrow> i \<le> length ss \<and> ss_recv s = f\<lparr>fa_counter := fa_counter f + of_nat i\<rparr> \<and>
     wire_unforged C f (sealed_parts ss) (lf_in (ss_tr s))"

text \<open>A run of fewer than \<open>2 ^ 64\<close> frames with their events.\<close>

definition run_of :: "crypto \<Rightarrow> FrameAEAD \<Rightarrow> sent_frame list \<Rightarrow> Event list \<Rightarrow> bool" where
  "run_of C f ss evs \<longleftrightarrow> (\<exists>f'. frames_sent C f ss f') \<and> length ss < 2 ^ 64 \<and> map event_of (map sf_frame ss) = map Inr evs"

lemma run_of_nth: "run_of C f ss evs \<Longrightarrow> length evs = length ss \<and> (\<forall>i < length ss. event_of (sf_frame (ss ! i)) = Inr (evs ! i))"
  unfolding run_of_def by (metis (no_types, lifting) length_map nth_map)

lemma expects_Recv:
  assumes "run_of C f ss evs" and "expects C f ss i s" and "Recv lf_transport C s = (Inr ev, s')"
  shows "i < length evs \<and> ev = evs ! i \<and> expects C f ss (Suc i) s'"
proof (rule Recv_Inr [OF assms(3)])
  fix wire tr df rest recv
  assume m: "tr_ReadMessage lf_transport (ss_tr s) = (Inr wire, tr)" and d: "DecodeFrame C wire (ss_recv s) = (Inr df, rest, recv)"
    and ev: "event_of df = Inr ev"
    and s': "s' = s\<lparr>ss_tr := tr, ss_recv := recv, ss_bytesIn := ss_bytesIn s + word_of_nat (length wire), ss_frmIn := ss_frmIn s + 1\<rparr>"
  obtain f' where r: "frames_sent C f ss f'" "length ss < 2 ^ 64"
    using assms(1) unfolding run_of_def by blast
  have e: "i \<le> length ss" "ss_recv s = f\<lparr>fa_counter := fa_counter f + of_nat i\<rparr>"
    "wire_unforged C f (sealed_parts ss) (lf_enc wire @ lf_in tr)" "lf_ok wire"
    using assms(2) lf.read_sound [OF m] by (simp_all add: expects_def)
  note u = wire_unforged_step [OF e(3,4)]
  have "i < length ss \<and> df = sf_frame (ss ! i) \<and> recv = f\<lparr>fa_counter := fa_counter f + of_nat (Suc i)\<rparr>"
    by (rule accepted_is_next [OF r e(1) u(1) d [unfolded e(2)]])
  with ev u(2) s' run_of_nth [OF assms(1)] show ?thesis
    by (auto simp: expects_def)
qed

lemma expects_recv_all:
  assumes "run_of C f ss evs" and "expects C f ss i s" and "recv_all lf_transport C n s = (Inr es, s')"
  shows "i + n \<le> length evs \<and> es = take n (drop i evs) \<and> expects C f ss (i + n) s'"
  using assms(2,3)
proof (induction n arbitrary: i s es)
  case 0
  then show ?case using run_of_nth [OF assms(1)] by (simp add: expects_def)
next
  case (Suc n)
  from Suc.prems(2) obtain ev s1 es' where R: "Recv lf_transport C s = (Inr ev, s1)"
    and A: "recv_all lf_transport C n s1 = (Inr es', s')" "es = ev # es'"
    by (auto split: prod.splits sum.splits)
  have n: "i < length evs" "ev = evs ! i" "expects C f ss (Suc i) s1"
    using expects_Recv [OF assms(1) Suc.prems(1) R] by blast+
  with Suc.IH [OF n(3) A(1)] A(2) show ?case
    by (simp add: Cons_nth_drop_Suc [symmetric])
qed

text \<open>
  \<open>still_due C f ss evs c x\<close>: of the bytes the sender has written, \<open>x\<close> are still to be read from
  the connection \<open>c\<close>.
\<close>

definition still_due ::
  "crypto \<Rightarrow> FrameAEAD \<Rightarrow> sent_frame list \<Rightarrow> Event list \<Rightarrow> LengthFramer streamConn \<Rightarrow> bytes \<Rightarrow> bool" where
  "still_due C f ss evs c x \<longleftrightarrow> (\<exists>i. expects C f ss i (sc_stream c) \<and> x = sc_readBuf c @ tcp_bytes (drop i evs))"

lemma read_fill_due:
  assumes "run_of C f ss evs" and "read_fill lf_transport C c = Some (None, c')" and "still_due C f ss evs c x"
  shows "still_due C f ss evs c' x"
proof -
  have "T = lf_transport \<longrightarrow> run_of C f ss evs \<longrightarrow> fst y = None \<longrightarrow> still_due C f ss evs c x \<longrightarrow> still_due C f ss evs (snd y) x"
    if "read_fill T C c = Some y" for T y c
    using _ that
  proof (rule read_fill.raw_induct [where P = "\<lambda>T C c y. T = lf_transport \<longrightarrow> run_of C f ss evs \<longrightarrow> fst y = None \<longrightarrow>
        still_due C f ss evs c x \<longrightarrow> still_due C f ss evs (snd y) x"], goal_cases)
    case (1 rf T C c y)
    show ?case
    proof (intro impI)
      assume T: "T = lf_transport" and r: "run_of C f ss evs" and y: "fst y = None" and d: "still_due C f ss evs c x"
      show "still_due C f ss evs (snd y) x"
      proof (cases "sc_readBuf c = []")
        case False
        with 1(2) d show ?thesis by auto
      next
        case True
        obtain res s where R: "Recv lf_transport C (sc_stream c) = (res, s)" by (metis prod.exhaust)
        with 1(2) True T y obtain ev where ev: "res = Inr ev"
          by (auto split: sum.splits)
        obtain i where i: "expects C f ss i (sc_stream c)" "x = tcp_bytes (drop i evs)"
          using d True unfolding still_due_def by auto
        note n = expects_Recv [OF r i(1) R [unfolded ev]]
        have x: "x = (if ev_Type ev = FrameTCPData then ev_Payload ev else []) @ tcp_bytes (drop (Suc i) evs)"
          using n i(2) by (metis Cons_nth_drop_Suc tcp_bytes_simps(2))
        define c1 where "c1 = (if ev_Type ev = FrameTCPData then c\<lparr>sc_stream := s, sc_readBuf := ev_Payload ev\<rparr> else c\<lparr>sc_stream := s\<rparr>)"
        have "still_due C f ss evs c1 x"
          using n x True unfolding still_due_def c1_def by (intro exI [of _ "Suc i"]) auto
        moreover have "rf T C c1 = Some y"
          using 1(2) True T R ev y unfolding c1_def by (cases c) (auto split: if_splits)
        ultimately show ?thesis
          using 1(1) [of T C c1 y] T r y by blast
      qed
    qed
  qed
  with assms show ?thesis by fastforce
qed

lemma Read_due:
  assumes "run_of C f ss evs" and "streamConn_Read lf_transport C c n = Some (Inr b, c')" and "still_due C f ss evs c x"
  obtains x' where "x = b @ x'" "still_due C f ss evs c' x'"
proof -
  obtain c1 where c1: "read_fill lf_transport C c = Some (None, c1)" "b = take n (sc_readBuf c1)"
    "c' = c1\<lparr>sc_readBuf := drop n (sc_readBuf c1)\<rparr>"
    using assms(2) by (auto simp: streamConn_Read_def split: option.splits)
  obtain i where i: "expects C f ss i (sc_stream c1)" "x = sc_readBuf c1 @ tcp_bytes (drop i evs)"
    using read_fill_due [OF assms(1) c1(1) assms(3)] unfolding still_due_def by blast
  show thesis
  proof (rule that [of "drop n (sc_readBuf c1) @ tcp_bytes (drop i evs)"])
    show "x = b @ drop n (sc_readBuf c1) @ tcp_bytes (drop i evs)"
      using i(2) c1(2) by (metis append.assoc append_take_drop_id)
    show "still_due C f ss evs c' (drop n (sc_readBuf c1) @ tcp_bytes (drop i evs))"
      using i(1) c1(3) unfolding still_due_def by auto
  qed
qed

text \<open>Any number of reads, with buffers of any sizes, as long as they succeed.\<close>

fun conn_reads :: "'t transport \<Rightarrow> crypto \<Rightarrow> nat list \<Rightarrow> 't streamConn \<Rightarrow> ((ewp_error + bytes) \<times> 't streamConn) option" where
  "conn_reads T C [] c = Some (Inr [], c)"
| "conn_reads T C (n # ns) c =
     (case streamConn_Read T C c n of
        None \<Rightarrow> None
      | Some (Inl err, c) \<Rightarrow> Some (Inl err, c)
      | Some (Inr b, c) \<Rightarrow>
          (case conn_reads T C ns c of
             None \<Rightarrow> None
           | Some (Inl err, c) \<Rightarrow> Some (Inl err, c)
           | Some (Inr b', c) \<Rightarrow> Some (Inr (b @ b'), c)))"

lemma conn_reads_due:
  assumes "run_of C f ss evs" and "conn_reads lf_transport C ns c = Some (Inr b, c')" and "still_due C f ss evs c x"
  shows "\<exists>x'. x = b @ x'"
  using assms(2,3)
proof (induction ns arbitrary: c b x)
  case (Cons n ns)
  then obtain b1 c1 b2 where r: "streamConn_Read lf_transport C c n = Some (Inr b1, c1)"
    "conn_reads lf_transport C ns c1 = Some (Inr b2, c')" "b = b1 @ b2"
    by (auto split: option.splits sum.splits)
  obtain x1 where x1: "x = b1 @ x1" "still_due C f ss evs c1 x1"
    by (rule Read_due [OF assms(1) r(1) Cons.prems(2)])
  from Cons.IH [OF r(2) x1(2)] x1(1) r(3) show ?case by auto
qed simp

section \<open>Honest bytes are unforged\<close>

lemma sent_unforged:
  assumes "frames_sent C f ss f'" and "aead_ok C" and "wf_fa f" and "s \<in> set ss"
  shows "unforged C f (sealed_parts ss) (sf_wire s @ junk)"
  unfolding unforged_def
proof (intro allI impI, elim conjE)
  fix h c x p
  assume m: "sf_wire s @ junk = h @ c @ x" and h: "length h = 17" "announced h (length c)"
    and o: "chacha_Open C (fa_aead f) (fa_prefix f @ subslice 4 12 h) c h = Some p"
  obtain i where i: "i < length ss" "s = ss ! i" using assms(4) by (auto simp: in_set_conv_nth)
  obtain t meta payload pad where s: "frame_fits t meta payload (int (length pad))"
    "s = sent_of C (f\<lparr>fa_counter := fa_counter f + of_nat i\<rparr>) t meta payload pad"
    using frames_sent_nth [OF assms(1) i(1)] i(2) by metis
  let ?n = "int (13 + length meta + length payload + 16 + length pad)" and ?cnt = "fa_counter f + of_nat i"
  let ?h = "frame_hdr ?n ?cnt t (length meta) (int (length pad))"
  let ?c = "chacha_Seal C (fa_aead f) (fa_prefix f @ put_be 8 ?cnt) (meta @ payload) ?h"
  have w: "sf_wire s = ?h @ ?c @ pad"
    by (simp add: s(2) sent_of_def frame_wire_def composeNonce_def Let_def)
  have hl: "length ?h = 17" by (simp add: frame_hdr_def)
  have "h = ?h" using m h(1) hl unfolding w by (simp add: append_eq_append_conv)
  have cl: "length ?c = length meta + length payload + 16"
    using aead_seal_len [OF assms(2)] assms(3) by (simp add: wf_fa_def)
  have "announced ?h (length ?c)"
    by (rule frame_hdr_announced) (use s(1) cl in \<open>simp_all add: frame_fits_def ewp_consts\<close>)
  with h(2) \<open>h = ?h\<close> have "length c = length ?c" by (simp add: announced_def)
  with m \<open>h = ?h\<close> have "c = ?c" unfolding w by (simp add: append_eq_append_conv)
  with o \<open>h = ?h\<close> have "p = meta @ payload"
    using aead_open_seal [OF assms(2), of "fa_aead f" "fa_prefix f @ put_be 8 ?cnt" "meta @ payload" ?h] assms(3)
    by (simp add: frame_hdr_parts wf_fa_def)
  with \<open>h = ?h\<close> show "(h, p) \<in> sealed_parts ss"
    using assms(4) w hl by (force simp: sealed_parts_def s(2) sent_of_def)
qed

lemma lf_enc_inj:
  assumes "lf_enc m @ x = lf_enc m' @ y" and "lf_ok m" and "lf_ok m'"
  shows "m = m' \<and> x = y"
proof -
  have h: "put_be 4 (word_of_nat (length m) :: u32) = put_be 4 (word_of_nat (length m') :: u32)" "m @ x = m' @ y"
    using assms(1) by (simp_all add: lf_enc_def append_eq_append_conv)
  have "(word_of_nat (length m) :: u32) = word_of_nat (length m')"
    using arg_cong [OF h(1), of "get_be :: bytes \<Rightarrow> u32"] by simp
  moreover have "unat (word_of_nat (length m) :: u32) = length m" "unat (word_of_nat (length m') :: u32) = length m'"
    using assms(2,3) by (auto intro!: unat_u32 simp: lf_ok_def)
  ultimately have "length m = length m'" by metis
  with h(2) show ?thesis by (simp add: append_eq_append_conv)
qed

lemma wire_unforged_concat:
  assumes "list_all lf_ok ms" and "list_all (unforged C f L) ms"
  shows "wire_unforged C f L (concat (map lf_enc ms))"
  using assms
proof (induction ms)
  case Nil
  have "ms = []" if "[] = concat (map lf_enc ms) @ rest" for ms and rest :: bytes
    using that lf.enc_nonempty by (cases ms) auto
  then show ?case unfolding wire_unforged_def by fastforce
next
  case (Cons m ms)
  show ?case
    unfolding wire_unforged_def
  proof (intro allI impI, elim conjE)
    fix ms' rest
    assume p: "concat (map lf_enc (m # ms)) = concat (map lf_enc ms') @ rest" "list_all lf_ok ms'"
    show "list_all (unforged C f L) ms'"
    proof (cases ms')
      case (Cons m' ms'')
      with p have e: "lf_enc m @ concat (map lf_enc ms) = lf_enc m' @ concat (map lf_enc ms'') @ rest" "lf_ok m'" by simp_all
      from lf_enc_inj [OF e(1) _ e(2)] Cons.prems(1) have "m' = m" "concat (map lf_enc ms) = concat (map lf_enc ms'') @ rest"
        by auto
      with Cons.IH Cons.prems Cons p(2) show ?thesis
        by (auto simp: wire_unforged_def)
    qed simp
  qed
qed

section \<open>Properties\<close>

lemma sent_run_frames:
  assumes "lf.sent_run C s evs s'"
  obtains ss where "frames_sent C (ss_send s) ss (ss_send s')" "map event_of (map sf_frame ss) = map Inr evs"
    "lf_out (ss_tr s') = lf_out (ss_tr s) @ concat (map lf_enc (map sf_wire ss))" "list_all lf_ok (map sf_wire ss)"
  using assms unfolding lf.sent_run_def sends_events_def by blast

text \<open>
  C3: A hostile network can only cut a session short. Let a side have made any sequence of sending calls, all
  without error. Then what it has put on the connection is a sequence of frames such that,
  if they are fewer than \<open>2 ^ 64\<close>, a peer in the matching cipher state, whatever unforged bytes
  the network puts before it in their place, gets from any number of successful \<^verbatim>\<open>Recv\<close>s exactly
  the first events of those calls: nothing is lost in between, repeated, reordered or changed.
\<close>
theorem tampering_only_truncates:
  assumes "send_reqs lf_transport C now s qs rnd = (None, s', rnd')" and "\<forall>q \<in> set qs. wf_req q"
  shows "\<exists>ss evs. delivers qs evs \<and> frames_sent C (ss_send s) ss (ss_send s') \<and> length ss = length evs \<and>
    list_all lf_ok (map sf_wire ss) \<and> nc_out (lf_c (ss_tr s')) = nc_out (lf_c (ss_tr s)) @ concat (map lf_enc (map sf_wire ss)) \<and>
    (length ss < 2 ^ 64 \<longrightarrow> (\<forall>r n es r'. ss_recv r = ss_send s \<and>
       wire_unforged C (ss_send s) (sealed_parts ss) (nc_in (lf_c (ss_tr r))) \<and>
       recv_all lf_transport C n r = (Inr es, r') \<longrightarrow> n \<le> length evs \<and> es = take n evs))"
proof -
  have q: "list_all wf_req qs" using assms(2) by (simp add: list_all_iff)
  obtain evs where e: "lf.sent_run C s evs s'" "delivers qs evs"
    using lf.send_reqs_run [OF assms(1) q] by blast
  obtain ss where ss: "frames_sent C (ss_send s) ss (ss_send s')" "map event_of (map sf_frame ss) = map Inr evs"
    "lf_out (ss_tr s') = lf_out (ss_tr s) @ concat (map lf_enc (map sf_wire ss))" "list_all lf_ok (map sf_wire ss)"
    by (rule sent_run_frames [OF e(1)])
  have "n \<le> length evs \<and> es = take n evs"
    if "length ss < 2 ^ 64" "ss_recv r = ss_send s" "wire_unforged C (ss_send s) (sealed_parts ss) (nc_in (lf_c (ss_tr r)))"
      "recv_all lf_transport C n r = (Inr es, r')" for r n es r'
  proof -
    have "run_of C (ss_send s) ss evs" using ss(1,2) that(1) unfolding run_of_def by blast
    moreover have "expects C (ss_send s) ss 0 r" using that(2,3) by (simp add: expects_def lf_in_def)
    ultimately show ?thesis using expects_recv_all [of C "ss_send s" ss evs 0 r n es r'] that(4) by simp
  qed
  moreover have "length ss = length evs" using arg_cong [OF ss(2), of length] by simp
  ultimately show ?thesis
    using e(2) ss(1,3,4) by (intro exI [of _ ss] exI [of _ evs]) (auto simp: lf_out_def)
qed

text \<open>
  C16: A hostile network can only cut a TCP tunnel short. Let one end have made any calls of \<^verbatim>\<open>Write\<close>, mixed with pings,
  pongs and cover frames, all without error. Whatever unforged bytes the network puts before
  the other end instead of the frames written, any successful \<^verbatim>\<open>Read\<close>s there, with buffers of any
  sizes, return together the first bytes of what was written.
\<close>
theorem tcp_tampering_only_truncates:
  assumes "conn_ops lf_transport C now w ops rnd = (None, w', rnd')"
  shows "\<exists>ss. frames_sent C (ss_send (sc_stream w)) ss (ss_send (sc_stream w')) \<and>
    list_all lf_ok (map sf_wire ss) \<and> nc_out (lf_c (ss_tr (sc_stream w'))) =
      nc_out (lf_c (ss_tr (sc_stream w))) @ concat (map lf_enc (map sf_wire ss)) \<and>
    (length ss < 2 ^ 64 \<longrightarrow> (\<forall>r ns b r'. ss_recv (sc_stream r) = ss_send (sc_stream w) \<and> sc_readBuf r = [] \<and>
       wire_unforged C (ss_send (sc_stream w)) (sealed_parts ss) (nc_in (lf_c (ss_tr (sc_stream r)))) \<and>
       conn_reads lf_transport C ns r = Some (Inr b, r') \<longrightarrow> (\<exists>b'. concat (map conn_op_bytes ops) = b @ b')))"
proof -
  obtain evs where e: "lf.sent_run C (sc_stream w) evs (sc_stream w')" "tcp_bytes evs = concat (map conn_op_bytes ops)"
    using lf.conn_ops_run [OF assms] by blast
  obtain ss where ss: "frames_sent C (ss_send (sc_stream w)) ss (ss_send (sc_stream w'))" "map event_of (map sf_frame ss) = map Inr evs"
    "lf_out (ss_tr (sc_stream w')) = lf_out (ss_tr (sc_stream w)) @ concat (map lf_enc (map sf_wire ss))" "list_all lf_ok (map sf_wire ss)"
    by (rule sent_run_frames [OF e(1)])
  have "\<exists>b'. concat (map conn_op_bytes ops) = b @ b'"
    if "length ss < 2 ^ 64" "ss_recv (sc_stream r) = ss_send (sc_stream w)" "sc_readBuf r = []"
      "wire_unforged C (ss_send (sc_stream w)) (sealed_parts ss) (nc_in (lf_c (ss_tr (sc_stream r))))"
      "conn_reads lf_transport C ns r = Some (Inr b, r')" for r ns b r'
  proof -
    have r: "run_of C (ss_send (sc_stream w)) ss evs" using ss(1,2) that(1) unfolding run_of_def by blast
    have "still_due C (ss_send (sc_stream w)) ss evs r (tcp_bytes evs)"
      using that(2-4) unfolding still_due_def by (intro exI [of _ 0]) (simp add: expects_def lf_in_def)
    from conn_reads_due [OF r that(5) this] e(2) show ?thesis by simp
  qed
  with ss(1,3,4) show ?thesis
    by (intro exI [of _ ss]) (auto simp: lf_out_def)
qed

text \<open>A network that delivers everything twice.\<close>

lemma twice_unforged:
  assumes "frames_sent C f ss f'" and "aead_ok C" and "wf_fa f" and "list_all lf_ok (map sf_wire ss)"
  shows "wire_unforged C f (sealed_parts ss) (concat (map lf_enc (map sf_wire ss)) @ concat (map lf_enc (map sf_wire ss)))"
proof -
  have "unforged C f (sealed_parts ss) (sf_wire s)" if "s \<in> set ss" for s
    using sent_unforged [OF assms(1-3) that, of "[]"] by simp
  then have "list_all (unforged C f (sealed_parts ss)) (map sf_wire (ss @ ss))"
    by (auto simp: list_all_iff)
  moreover have "list_all lf_ok (map sf_wire (ss @ ss))" using assms(4) by simp
  ultimately show ?thesis
    using wire_unforged_concat [of "map sf_wire (ss @ ss)" C f "sealed_parts ss"] by simp
qed

lemma concat_enc_length: "length ms \<le> length (concat (map lf_enc ms))"
proof (induction ms)
  case (Cons m ms)
  then show ?case using lf.enc_nonempty [of m] by (cases "lf_enc m") auto
qed simp

lemma sendFrame_out_length:
  assumes "sendFrame lf_transport C now s t meta payload padLen rnd = (None, s', rnd')"
  shows "length (lf_out (ss_tr s')) \<le> length (lf_out (ss_tr s)) + 65540"
proof (rule sendFrame_None [OF assms])
  fix pad tr
  assume "tr_SendMessage lf_transport (ss_tr s) (frame_wire C (ss_send s) t meta payload pad) = (None, tr)" "ss_tr s' = tr"
  with lf.send_ok [of "ss_tr s" "frame_wire C (ss_send s) t meta payload pad" tr] show ?thesis
    by (simp add: lf_ok_def lf_enc_def)
qed

lemma toy_sender:
  obtains c s' rnd' where "wf_fa (ss_send c)" "nc_out (lf_c (ss_tr c)) = []"
    "sendFrame lf_transport toy_crypto 0 c FrameTCPData [] [1, 2, 3] (-1) (replicate 5000 0) = (None, s', rnd')"
proof -
  obtain c where c: "NewClientSecureStream (NewLengthFramer (toy_conn [])) toy_keys = Inr c"
    by (rule that) (rule new_streams(1) [OF toy_keys_wf])
  note p = toy_streams [OF c]
  obtain s' rnd' where "sendFrame lf_transport toy_crypto 0 c FrameTCPData [] [1, 2, 3] (-1) (replicate 5000 0) = (None, s', rnd')"
    using sendFrame_lf [OF toy_aead_ok, of c FrameTCPData "[]" "[1, 2, 3]" "replicate 5000 0" 0] p
    by (auto simp: FrameType_Valid_def lf_open_def NewLengthFramer_def)
  then show thesis using p by (intro that [of c s' rnd']) (simp_all add: NewLengthFramer_def)
qed

theorem tampering_only_truncates_witness:
  "\<exists>s s' rnd' r es r'. send_reqs lf_transport toy_crypto (\<lambda>_. 0) s [ReqTCPData [1, 2, 3]] (replicate 5000 0) = (None, s', rnd') \<and>
     nc_in (lf_c (ss_tr r)) = nc_out (lf_c (ss_tr s')) @ nc_out (lf_c (ss_tr s')) \<and>
     recv_all lf_transport toy_crypto 1 r = (Inr es, r') \<and> map ev_Payload es = [[1, 2, 3]]"
proof -
  obtain c s' rnd' where c: "wf_fa (ss_send c)" "nc_out (lf_c (ss_tr c)) = []"
    and f: "sendFrame lf_transport toy_crypto 0 c FrameTCPData [] [1, 2, 3] (-1) (replicate 5000 0) = (None, s', rnd')"
    by (rule toy_sender)
  have q: "send_reqs lf_transport toy_crypto (\<lambda>_. 0) c [ReqTCPData [1, 2, 3]] (replicate 5000 0) = (None, s', rnd')"
    using f by (simp add: SendTCPData_def ewp_consts)
  have wf: "\<forall>q \<in> set [ReqTCPData [1, 2, 3]]. wf_req q" by simp
  obtain ss evs where t: "delivers [ReqTCPData [1, 2, 3]] evs" "frames_sent toy_crypto (ss_send c) ss (ss_send s')" "length ss = length evs"
    "list_all lf_ok (map sf_wire ss)" "nc_out (lf_c (ss_tr s')) = concat (map lf_enc (map sf_wire ss))"
    and a: "length ss < 2 ^ 64 \<longrightarrow> (\<forall>r n es r'. ss_recv r = ss_send c \<and>
       wire_unforged toy_crypto (ss_send c) (sealed_parts ss) (nc_in (lf_c (ss_tr r))) \<and>
       recv_all lf_transport toy_crypto n r = (Inr es, r') \<longrightarrow> n \<le> length evs \<and> es = take n evs)"
    using tampering_only_truncates [OF q, unfolded c(2) append_Nil, OF wf] by (elim exE conjE) (rule that; assumption)
  have e: "map ev_Payload evs = [[1, 2, 3]]"
    using t(1) by (auto elim!: delivers.cases simp: ewp_consts length_Suc_conv)
  let ?w = "nc_out (lf_c (ss_tr s'))"
  define r where "r = new_stream (NewLengthFramer (toy_conn (?w @ ?w))) (ss_recv c) (ss_send c)"
  have i: "nc_in (lf_c (ss_tr r)) = ?w @ ?w" "ss_recv r = ss_send c" "\<not> ss_closed r" "lf_open (ss_tr r)" "lf_in (ss_tr r) = ?w @ ?w"
    by (simp_all add: r_def new_stream_def NewLengthFramer_def lf_open_def lf_in_def)
  have o: "lf_out (ss_tr s') = lf_out (ss_tr c) @ ?w" using c(2) by (simp add: lf_out_def)
  obtain evs' r' where R: "delivers [ReqTCPData [1, 2, 3]] evs'" "recv_all lf_transport toy_crypto (length evs') r = (Inr evs', r')"
    using lf.channel_delivers [OF toy_aead_ok c(1) _ q o i(2-5)] by auto
  have n: "length evs' = 1" "length ss < 2 ^ 64"
    using R(1) arg_cong [OF e, of length] t(3) by (auto elim!: delivers.cases simp: ewp_consts)
  have "wire_unforged toy_crypto (ss_send c) (sealed_parts ss) (nc_in (lf_c (ss_tr r)))"
    using twice_unforged [OF t(2) toy_aead_ok c(1) t(4)] by (simp add: i(1) t(5))
  with a n(2) i(2) R(2) have "evs' = take (length evs') evs" by blast
  then have "evs' = evs" using n arg_cong [OF e, of length] by simp
  with q i(1) R(2) n(1) e show ?thesis by (metis One_nat_def)
qed

theorem tcp_tampering_only_truncates_witness:
  "\<exists>w w' rnd' r b r'. conn_ops lf_transport toy_crypto (\<lambda>_ _. 0) w [OpWrite [1, 2, 3]] (replicate 5000 0) = (None, w', rnd') \<and>
     nc_in (lf_c (ss_tr (sc_stream r))) = nc_out (lf_c (ss_tr (sc_stream w'))) @ nc_out (lf_c (ss_tr (sc_stream w'))) \<and>
     conn_reads lf_transport toy_crypto [2] r = Some (Inr b, r') \<and> b \<noteq> [] \<and> (\<exists>b'. [1, 2, 3] = b @ b')"
proof -
  obtain c s' rnd' where c: "wf_fa (ss_send c)" "nc_out (lf_c (ss_tr c)) = []"
    and f: "sendFrame lf_transport toy_crypto 0 c FrameTCPData [] [1, 2, 3] (-1) (replicate 5000 0) = (None, s', rnd')"
    by (rule toy_sender)
  have q: "conn_ops lf_transport toy_crypto (\<lambda>_ _. 0) (new_streamConn c) [OpWrite [1, 2, 3]] (replicate 5000 0) =
      (None, new_streamConn s', rnd')"
    using f by (simp add: streamConn_Write_def write_loop.simps new_streamConn_def SendTCPData_def ewp_consts maxPayload_def)
  have sc: "sc_stream (new_streamConn x) = x" for x :: "LengthFramer SecureStream" by (simp add: new_streamConn_def)
  obtain ss where t: "frames_sent toy_crypto (ss_send c) ss (ss_send s')" "list_all lf_ok (map sf_wire ss)"
    "nc_out (lf_c (ss_tr s')) = concat (map lf_enc (map sf_wire ss))"
    and a: "length ss < 2 ^ 64 \<longrightarrow> (\<forall>r ns b r'. ss_recv (sc_stream r) = ss_send c \<and> sc_readBuf r = [] \<and>
       wire_unforged toy_crypto (ss_send c) (sealed_parts ss) (nc_in (lf_c (ss_tr (sc_stream r)))) \<and>
       conn_reads lf_transport toy_crypto ns r = Some (Inr b, r') \<longrightarrow>
       (\<exists>b'. concat (map conn_op_bytes [OpWrite [1, 2, 3]]) = b @ b'))"
    using tcp_tampering_only_truncates [OF q, unfolded sc c(2) append_Nil] by (elim exE conjE) (rule that; assumption)
  let ?w = "nc_out (lf_c (ss_tr s'))"
  define r where "r = new_streamConn (new_stream (NewLengthFramer (toy_conn (?w @ ?w))) (ss_recv c) (ss_send c))"
  have i: "nc_in (lf_c (ss_tr (sc_stream r))) = ?w @ ?w" "ss_recv (sc_stream r) = ss_send c" "\<not> ss_closed (sc_stream r)"
    "lf_open (ss_tr (sc_stream r))" "lf_in (ss_tr (sc_stream r)) = ?w @ ?w" "sc_readBuf r = []"
    by (simp_all add: r_def new_streamConn_def new_stream_def NewLengthFramer_def lf_open_def lf_in_def)
  have "lf.stream_of toy_crypto r [1, 2, 3] ?w"
    using lf.conn_ops_stream_of [OF q, of r ?w] c i by (simp add: sc lf_out_def)
  from lf.Read_stream_of [OF toy_aead_ok this, of 2] obtain b r' where
    R: "streamConn_Read lf_transport toy_crypto r 2 = Some (Inr b, r')" "b \<noteq> []" by auto
  then have cr: "conn_reads lf_transport toy_crypto [2] r = Some (Inr b, r')" by simp
  have "length (concat (map lf_enc (map sf_wire ss))) \<le> 65540"
    using sendFrame_out_length [OF f] c(2) t(3) by (simp add: lf_out_def)
  then have n: "length ss < 2 ^ 64"
    using concat_enc_length [of "map sf_wire ss"] by simp
  have "wire_unforged toy_crypto (ss_send c) (sealed_parts ss) (nc_in (lf_c (ss_tr (sc_stream r))))"
    using twice_unforged [OF t(1) toy_aead_ok c(1) t(2)] by (simp add: i(1) t(3))
  with a n i(2,6) cr have "\<exists>b'. concat (map conn_op_bytes [OpWrite [1, 2, 3]]) = b @ b'" by blast
  then have "\<exists>b'. [1, 2, 3] = b @ b'" by simp
  moreover have "nc_in (lf_c (ss_tr (sc_stream r))) = nc_out (lf_c (ss_tr (sc_stream (new_streamConn s')))) @
      nc_out (lf_c (ss_tr (sc_stream (new_streamConn s'))))"
    by (simp add: i(1) sc)
  ultimately show ?thesis using q cr R(2) by blast
qed

end
