(* ===== verification/Concurrency.thy ===== *)
theory Concurrency
  imports Lifecycle
begin

text \<open>
  Goroutines sharing one \<^verbatim>\<open>SecureStream\<close>. The other theories run one call after the other;
  here the calls of any number of goroutines interleave, at the points where the code lets
  them: \<^verbatim>\<open>sendFrame\<close> tests the closed flag, takes \<^verbatim>\<open>writeMu\<close>, and releases it after one
  frame, and \<^verbatim>\<open>SendTCPData\<close> calls it once per piece of a large payload. So a goroutine inside a
  sending call stands before the test of the flag, or between that test and the mutex, or has
  its result and has not returned yet, and \<^verbatim>\<open>Close\<close>, \<^verbatim>\<open>Recv\<close> and frames of other goroutines can
  come in at each of these points. What happens under the mutex is one step,
  \<open>sendFrame_locked\<close>; that includes the atomic counters after \<^verbatim>\<open>SendMessage\<close>, which \<^verbatim>\<open>Close\<close> does
  not touch. Not followed: a \<^verbatim>\<open>Close\<close> that falls inside the one \<^verbatim>\<open>SendMessage\<close> there and cuts
  it short, which a failing connection also does.

  Shown: every call made alone is one of these schedules; under every schedule the peer
  receives the frames in the order in which they got the mutex, and of each goroutine what its
  calls asked for, in its own order; after \<^verbatim>\<open>Close\<close> no frame goes out any more, not even of a
  goroutine already past the test, and the only calls to return without an error after it are those
  whose last frame was out before it; two large writes at the same time mix.
\<close>

section \<open>Calls as sequences of frames\<close>

text \<open>The arguments of one \<^verbatim>\<open>sendFrame\<close>.\<close>

record frame_call =
  fc_Type :: byte
  fc_Meta :: bytes
  fc_Payload :: bytes
  fc_padLen :: int

definition data_call :: "bytes \<Rightarrow> frame_call" where
  "data_call p = \<lparr>fc_Type = FrameTCPData, fc_Meta = [], fc_Payload = p, fc_padLen = -1\<rparr>"

text \<open>One turn of the loop of \<^verbatim>\<open>SendTCPData\<close>: the piece to send now, and what is left after it.\<close>

definition next_piece :: "bytes \<Rightarrow> bytes \<Rightarrow> (frame_call \<times> bytes) \<times> bytes" where
  "next_piece payload rnd =
     (case chunk_size (length payload) rnd of
        (chunk, rnd) \<Rightarrow> ((data_call (take chunk payload), drop chunk payload), rnd))"

text \<open>The first \<^verbatim>\<open>sendFrame\<close> of a sending call, or the error of \<^verbatim>\<open>buildUDPMeta\<close> instead of it.\<close>

definition udp_call :: "byte \<Rightarrow> bytes \<Rightarrow> Address \<Rightarrow> bytes \<Rightarrow> ewp_error + frame_call \<times> bytes" where
  "udp_call t globalID target payload =
     (case buildUDPMeta globalID target of
        Inl err \<Rightarrow> Inl err
      | Inr meta \<Rightarrow> Inr (\<lparr>fc_Type = t, fc_Meta = meta, fc_Payload = payload, fc_padLen = -1\<rparr>, []))"

definition plain_call :: "byte \<Rightarrow> bytes \<Rightarrow> bytes \<Rightarrow> int \<Rightarrow> ewp_error + frame_call \<times> bytes" where
  "plain_call t meta payload padLen =
     Inr (\<lparr>fc_Type = t, fc_Meta = meta, fc_Payload = payload, fc_padLen = padLen\<rparr>, [])"

fun first_call :: "send_req \<Rightarrow> bytes \<Rightarrow> (ewp_error + frame_call \<times> bytes) \<times> bytes" where
  "first_call (ReqTCPData p) rnd =
     (if length p \<le> reshapeThreshold then (Inr (data_call p, []), rnd)
      else case next_piece p rnd of (piece, rnd) \<Rightarrow> (Inr piece, rnd))"
| "first_call (ReqUDPNew gid a p) rnd = (udp_call FrameUDPNew gid a p, rnd)"
| "first_call (ReqUDPData gid a p) rnd = (udp_call FrameUDPData gid a p, rnd)"
| "first_call (ReqUDPEnd gid) rnd = (plain_call FrameUDPEnd (array_copy 8 gid) [] (-1), rnd)"
| "first_call (ReqProbeReq gid) rnd = (plain_call FrameUDPProbeReq (array_copy 8 gid) [] (-1), rnd)"
| "first_call (ReqProbeResp gid a) rnd = (udp_call FrameUDPProbeResp gid a [], rnd)"
| "first_call (ReqPing c) rnd = (plain_call FramePing [] c (-1), rnd)"
| "first_call (ReqPong c) rnd = (plain_call FramePong [] c (-1), rnd)"
| "first_call (ReqCoverPad n) rnd = (plain_call FramePaddingOnly [] [] n, rnd)"

section \<open>The interleaving\<close>

text \<open>
  Where a goroutine stands: outside of a call; in call \<open>q\<close> about to test the closed flag for
  a frame, with \<open>rest\<close> of the payload to follow; past that test and waiting for the mutex; or
  about to return \<open>res\<close>, the mutex released.
\<close>

datatype pc =
    Idle
  | At_check send_req frame_call bytes
  | At_lock send_req frame_call bytes
  | At_return send_req "ewp_error option"

text \<open>
  The stream, where each goroutine stands, the calls it has finished with their results, and
  the frames that went out, by whom and in order. The last two only record.
\<close>

record 't sys =
  sy_stream :: "'t SecureStream"
  sy_pc :: "nat \<Rightarrow> pc"
  sy_hist :: "nat \<Rightarrow> (send_req \<times> ewp_error option) list"
  sy_log :: "(nat \<times> frame_call) list"

definition start_sys :: "'t SecureStream \<Rightarrow> 't sys" where
  "start_sys s = \<lparr>sy_stream = s, sy_pc = (\<lambda>_. Idle), sy_hist = (\<lambda>_. []), sy_log = []\<rparr>"

definition moves :: "nat \<Rightarrow> pc \<Rightarrow> 't sys \<Rightarrow> 't sys" where
  "moves g p S = S\<lparr>sy_pc := (sy_pc S)(g := p)\<rparr>"

definition returns :: "nat \<Rightarrow> send_req \<Rightarrow> ewp_error option \<Rightarrow> 't sys \<Rightarrow> 't sys" where
  "returns g q res S = moves g Idle (S\<lparr>sy_hist := (sy_hist S)(g := sy_hist S g @ [(q, res)])\<rparr>)"

definition sent :: "nat \<Rightarrow> frame_call \<Rightarrow> 't SecureStream \<Rightarrow> 't sys \<Rightarrow> 't sys" where
  "sent g fc s S = S\<lparr>sy_stream := s, sy_log := sy_log S @ [(g, fc)]\<rparr>"

abbreviation locked_send ::
  "'t transport \<Rightarrow> crypto \<Rightarrow> int \<Rightarrow> 't SecureStream \<Rightarrow> frame_call \<Rightarrow> bytes \<Rightarrow>
   ewp_error option \<times> 't SecureStream \<times> bytes" where
  "locked_send T C now s fc rnd \<equiv>
     sendFrame_locked T C now s (fc_Type fc) (fc_Meta fc) (fc_Payload fc) (fc_padLen fc) rnd"

inductive conc_step :: "'t transport \<Rightarrow> crypto \<Rightarrow> 't sys \<Rightarrow> 't sys \<Rightarrow> bool" for T C where
  call: "sy_pc S g = Idle \<Longrightarrow> wf_req q \<Longrightarrow> first_call q rnd = (Inr (fc, rest), rnd') \<Longrightarrow>
    conc_step T C S (moves g (At_check q fc rest) S)"
| call_err: "sy_pc S g = Idle \<Longrightarrow> wf_req q \<Longrightarrow> first_call q rnd = (Inl e, rnd') \<Longrightarrow>
    conc_step T C S (moves g (At_return q (Some e)) S)"
| check_closed: "sy_pc S g = At_check q fc rest \<Longrightarrow> ss_closed (sy_stream S) \<Longrightarrow>
    conc_step T C S (moves g (At_return q (Some ErrClosedPipe)) S)"
| check_open: "sy_pc S g = At_check q fc rest \<Longrightarrow> \<not> ss_closed (sy_stream S) \<Longrightarrow>
    conc_step T C S (moves g (At_lock q fc rest) S)"
| send_err: "sy_pc S g = At_lock q fc rest \<Longrightarrow> locked_send T C now (sy_stream S) fc rnd = (Some e, s, rnd') \<Longrightarrow>
    conc_step T C S (moves g (At_return q (Some e)) (S\<lparr>sy_stream := s\<rparr>))"
| send_last: "sy_pc S g = At_lock q fc [] \<Longrightarrow> locked_send T C now (sy_stream S) fc rnd = (None, s, rnd') \<Longrightarrow>
    conc_step T C S (moves g (At_return q None) (sent g fc s S))"
| send_more: "sy_pc S g = At_lock q fc rest \<Longrightarrow> locked_send T C now (sy_stream S) fc rnd = (None, s, rnd') \<Longrightarrow>
    rest \<noteq> [] \<Longrightarrow> next_piece rest rnd2 = ((fc', rest'), rnd2') \<Longrightarrow>
    conc_step T C S (moves g (At_check q fc' rest') (sent g fc s S))"
| ret: "sy_pc S g = At_return q res \<Longrightarrow> conc_step T C S (returns g q res S)"
| recv: "Recv T C (sy_stream S) = (res, s) \<Longrightarrow> conc_step T C S (S\<lparr>sy_stream := s\<rparr>)"
| close: "SecureStream_Close T (sy_stream S) = (res, s) \<Longrightarrow> conc_step T C S (S\<lparr>sy_stream := s\<rparr>)"

inductive conc_reach :: "'t transport \<Rightarrow> crypto \<Rightarrow> 't sys \<Rightarrow> 't sys \<Rightarrow> bool" for T C S0 where
  conc_refl: "conc_reach T C S0 S0"
| conc_more: "conc_reach T C S0 S \<Longrightarrow> conc_step T C S S' \<Longrightarrow> conc_reach T C S0 S'"

lemmas sys_simps = moves_def returns_def sent_def

text \<open>The events the peer makes of frames, of all goroutines and of one.\<close>

definition fc_event :: "frame_call \<Rightarrow> ewp_error + Event" where
  "fc_event fc = event_of \<lparr>df_Counter = 0, df_Type = fc_Type fc, df_Meta = fc_Meta fc, df_Payload = fc_Payload fc\<rparr>"

definition log_events :: "(nat \<times> frame_call) list \<Rightarrow> Event list" where
  "log_events L = concat (map (\<lambda>(g, fc). case fc_event fc of Inl _ \<Rightarrow> [] | Inr ev \<Rightarrow> [ev]) L)"

definition events_by :: "nat \<Rightarrow> (nat \<times> frame_call) list \<Rightarrow> Event list" where
  "events_by g L = log_events (filter (\<lambda>x. fst x = g) L)"

lemma events_simps [simp]:
  "log_events [] = []" "events_by g [] = []"
  "log_events (L @ L') = log_events L @ log_events L'"
  "events_by g (L @ L') = events_by g L @ events_by g L'"
  "fc_event fc = Inr ev \<Longrightarrow> log_events [(g, fc)] = [ev]"
  "fc_event fc = Inr ev \<Longrightarrow> events_by g [(h, fc)] = (if h = g then [ev] else [])"
  by (auto simp: log_events_def events_by_def)

lemma fc_event_counter:
  "fc_event fc = Inr ev \<Longrightarrow>
     event_of \<lparr>df_Counter = c, df_Type = fc_Type fc, df_Meta = fc_Meta fc, df_Payload = fc_Payload fc\<rparr> = Inr ev"
  by (simp only: fc_event_def event_of_def DecodedFrame.simps)

lemma data_call_simps [simp]:
  "fc_Type (data_call p) = FrameTCPData" "fc_Meta (data_call p) = []" "fc_Payload (data_call p) = p"
  "fc_padLen (data_call p) = -1" "fc_event (data_call p) = Inr (mk_event FrameTCPData p)"
  by (simp_all add: data_call_def fc_event_def event_of_mk)

section \<open>One call\<close>

text \<open>
  \<open>progress q es fc rest\<close>: of call \<open>q\<close> the events \<open>es\<close> are out, \<open>fc\<close> is its next frame and
  \<open>rest\<close> of its payload follows after that. \<open>partly q es\<close>: \<open>es\<close> is a beginning of what \<open>q\<close> sends.
\<close>

fun progress :: "send_req \<Rightarrow> Event list \<Rightarrow> frame_call \<Rightarrow> bytes \<Rightarrow> bool" where
  "progress (ReqTCPData p) es fc rest \<longleftrightarrow> fc = data_call (fc_Payload fc) \<and>
     es = map (mk_event FrameTCPData) (map ev_Payload es) \<and> concat (map ev_Payload es) @ fc_Payload fc @ rest = p \<and>
     (if length p \<le> reshapeThreshold then es = [] \<and> rest = []
      else (\<forall>ev \<in> set es. 4096 \<le> length (ev_Payload ev) \<and> length (ev_Payload ev) \<le> 12288) \<and>
        fc_Payload fc \<noteq> [] \<and> length (fc_Payload fc) \<le> 12288 \<and> (rest \<noteq> [] \<longrightarrow> 4096 \<le> length (fc_Payload fc)))"
| "progress q es fc rest \<longleftrightarrow> es = [] \<and> rest = [] \<and> (\<exists>ev. fc_event fc = Inr ev \<and> req_delivers q [ev])"

fun partly :: "send_req \<Rightarrow> Event list \<Rightarrow> bool" where
  "partly (ReqTCPData p) es \<longleftrightarrow> es = map (mk_event FrameTCPData) (map ev_Payload es) \<and>
     (\<exists>rest. concat (map ev_Payload es) @ rest = p)"
| "partly _ es \<longleftrightarrow> es = []"

lemma next_piece_facts:
  assumes "next_piece p rnd = ((fc, rest), rnd')" and "p \<noteq> []"
  shows "fc = data_call (fc_Payload fc) \<and> fc_Payload fc @ rest = p \<and> fc_Payload fc \<noteq> [] \<and>
    length (fc_Payload fc) \<le> 12288 \<and> (rest \<noteq> [] \<longrightarrow> 4096 \<le> length (fc_Payload fc))"
  using assms chunk_size_pos [of "length p" rnd] chunk_size_range [of "length p" rnd]
  by (auto simp: next_piece_def split: prod.splits)

lemma udp_call_progress:
  assumes "udp_call t gid a p = Inr (fc, rest)" and "t \<in> {FrameUDPNew, FrameUDPData, FrameUDPProbeResp}"
    and "length gid = 8" and "wf_Address a"
  shows "rest = [] \<and> fc_event fc = Inr (udp_event t gid a p)"
  using assms(1) event_of_udp [OF assms(2-4)]
  by (auto simp: udp_call_def fc_event_def split: sum.splits)

lemma first_call_progress:
  assumes "first_call q rnd = (Inr (fc, rest), rnd')" and "wf_req q"
  shows "progress q [] fc rest"
proof (cases q)
  case (ReqTCPData p)
  show ?thesis
  proof (cases "length p \<le> reshapeThreshold")
    case False
    then have "p \<noteq> []" by auto
    with False assms(1) ReqTCPData next_piece_facts [of p rnd fc rest] show ?thesis
      by (auto split: prod.splits)
  qed (use assms ReqTCPData in auto)
qed (use assms udp_call_progress [of _ _ _ _ fc rest] in
    \<open>auto simp: plain_call_def fc_event_def event_of_mk event_of_gid\<close>)

lemma progress_event:
  assumes "progress q es fc rest"
  obtains ev where "fc_event fc = Inr ev"
proof (cases q)
  case (ReqTCPData p)
  then have "fc_event fc = fc_event (data_call (fc_Payload fc))" using assms by simp
  then show thesis by (intro that) (simp only: data_call_simps)
qed (use assms that in auto)

lemma data_event: "fc = data_call (fc_Payload fc) \<Longrightarrow> fc_event fc = Inr ev \<Longrightarrow> ev = mk_event FrameTCPData (fc_Payload fc)"
  by (metis data_call_simps(5) sum.inject(2))

lemma mk_event_payload [simp]: "ev_Payload (mk_event t p) = p"
  by (simp add: mk_event_def)

lemma progress_done:
  assumes "progress q es fc []" and "fc_event fc = Inr ev"
  shows "req_delivers q (es @ [ev])"
proof (cases q)
  case (ReqTCPData p)
  then have "ev = mk_event FrameTCPData (fc_Payload fc)"
    using assms by (intro data_event) auto
  with assms(1) ReqTCPData show ?thesis
    by (fastforce simp: butlast_append split: if_splits)
qed (use assms in auto)

lemma progress_next:
  assumes "progress q es fc rest" and "rest \<noteq> []" and "fc_event fc = Inr ev"
    and "next_piece rest rnd = ((fc', rest'), rnd')"
  shows "progress q (es @ [ev]) fc' rest'"
proof (cases q)
  case (ReqTCPData p)
  then have "ev = mk_event FrameTCPData (fc_Payload fc)"
    using assms(1,3) by (intro data_event) auto
  with assms(1,2) ReqTCPData next_piece_facts [OF assms(4,2)] show ?thesis
    by (auto split: if_splits)
qed (use assms in auto)

lemma progress_partly: "progress q es fc rest \<Longrightarrow> partly q es"
  by (cases q) auto


section \<open>A call made alone\<close>

lemma conc_trans: "conc_reach T C S1 S2 \<Longrightarrow> conc_reach T C S2 S3 \<Longrightarrow> conc_reach T C S1 S3"
  by (rotate_tac, induction rule: conc_reach.induct) (auto intro: conc_more)

lemma conc_one: "conc_step T C S S' \<Longrightarrow> conc_reach T C S S'"
  by (rule conc_more [OF conc_refl])

lemma moves_simps [simp]:
  "moves g p (moves g p' S) = moves g p S" "moves g p (sent g' fc s (moves g p' S)) = moves g p (sent g' fc s S)"
  "returns g q res (moves g p S) = returns g q res S"
  "returns g q res (sent g' fc s (moves g p S)) = returns g q res (sent g' fc s S)"
  "returns g q res ((moves g p S)\<lparr>sy_stream := s\<rparr>) = returns g q res (S\<lparr>sy_stream := s\<rparr>)"
  "sy_pc (moves g p S) = (sy_pc S)(g := p)" "sy_stream (moves g p S) = sy_stream S"
  "sy_stream (sent g fc s S) = s" "sy_pc (sent g fc s S) = sy_pc S"
  "sy_hist (moves g p S) = sy_hist S" "sy_hist (sent g fc s S) = sy_hist S"
  "sy_log (moves g p S) = sy_log S" "sy_log (sent g fc s S) = sy_log S @ [(g, fc)]"
  "sy_stream (returns g q res S) = sy_stream S" "sy_log (returns g q res S) = sy_log S"
  "sy_pc (returns g q res S) = (sy_pc S)(g := Idle)"
  "sy_hist (returns g q res S) = (sy_hist S)(g := sy_hist S g @ [(q, res)])"
  by (simp_all add: sys_simps)

lemma step_ret: "conc_step T C S (moves g (At_return q res) S') \<Longrightarrow> conc_reach T C S (returns g q res S')"
  using conc_more [OF conc_one ret [of "moves g (At_return q res) S'" g q res]] by simp

lemma reach_ret:
  "conc_reach T C S S1 \<Longrightarrow> conc_step T C S1 (moves g (At_return q res) S') \<Longrightarrow> conc_reach T C S (returns g q res S')"
  by (rule conc_trans [OF _ step_ret])

text \<open>The test of the flag and the part under the mutex, one right after the other, are \<^verbatim>\<open>sendFrame\<close>.\<close>

lemma frame_alone:
  assumes "sendFrame T C now (sy_stream S) (fc_Type fc) (fc_Meta fc) (fc_Payload fc) (fc_padLen fc) rnd = (res, s', rnd')"
    and "sy_pc S g = At_check q fc rest"
  shows "res = Some e \<Longrightarrow> conc_reach T C S (returns g q (Some e) (S\<lparr>sy_stream := s'\<rparr>))"
    and "res = None \<Longrightarrow> rest = [] \<Longrightarrow> conc_reach T C S (returns g q None (sent g fc s' S))"
    and "res = None \<Longrightarrow> rest \<noteq> [] \<Longrightarrow> next_piece rest rnd2 = ((fc', rest'), rnd2') \<Longrightarrow>
      conc_reach T C S (moves g (At_check q fc' rest') (sent g fc s' S))"
proof -
  have o: "\<not> ss_closed (sy_stream S) \<Longrightarrow> conc_reach T C S (moves g (At_lock q fc rest) S)"
    by (rule conc_one [OF check_open [OF assms(2)]])
  have l: "\<not> ss_closed (sy_stream S) \<Longrightarrow> locked_send T C now (sy_stream (moves g (At_lock q fc rest) S)) fc rnd = (res, s', rnd')"
    using assms(1) by (simp add: sendFrame_def)
  show "conc_reach T C S (returns g q (Some e) (S\<lparr>sy_stream := s'\<rparr>))" if "res = Some e"
  proof (cases "ss_closed (sy_stream S)")
    case True
    then have "e = ErrClosedPipe" "s' = sy_stream S" using assms(1) that by (simp_all add: sendFrame_def)
    then show ?thesis using step_ret [OF check_closed [OF assms(2) True]] by simp
  next
    case False
    show ?thesis
      using reach_ret [OF o [OF False] send_err [OF _ l [OF False, unfolded that], of g q rest]] by simp
  qed
  show "conc_reach T C S (returns g q None (sent g fc s' S))" if "res = None" "rest = []"
  proof -
    have "\<not> ss_closed (sy_stream S)" using assms(1) that by (auto simp: sendFrame_def)
    from reach_ret [OF o [OF this, unfolded that(2)] send_last [OF _ l [OF this, unfolded that], of g q]] show ?thesis by simp
  qed
  show "conc_reach T C S (moves g (At_check q fc' rest') (sent g fc s' S))"
    if "res = None" "rest \<noteq> []" "next_piece rest rnd2 = ((fc', rest'), rnd2')"
  proof -
    have "\<not> ss_closed (sy_stream S)" using assms(1) that by (auto simp: sendFrame_def)
    from conc_more [OF o [OF this] send_more [OF _ l [OF this, unfolded that(1)] that(2,3), of g q]] show ?thesis by simp
  qed
qed

text \<open>\<open>finished g q res s L S\<close>: goroutine \<open>g\<close> is back from call \<open>q\<close> and sent the frames \<open>L\<close> in it.\<close>

definition finished ::
  "nat \<Rightarrow> send_req \<Rightarrow> ewp_error option \<Rightarrow> 't SecureStream \<Rightarrow> frame_call list \<Rightarrow> 't sys \<Rightarrow> 't sys" where
  "finished g q res s L S = returns g q res (S\<lparr>sy_stream := s, sy_log := sy_log S @ map (Pair g) L\<rparr>)"

lemma finished_simps:
  "returns g q res (S\<lparr>sy_stream := s\<rparr>) = finished g q res s [] S"
  "returns g q res (sent g fc s S) = finished g q res s [fc] S"
  "finished g q res s L (sent g fc s1 S) = finished g q res s (fc # L) S"
  "finished g q res s L (moves g p S) = finished g q res s L S"
  by (simp_all add: finished_def sys_simps)

lemma chunks_alone:
  assumes "send_chunks T C now i (sy_stream S) p rnd = (res, s', rnd')" and "p \<noteq> []"
    and "sy_pc S g = At_check q fc rest" and "next_piece p rnd = ((fc, rest), snd (chunk_size (length p) rnd))"
  shows "\<exists>L. conc_reach T C S (finished g q res s' L S)"
  using assms
proof (induction "length p" arbitrary: i S p rnd fc rest rule: less_induct)
  case less
  let ?n = "fst (chunk_size (length p) rnd)" and ?r = "snd (chunk_size (length p) rnd)"
  have fc: "fc = data_call (take ?n p)" "rest = drop ?n p"
    using less.prems(4) by (auto simp: next_piece_def split: prod.splits)
  obtain x s1 r1 where f: "sendFrame T C (now i) (sy_stream S) FrameTCPData [] (take ?n p) (-1) ?r = (x, s1, r1)"
    by (metis prod.exhaust)
  then have f': "sendFrame T C (now i) (sy_stream S) (fc_Type fc) (fc_Meta fc) (fc_Payload fc) (fc_padLen fc) ?r = (x, s1, r1)"
    by (simp add: fc)
  note alone = frame_alone [OF f' less.prems(3)]
  note run = less.prems(1) [unfolded send_chunks.simps [of T C now i "sy_stream S" p rnd]]
  show ?case
  proof (cases x)
    case (Some e)
    then have "res = Some e" "s' = s1" using run less.prems(2) f by simp_all
    with alone(1) [OF Some] show ?thesis unfolding finished_simps by blast
  next
    case None
    have more: "send_chunks T C now (Suc i) s1 rest r1 = (res, s', rnd')"
      using run less.prems(2) f None fc by simp
    show ?thesis
    proof (cases "rest = []")
      case True
      then have "res = None" "s' = s1" using more by (simp_all add: send_chunks.simps)
      with alone(2) [OF None True] show ?thesis unfolding finished_simps by blast
    next
      case False
      obtain fc' rest' where n: "next_piece rest r1 = ((fc', rest'), snd (chunk_size (length rest) r1))"
        by (cases "chunk_size (length rest) r1") (simp add: next_piece_def)
      let ?S = "moves g (At_check q fc' rest') (sent g fc s1 S)"
      have l: "length rest < length p"
        using chunk_size_pos [of "length p" rnd] less.prems(2) fc by simp
      obtain L where "conc_reach T C ?S (finished g q res s' L ?S)"
        using less.hyps [OF l, of "Suc i" ?S r1 fc' rest'] more False n by auto
      with conc_trans [OF alone(3) [OF None False n] this] show ?thesis unfolding finished_simps by blast
    qed
  qed
qed

lemma single_alone:
  assumes "first_call q rnd0 = (Inr (fc, []), rnd1)" and "wf_req q" and "sy_pc S g = Idle"
    and "sendFrame T C now (sy_stream S) (fc_Type fc) (fc_Meta fc) (fc_Payload fc) (fc_padLen fc) rnd = (res, s', rnd')"
  shows "\<exists>L. conc_reach T C S (finished g q res s' L S)"
proof -
  have c: "conc_reach T C S (moves g (At_check q fc []) S)"
    by (rule conc_one [OF call [OF assms(3,2,1)]])
  have f: "sendFrame T C now (sy_stream (moves g (At_check q fc []) S)) (fc_Type fc) (fc_Meta fc) (fc_Payload fc)
      (fc_padLen fc) rnd = (res, s', rnd')"
    using assms(4) by simp
  note alone = frame_alone [OF f, of g q "[]", simplified]
  show ?thesis
  proof (cases res)
    case None
    from conc_trans [OF c alone(2) [OF None]] None show ?thesis
      unfolding finished_simps(2) finished_simps(4) by blast
  next
    case (Some e)
    from conc_trans [OF c alone(1) [OF Some]] Some show ?thesis
      unfolding finished_simps by blast
  qed
qed

lemma plain_alone:
  assumes "sendFrame T C now (sy_stream S) t meta p padLen rnd = (res, s', rnd')" and "wf_req q" and "sy_pc S g = Idle"
    and "first_call q rnd = (plain_call t meta p padLen, rnd)"
  shows "\<exists>L. conc_reach T C S (finished g q res s' L S)"
  using assms by (intro single_alone [OF assms(4) [unfolded plain_call_def] assms(2,3)]) simp

lemma meta_alone:
  assumes "send_udp_meta t T C now (sy_stream S) gid a p rnd = (res, s', rnd')" and "wf_req q" and "sy_pc S g = Idle"
    and "first_call q rnd = (udp_call t gid a p, rnd)"
  shows "\<exists>L. conc_reach T C S (finished g q res s' L S)"
proof (cases "buildUDPMeta gid a")
  case (Inl e)
  with assms have "conc_reach T C S (returns g q (Some e) S)" "res = Some e" "s' = sy_stream S"
    by (auto simp: udp_call_def send_udp_meta_def intro!: step_ret call_err)
  then show ?thesis by (intro exI [of _ "[]"]) (simp add: finished_def)
next
  case (Inr meta)
  with assms show ?thesis
    by (intro single_alone [OF _ assms(2,3), of rnd]) (auto simp: udp_call_def send_udp_meta_def)
qed


lemma call_alone:
  assumes "do_send T C now (sy_stream S) q rnd = (res, s', rnd')" and "wf_req q" and "sy_pc S g = Idle"
  shows "\<exists>L. conc_reach T C S (finished g q res s' L S)"
proof (cases q)
  case (ReqTCPData p)
  show ?thesis
  proof (cases "length p \<le> reshapeThreshold")
    case True
    with assms(1) ReqTCPData show ?thesis
      by (intro plain_alone [OF _ assms(2,3)]) (simp_all add: SendTCPData_def plain_call_def data_call_def)
  next
    case False
    then have p: "p \<noteq> []" by auto
    obtain fc rest where n: "next_piece p rnd = ((fc, rest), snd (chunk_size (length p) rnd))"
      by (cases "chunk_size (length p) rnd") (simp add: next_piece_def)
    let ?S = "moves g (At_check q fc rest) S"
    have "conc_step T C S ?S"
      using False n ReqTCPData by (intro call [OF assms(3,2), of rnd]) simp
    moreover have "send_chunks T C now 0 (sy_stream ?S) p rnd = (res, s', rnd')"
      using assms(1) False ReqTCPData by (simp add: SendTCPData_def)
    then obtain L where "conc_reach T C ?S (finished g q res s' L ?S)"
      using chunks_alone [OF _ p _ n, of T C now 0 ?S res s' rnd' g q] by auto
    ultimately show ?thesis
      using conc_trans [OF conc_one] unfolding finished_simps by blast
  qed
next
  case (ReqUDPNew gid a p)
  with assms(1) show ?thesis by (intro meta_alone [OF _ assms(2,3)]) (simp_all add: SendUDPNew_def)
next
  case (ReqUDPData gid a p)
  with assms(1) show ?thesis by (intro meta_alone [OF _ assms(2,3)]) (simp_all add: SendUDPData_def)
next
  case (ReqProbeResp gid a)
  with assms(1) show ?thesis by (intro meta_alone [OF _ assms(2,3)]) (simp_all add: SendProbeResp_def)
next
  case (ReqUDPEnd gid)
  with assms(1) show ?thesis by (intro plain_alone [OF _ assms(2,3)]) (simp_all add: SendUDPEnd_def)
next
  case (ReqProbeReq gid)
  with assms(1) show ?thesis by (intro plain_alone [OF _ assms(2,3)]) (simp_all add: SendProbeReq_def)
next
  case (ReqPing c)
  with assms(1) show ?thesis by (intro plain_alone [OF _ assms(2,3)]) (simp_all add: SendPing_def)
next
  case (ReqPong c)
  with assms(1) show ?thesis by (intro plain_alone [OF _ assms(2,3)]) (simp_all add: SendPong_def)
next
  case (ReqCoverPad n)
  with assms(1) show ?thesis by (intro plain_alone [OF _ assms(2,3)]) (simp_all add: SendCoverPad_def)
qed

section \<open>Any schedule\<close>

text \<open>
  \<open>hist_delivers h evs\<close>: \<open>evs\<close> is what the finished calls \<open>h\<close> of a goroutine sent, in order:
  all of a call that succeeded, a beginning of one that failed.
\<close>

inductive hist_delivers :: "(send_req \<times> ewp_error option) list \<Rightarrow> Event list \<Rightarrow> bool" where
  no_calls: "hist_delivers [] []"
| call_ok: "hist_delivers h evs \<Longrightarrow> req_delivers q es \<Longrightarrow> hist_delivers (h @ [(q, None)]) (evs @ es)"
| call_failed: "hist_delivers h evs \<Longrightarrow> partly q es \<Longrightarrow> hist_delivers (h @ [(q, Some e)]) (evs @ es)"

inductive_simps hist_delivers_Nil [simp]: "hist_delivers [] evs"

text \<open>The same for a goroutine that may be inside a call.\<close>

fun pc_ok :: "(send_req \<times> ewp_error option) list \<Rightarrow> Event list \<Rightarrow> pc \<Rightarrow> bool" where
  "pc_ok h evs Idle \<longleftrightarrow> hist_delivers h evs"
| "pc_ok h evs (At_return q res) \<longleftrightarrow> hist_delivers (h @ [(q, res)]) evs"
| "pc_ok h evs (At_check q fc rest) \<longleftrightarrow>
     (\<exists>evs1 es. evs = evs1 @ es \<and> hist_delivers h evs1 \<and> progress q es fc rest)"
| "pc_ok h evs (At_lock q fc rest) \<longleftrightarrow>
     (\<exists>evs1 es. evs = evs1 @ es \<and> hist_delivers h evs1 \<and> progress q es fc rest)"

definition threads_ok :: "'t sys \<Rightarrow> bool" where
  "threads_ok S \<longleftrightarrow> (\<forall>g. pc_ok (sy_hist S g) (events_by g (sy_log S)) (sy_pc S g))"

lemma partly_Nil: "partly q []"
  by (cases q) auto

lemma threads_pc: "threads_ok S \<Longrightarrow> pc_ok (sy_hist S g) (events_by g (sy_log S)) (sy_pc S g)"
  by (simp add: threads_ok_def)

lemma threads_stream [simp]: "threads_ok (S\<lparr>sy_stream := s\<rparr>) = threads_ok S"
  by (simp add: threads_ok_def)

lemma threads_moves:
  "threads_ok S \<Longrightarrow> pc_ok (sy_hist S g) (events_by g (sy_log S)) p \<Longrightarrow> threads_ok (moves g p S)"
  by (simp add: threads_ok_def)

lemma threads_returns:
  "threads_ok S \<Longrightarrow> hist_delivers (sy_hist S g @ [(q, res)]) (events_by g (sy_log S)) \<Longrightarrow> threads_ok (returns g q res S)"
  by (simp add: threads_ok_def)

lemma threads_sent:
  assumes "threads_ok S" and "fc_event fc = Inr ev"
    and "pc_ok (sy_hist S g) (events_by g (sy_log S) @ [ev]) p"
  shows "threads_ok (moves g p (sent g fc s S))"
  using assms by (simp add: threads_ok_def)

text \<open>A call that fails now has sent a beginning of what it was to send.\<close>

lemma threads_fails:
  assumes "threads_ok S" and "sy_pc S g = At_check q fc rest \<or> sy_pc S g = At_lock q fc rest"
  shows "hist_delivers (sy_hist S g @ [(q, Some e)]) (events_by g (sy_log S))"
proof -
  obtain evs1 es where e: "events_by g (sy_log S) = evs1 @ es" "hist_delivers (sy_hist S g) evs1" "progress q es fc rest"
    using threads_pc [OF assms(1), of g] assms(2) by auto
  show ?thesis unfolding e(1) by (rule call_failed [OF e(2) progress_partly [OF e(3)]])
qed

lemma threads_lock:
  assumes "threads_ok S" and "sy_pc S g = At_lock q fc rest"
  obtains evs1 es ev where "events_by g (sy_log S) = evs1 @ es" "hist_delivers (sy_hist S g) evs1" "progress q es fc rest"
    "fc_event fc = Inr ev"
proof -
  obtain evs1 es where e: "events_by g (sy_log S) = evs1 @ es" "hist_delivers (sy_hist S g) evs1" "progress q es fc rest"
    using threads_pc [OF assms(1), of g] assms(2) by auto
  show thesis by (rule progress_event [OF e(3)]) (rule that [OF e])
qed

lemma threads_step:
  assumes "conc_step T C S S'" and "threads_ok S"
  shows "threads_ok S'"
  using assms(1)
proof (cases rule: conc_step.cases)
  case (call g q rnd fc rest rnd')
  have "progress q [] fc rest" by (rule first_call_progress [OF call(4,3)])
  moreover have "hist_delivers (sy_hist S g) (events_by g (sy_log S))"
    using threads_pc [OF assms(2), of g] call(2) by simp
  ultimately show ?thesis
    unfolding call(1) by (intro threads_moves [OF assms(2)]) auto
next
  case (call_err g q rnd e rnd')
  have "hist_delivers (sy_hist S g) (events_by g (sy_log S))"
    using threads_pc [OF assms(2), of g] call_err(2) by simp
  from call_failed [OF this partly_Nil] show ?thesis
    unfolding call_err(1) by (intro threads_moves [OF assms(2)]) simp
next
  case (check_closed g q fc rest)
  show ?thesis
    unfolding check_closed(1) using threads_fails [OF assms(2) disjI1 [OF check_closed(2)]]
    by (intro threads_moves [OF assms(2)]) simp
next
  case (check_open g q fc rest)
  show ?thesis
    unfolding check_open(1) using threads_pc [OF assms(2), of g] check_open(2)
    by (intro threads_moves [OF assms(2)]) simp
next
  case (send_err g q fc rest now rnd e s rnd')
  have "hist_delivers (sy_hist S g @ [(q, Some e)]) (events_by g (sy_log S))"
    by (rule threads_fails [OF assms(2) disjI2 [OF send_err(2)]])
  then show ?thesis
    unfolding send_err(1) using assms(2) by (intro threads_moves) simp_all
next
  case (send_last g q fc now rnd s rnd')
  obtain evs1 es ev where e: "events_by g (sy_log S) = evs1 @ es" "hist_delivers (sy_hist S g) evs1"
    "progress q es fc []" "fc_event fc = Inr ev" by (rule threads_lock [OF assms(2) send_last(2)])
  show ?thesis
    unfolding send_last(1) using call_ok [OF e(2) progress_done [OF e(3,4)]] e(1)
    by (intro threads_sent [OF assms(2) e(4)]) simp
next
  case (send_more g q fc rest now rnd s rnd' rnd2 fc' rest' rnd2')
  obtain evs1 es ev where e: "events_by g (sy_log S) = evs1 @ es" "hist_delivers (sy_hist S g) evs1"
    "progress q es fc rest" "fc_event fc = Inr ev" by (rule threads_lock [OF assms(2) send_more(2)])
  have "pc_ok (sy_hist S g) (events_by g (sy_log S) @ [ev]) (At_check q fc' rest')"
    using e(1,2) progress_next [OF e(3) send_more(4) e(4) send_more(5)] by auto
  then show ?thesis
    unfolding send_more(1) by (rule threads_sent [OF assms(2) e(4)])
next
  case (ret g q res)
  show ?thesis
    unfolding ret(1) using threads_pc [OF assms(2), of g] ret(2)
    by (intro threads_returns [OF assms(2)]) simp
qed (use assms(2) in simp_all)

lemma threads_reach: "conc_reach T C S S' \<Longrightarrow> threads_ok S \<Longrightarrow> threads_ok S'"
  by (induction rule: conc_reach.induct) (auto intro: threads_step)

lemma threads_start: "threads_ok (start_sys s)"
  by (simp add: threads_ok_def start_sys_def)

lemma start_sys_simps [simp]:
  "sy_stream (start_sys s) = s" "sy_pc (start_sys s) g = Idle" "sy_hist (start_sys s) g = []" "sy_log (start_sys s) = []"
  by (simp_all add: start_sys_def)

text \<open>The call a goroutine is about to return from without an error.\<close>

fun done_call :: "pc \<Rightarrow> (send_req \<times> ewp_error option) list" where
  "done_call (At_return q None) = [(q, None)]"
| "done_call _ = []"

lemma done_call_cases: "done_call p = [] \<or> (\<exists>q. p = At_return q None \<and> done_call p = [(q, None)])"
  by (cases p rule: done_call.cases) auto

text \<open>
  \<open>wire_ok s0 S\<close>: what the transport got since \<open>s0\<close> are the frames of the log, each sealed in
  the cipher state its predecessor left; only behind a closed stream may the pieces of a message
  follow whose sending failed.
\<close>

context message_transport
begin

definition wire_ok :: "crypto \<Rightarrow> 't SecureStream \<Rightarrow> 't sys \<Rightarrow> bool" where
  "wire_ok C s0 S \<longleftrightarrow> stream_inv shut (sy_stream S) \<and>
     (\<exists>ss f w. frames_sent C (ss_send s0) ss f \<and> list_all okm (map sf_wire ss) \<and>
        map event_of (map sf_frame ss) = map Inr (log_events (sy_log S)) \<and>
        outp (ss_tr (sy_stream S)) = outp (ss_tr s0) @ concat (map enc (map sf_wire ss)) @ w \<and>
        (\<not> ss_closed (sy_stream S) \<longrightarrow> w = [] \<and> ss_send (sy_stream S) = f))"

text \<open>A goroutine past the test of a stream that was closed meanwhile: its frame is not sent.\<close>

lemma locked_closed:
  assumes "stream_inv shut s" and "ss_closed s" and "sendFrame_locked T C now s t meta p padLen rnd = (res, s', rnd')"
  shows "res \<noteq> None \<and> stream_inv shut s' \<and> ss_closed s' \<and> (\<exists>w. outp (ss_tr s') = outp (ss_tr s) @ w)"
proof -
  have sh: "shut (ss_tr s)" and once: "ss_closeOnce s" using assms(1,2) by (simp_all add: stream_inv_def)
  have no: "tr_SendMessage T (ss_tr s) m \<noteq> (None, tr)" for m tr using send_ok sh by blast
  have cu: "closeUnderlying T (s\<lparr>ss_send := f, ss_tr := tr\<rparr>) = s\<lparr>ss_send := f, ss_tr := tr\<rparr>" for f tr
    using once by (simp add: closeUnderlying_def SecureStream_Close_def)
  have inv: "stream_inv shut (s\<lparr>ss_send := f, ss_tr := tr\<rparr>)" if "shut tr" for f tr
    using assms(1,2) that by (simp add: stream_inv_def)
  have e: "stream_inv shut (s\<lparr>ss_send := f\<rparr>)" for f
    using assms(1,2) by (simp add: stream_inv_def)
  show ?thesis
    using assms(2,3) no cu e inv sh send_err [of "ss_tr s"]
    by (auto simp: sendFrame_locked_def Let_def split: prod.splits option.splits if_splits)
qed


lemma wire_same [simp]:
  "wire_ok C s0 (moves g p S) = wire_ok C s0 S" "wire_ok C s0 (returns g q res S) = wire_ok C s0 S"
  by (simp_all add: wire_ok_def)

lemma wire_keeps:
  assumes "wire_ok C s0 S" and "stream_inv shut s'" and "outp (ss_tr s') = outp (ss_tr (sy_stream S)) @ w"
    and "\<not> ss_closed s' \<Longrightarrow> \<not> ss_closed (sy_stream S) \<and> w = [] \<and> ss_send s' = ss_send (sy_stream S)"
  shows "wire_ok C s0 (S\<lparr>sy_stream := s'\<rparr>)"
proof -
  obtain ss f v where "frames_sent C (ss_send s0) ss f" "list_all okm (map sf_wire ss)"
    "map event_of (map sf_frame ss) = map Inr (log_events (sy_log S))"
    "outp (ss_tr (sy_stream S)) = outp (ss_tr s0) @ concat (map enc (map sf_wire ss)) @ v"
    "\<not> ss_closed (sy_stream S) \<longrightarrow> v = [] \<and> ss_send (sy_stream S) = f"
    using assms(1) unfolding wire_ok_def by blast
  then show ?thesis
    unfolding wire_ok_def using assms(2-4)
    by (intro conjI exI [of _ ss] exI [of _ f] exI [of _ "v @ w"]) auto
qed

lemma wire_sent:
  assumes "wire_ok C s0 S" and "\<not> ss_closed (sy_stream S)" and "sent_run C (sy_stream S) [ev] s'"
    and "stream_inv shut s'" and "fc_event fc = Inr ev"
  shows "wire_ok C s0 (sent g fc s' S)"
proof -
  obtain ss where a: "frames_sent C (ss_send s0) ss (ss_send (sy_stream S))" "list_all okm (map sf_wire ss)"
    "map event_of (map sf_frame ss) = map Inr (log_events (sy_log S))"
    "outp (ss_tr (sy_stream S)) = outp (ss_tr s0) @ concat (map enc (map sf_wire ss))"
    using assms(1,2) unfolding wire_ok_def by auto
  obtain ss1 where b: "frames_sent C (ss_send (sy_stream S)) ss1 (ss_send s')" "list_all okm (map sf_wire ss1)"
    "map event_of (map sf_frame ss1) = map Inr [ev]"
    "outp (ss_tr s') = outp (ss_tr (sy_stream S)) @ concat (map enc (map sf_wire ss1))"
    using assms(3) unfolding sent_run_def sends_events_def by blast
  show ?thesis
    unfolding wire_ok_def using frames_sent_append [OF a(1) b(1)] a(2-4) b(2-4) assms(4,5)
    by (intro conjI exI [of _ "ss @ ss1"] exI [of _ "ss_send s'"] exI [of _ "[]"]) simp_all
qed

lemma close_out: "SecureStream_Close T s = (res, s') \<Longrightarrow> outp (ss_tr s') = outp (ss_tr s)"
  using close_shuts [of "ss_tr s"]
  by (auto simp: SecureStream_Close_def Let_def split: if_splits prod.splits option.splits)

lemma closeUnderlying_out: "outp (ss_tr (closeUnderlying T s)) = outp (ss_tr s)"
  by (cases "SecureStream_Close T s") (simp add: closeUnderlying_def close_out)

lemma closeUnderlying_send: "ss_send (closeUnderlying T s) = ss_send s"
  by (auto simp: closeUnderlying_def SecureStream_Close_def Let_def split: prod.splits option.splits)

lemma recv_out:
  assumes "Recv T C s = (res, s')"
  shows "outp (ss_tr s') = outp (ss_tr s) \<and> ss_send s' = ss_send s"
proof (cases res)
  case (Inl e)
  with assms read_sound [of "ss_tr s"] read_err [of "ss_tr s"] show ?thesis
    by (auto simp: Recv_def Let_def closeUnderlying_out closeUnderlying_send split: if_splits prod.splits sum.splits)
next
  case (Inr ev)
  show ?thesis
    using assms unfolding Inr by (rule Recv_Inr) (auto dest: read_sound)
qed

lemma locked_err:
  assumes "stream_inv shut s" and "sendFrame_locked T C now s t meta p padLen rnd = (Some e, s', rnd')"
  shows "\<exists>w. stream_inv shut s' \<and> outp (ss_tr s') = outp (ss_tr s) @ w \<and>
    (\<not> ss_closed s' \<longrightarrow> \<not> ss_closed s \<and> w = [] \<and> ss_send s' = ss_send s)"
proof (cases "ss_closed s")
  case True
  from locked_closed [OF assms(1) this assms(2)] show ?thesis by blast
next
  case False
  then have f: "sendFrame T C now s t meta p padLen rnd = (Some e, s', rnd')"
    using assms(2) by (simp add: sendFrame_def)
  show ?thesis
    using f
  proof (cases rule: sendFrame_Some)
    case (transport wire x tr)
    obtain w where "outp tr = outp (ss_tr s) @ w" using send_err [OF transport(3)] by blast
    moreover have "ss_closed s'"
      using transport(4) assms(1) False by (simp add: Close_closed stream_inv_def)
    ultimately show ?thesis
      using transport(4) sendFrame_inv [OF assms(1) f] by (simp add: closeUnderlying_out)
  qed (use assms(1) False in \<open>auto intro: exI [of _ "[]"]\<close>)
qed

lemma locked_ok:
  assumes "stream_inv shut s" and "locked_send T C now s fc rnd = (None, s', rnd')" and "fc_event fc = Inr ev"
  shows "\<not> ss_closed s \<and> sent_run C s [ev] s' \<and> stream_inv shut s'"
proof -
  have o: "\<not> ss_closed s" using locked_closed [OF assms(1) _ assms(2)] by blast
  then have f: "sendFrame T C now s (fc_Type fc) (fc_Meta fc) (fc_Payload fc) (fc_padLen fc) rnd = (None, s', rnd')"
    using assms(2) by (simp add: sendFrame_def)
  show ?thesis
    using o sendFrame_run [OF f fc_event_counter [OF assms(3)]] sendFrame_inv [OF assms(1) f] by blast
qed

lemma wire_step:
  assumes "conc_step T C S S'" and "threads_ok S" and "wire_ok C s0 S"
  shows "wire_ok C s0 S'"
proof -
  have inv: "stream_inv shut (sy_stream S)" using assms(3) by (simp add: wire_ok_def)
  show ?thesis
    using assms(1)
  proof (cases rule: conc_step.cases)
    case (send_err g q fc rest now rnd e s rnd')
    obtain w where "stream_inv shut s" "outp (ss_tr s) = outp (ss_tr (sy_stream S)) @ w"
      "\<not> ss_closed s \<longrightarrow> \<not> ss_closed (sy_stream S) \<and> w = [] \<and> ss_send s = ss_send (sy_stream S)"
      using locked_err [OF inv send_err(3)] by blast
    then have "wire_ok C s0 (S\<lparr>sy_stream := s\<rparr>)"
      by (intro wire_keeps [OF assms(3), of s w]) auto
    then show ?thesis
      unfolding send_err(1) by simp
  next
    case (send_last g q fc now rnd s rnd')
    obtain ev where ev: "fc_event fc = Inr ev" by (rule threads_lock [OF assms(2) send_last(2)])
    note ok = locked_ok [OF inv send_last(3) ev]
    have "wire_ok C s0 (sent g fc s S)"
      using ok by (intro wire_sent [OF assms(3) _ _ _ ev]) auto
    then show ?thesis
      unfolding send_last(1) by simp
  next
    case (send_more g q fc rest now rnd s rnd' rnd2 fc' rest' rnd2')
    obtain ev where ev: "fc_event fc = Inr ev" by (rule threads_lock [OF assms(2) send_more(2)])
    note ok = locked_ok [OF inv send_more(3) ev]
    have "wire_ok C s0 (sent g fc s S)"
      using ok by (intro wire_sent [OF assms(3) _ _ _ ev]) auto
    then show ?thesis
      unfolding send_more(1) by simp
  next
    case (recv res s)
    have "\<not> ss_closed s \<Longrightarrow> \<not> ss_closed (sy_stream S)"
      using recv(2) by (cases "ss_closed (sy_stream S)") (auto simp: Recv_def)
    with recv_out [OF recv(2)] Recv_inv [OF inv recv(2)] show ?thesis
      unfolding recv(1) by (intro wire_keeps [OF assms(3), of _ "[]"]) auto
  next
    case (close res s)
    have "stream_inv shut s \<and> ss_closed s"
      using Close_inv [of "sy_stream S"] inv close(2) by (auto simp: stream_inv_def)
    with close_out [OF close(2)] show ?thesis
      unfolding close(1) by (intro wire_keeps [OF assms(3), of _ "[]"]) auto
  qed (use assms(3) in simp_all)
qed

lemma wire_start: "stream_inv shut s \<Longrightarrow> wire_ok C s (start_sys s)"
  by (auto simp: wire_ok_def intro!: exI [of _ "[]"] exI [of _ "ss_send s"] frames_sent.none)

lemma conc_inv:
  assumes "conc_reach T C (start_sys s) S" and "stream_inv shut s"
  shows "threads_ok S \<and> wire_ok C s S"
  using assms(1) by (induction rule: conc_reach.induct)
    (auto simp: threads_start wire_start [OF assms(2)] intro: threads_step wire_step)

text \<open>A peer in the matching cipher state receives the log.\<close>

lemma conc_delivers:
  assumes "wire_ok C s S" and "aead_ok C" and "wf_fa (ss_send s)" and "ss_recv r = ss_send s" and "\<not> ss_closed r"
    and "opn (ss_tr r)" and "outp (ss_tr (sy_stream S)) = outp (ss_tr s) @ w" and "inp (ss_tr r) = w"
  shows "\<exists>r'. recv_all T C (length (log_events (sy_log S))) r = (Inr (log_events (sy_log S)), r')"
proof -
  obtain ss f v where s: "frames_sent C (ss_send s) ss f" "list_all okm (map sf_wire ss)"
    "map event_of (map sf_frame ss) = map Inr (log_events (sy_log S))"
    "outp (ss_tr (sy_stream S)) = outp (ss_tr s) @ concat (map enc (map sf_wire ss)) @ v"
    using assms(1) unfolding wire_ok_def by blast
  have "inp (ss_tr r) = concat (map enc (map sf_wire ss)) @ v" using s(4) assms(7,8) by simp
  from recv_all_run [OF s(1) assms(2,3) s(3) assms(4-6) s(2) this] show ?thesis by blast
qed

text \<open>
  Behind a closed stream the only calls still to return without an error are those whose
  result was there already.
\<close>

lemma closed_step:
  assumes "conc_step T C S S'" and "stream_inv shut (sy_stream S)" and "ss_closed (sy_stream S)"
  shows "stream_inv shut (sy_stream S') \<and> ss_closed (sy_stream S') \<and> sy_log S' = sy_log S \<and>
    (\<forall>g. \<exists>h. sy_hist S' g @ done_call (sy_pc S' g) = sy_hist S g @ done_call (sy_pc S g) @ h \<and>
       list_all (\<lambda>(q, res). res \<noteq> None) h)"
  using assms(1)
proof (cases rule: conc_step.cases)
  case (send_err g q fc rest now rnd e s rnd')
  with locked_closed [OF assms(2,3) send_err(3)] show ?thesis by auto
next
  case (send_last g q fc now rnd s rnd')
  with locked_closed [OF assms(2,3) send_last(3)] show ?thesis by auto
next
  case (send_more g q fc rest now rnd s rnd' rnd2 fc' rest' rnd2')
  with locked_closed [OF assms(2,3) send_more(3)] show ?thesis by auto
next
  case (ret g q res)
  with assms(2,3) show ?thesis by (cases res) auto
next
  case (recv res s)
  with assms(2,3) show ?thesis by (auto simp: Recv_def)
next
  case (close res s)
  with assms(2,3) show ?thesis by (auto simp: SecureStream_Close_def stream_inv_def)
qed (use assms(2,3) in auto)

lemma closed_reach:
  assumes "conc_reach T C S S'" and "stream_inv shut (sy_stream S)" and "ss_closed (sy_stream S)"
  shows "stream_inv shut (sy_stream S') \<and> ss_closed (sy_stream S') \<and> sy_log S' = sy_log S \<and>
    (\<forall>g. \<exists>h. sy_hist S' g @ done_call (sy_pc S' g) = sy_hist S g @ done_call (sy_pc S g) @ h \<and>
       list_all (\<lambda>(q, res). res \<noteq> None) h)"
  using assms
proof (induction rule: conc_reach.induct)
  case (conc_more S1 S2)
  then have IH: "stream_inv shut (sy_stream S1)" "ss_closed (sy_stream S1)" "sy_log S1 = sy_log S"
    "\<And>g. \<exists>h. sy_hist S1 g @ done_call (sy_pc S1 g) = sy_hist S g @ done_call (sy_pc S g) @ h \<and>
       list_all (\<lambda>(q, res). res \<noteq> None) h" by blast+
  note st = closed_step [OF conc_more.hyps(2) IH(1,2)]
  have "\<exists>h. sy_hist S2 g @ done_call (sy_pc S2 g) = sy_hist S g @ done_call (sy_pc S g) @ h \<and>
       list_all (\<lambda>(q, res). res \<noteq> None) h" for g
  proof -
    obtain h where h: "sy_hist S1 g @ done_call (sy_pc S1 g) = sy_hist S g @ done_call (sy_pc S g) @ h"
      "list_all (\<lambda>(q, res). res \<noteq> None) h" using IH(4) by blast
    obtain h' where h': "sy_hist S2 g @ done_call (sy_pc S2 g) = sy_hist S1 g @ done_call (sy_pc S1 g) @ h'"
      "list_all (\<lambda>(q, res). res \<noteq> None) h'" using st by blast
    have "sy_hist S2 g @ done_call (sy_pc S2 g) = sy_hist S g @ done_call (sy_pc S g) @ h @ h'"
      using h(1) h'(1) by (metis append.assoc)
    with h(2) h'(2) show ?thesis by (intro exI [of _ "h @ h'"]) simp
  qed
  with st IH(3) show ?case by simp
qed (auto intro: exI [of _ "[]"])

end

lemma hist_grows: "conc_reach T C S S' \<Longrightarrow> \<exists>h. sy_hist S' g = sy_hist S g @ h"
proof (induction rule: conc_reach.induct)
  case (conc_more S1 S2)
  then obtain h where "sy_hist S1 g = sy_hist S g @ h" by blast
  moreover have "\<exists>h. sy_hist S2 g = sy_hist S1 g @ h"
    using conc_more.hyps(2) by (cases rule: conc_step.cases) auto
  ultimately show ?case by auto
qed simp

lemma returned_after:
  assumes "h1 @ done_call p1 = h0 @ done_call p0 @ h" and "list_all (\<lambda>(q, res). res \<noteq> None) h"
    and "\<exists>h'. h1 = h0 @ h'"
  shows "\<exists>before after. h1 = h0 @ before @ after \<and> list_all (\<lambda>(q, res). res \<noteq> None) after \<and>
    (before = [] \<or> (\<exists>q. p0 = At_return q None \<and> before = [(q, None)]))"
proof (cases "done_call p1")
  case Nil
  then show ?thesis
    using assms done_call_cases [of p0] by (intro exI [of _ "done_call p0"] exI [of _ h]) auto
next
  case (Cons x xs)
  then obtain q where d: "done_call p1 = [(q, None)]" using done_call_cases [of p1] by auto
  have "h = []"
    using assms(1) assms(2) d by (cases h rule: rev_cases) auto
  then have "h1 = h0"
    using assms(1,3) d done_call_cases [of p0] by auto
  then show ?thesis by (intro exI [of _ "[]"]) simp
qed

section \<open>On LengthFramer\<close>

lemma lf_locked_closed_out:
  assumes "stream_inv lf_shut s" and "ss_closed s" and "sendFrame_locked lf_transport C now s t meta p padLen rnd = (res, s', rnd')"
  shows "ss_tr s' = ss_tr s"
proof -
  have "nc_closed (lf_c (ss_tr s))" "ss_closeOnce s" using assms(1,2) by (simp_all add: stream_inv_def lf_shut_def)
  then have "snd (LengthFramer_SendMessage (ss_tr s) m) = ss_tr s" "fst (LengthFramer_SendMessage (ss_tr s) m) \<noteq> None"
    "closeUnderlying lf_transport (s\<lparr>ss_send := f, ss_tr := tr\<rparr>) = s\<lparr>ss_send := f, ss_tr := tr\<rparr>" for m f tr
    by (simp_all add: LengthFramer_SendMessage_def conn_Write_def Let_def closeUnderlying_def SecureStream_Close_def)
  then show ?thesis
    using assms(3) by (auto simp: sendFrame_locked_def lf_transport_def Let_def split: prod.splits option.splits)
      (metis fst_conv snd_conv)+
qed

lemma lf_closed_tr:
  assumes "conc_reach lf_transport C S S'" and "stream_inv lf_shut (sy_stream S)" and "ss_closed (sy_stream S)"
  shows "ss_tr (sy_stream S') = ss_tr (sy_stream S)"
  using assms
proof (induction rule: conc_reach.induct)
  case (conc_more S1 S2)
  then have i: "stream_inv lf_shut (sy_stream S1)" "ss_closed (sy_stream S1)"
    using lf.closed_reach [OF conc_more.hyps(1)] by auto
  have "ss_tr (sy_stream S2) = ss_tr (sy_stream S1)"
    using conc_more.hyps(2)
  proof (cases rule: conc_step.cases)
    case (recv res s)
    with i show ?thesis by (auto simp: Recv_def)
  next
    case (close res s)
    with i show ?thesis by (auto simp: SecureStream_Close_def stream_inv_def)
  qed (use lf_locked_closed_out [OF i] in auto)
  with conc_more show ?case by simp
qed simp

text \<open>A second goroutine gets in between two pieces of a large payload.\<close>

lemma hist_delivers_one: "hist_delivers [(q, None)] evs \<Longrightarrow> req_delivers q evs"
  by (erule hist_delivers.cases) auto

lemma log_events_pair: "events_by g (map (Pair g) L) = log_events (map (Pair g) L)"
  by (simp add: events_by_def filter_map comp_def)

lemma finished_rest:
  assumes "threads_ok (finished g q None s L S)" and "sy_hist S g = []"
  shows "req_delivers q (events_by g (sy_log S) @ log_events (map (Pair g) L))"
  using threads_pc [OF assms(1), of g] assms(2)
  by (auto simp: finished_def log_events_pair dest: hist_delivers_one)


lemma data_frame_lf:
  assumes "aead_ok C" and "wf_fa (ss_send s)" and "\<not> ss_closed s" and "lf_open (ss_tr s)"
    and "65536 \<le> nc_room (lf_c (ss_tr s))" and "length p \<le> 12288"
  shows "\<exists>s' rnd rnd'. sendFrame lf_transport C 0 s FrameTCPData [] p (-1) rnd = (None, s', rnd') \<and> wf_fa (ss_send s') \<and>
    \<not> ss_closed s' \<and> lf_open (ss_tr s') \<and> nc_room (lf_c (ss_tr s)) \<le> nc_room (lf_c (ss_tr s')) + 65536"
  using sendFrame_lf [OF assms(1-3), of FrameTCPData "[]" p "replicate 4100 0" 0] assms(4-6)
  by (fastforce simp: FrameType_Valid_def)

lemma small_call_between:
  assumes "sy_pc S g = Idle" and "length q \<le> 8192"
    and "sendFrame lf_transport C now (sy_stream S) FrameTCPData [] q (-1) rnd = (None, s', rnd')"
  shows "conc_reach lf_transport C S (returns g (ReqTCPData q) None (sent g (data_call q) s' S))"
proof -
  let ?S = "moves g (At_check (ReqTCPData q) (data_call q) []) S"
  have "conc_step lf_transport C S ?S"
    by (rule call [OF assms(1), of _ rnd]) (use assms(2) in \<open>simp_all add: ewp_consts\<close>)
  moreover have "conc_reach lf_transport C ?S (returns g (ReqTCPData q) None (sent g (data_call q) s' ?S))"
    by (rule frame_alone(2) [of _ _ now _ _ rnd _ _ rnd']) (use assms(3) in simp_all)
  ultimately show ?thesis
    using conc_trans [OF conc_one] by simp
qed

lemma first_piece_out:
  assumes "sy_pc S g = Idle" and "12288 < length p"
    and "sendFrame lf_transport C now (sy_stream S) FrameTCPData [] (fc_Payload fc) (-1) rnd = (None, s', rnd')"
    and "next_piece p rnd1 = ((fc, rest), rnd1')" and "next_piece rest rnd2 = ((fc', rest'), rnd2')"
  shows "conc_reach lf_transport C S (moves g (At_check (ReqTCPData p) fc' rest') (sent g fc s' S)) \<and>
    fc_Payload fc @ rest = p \<and> fc_Payload fc \<noteq> [] \<and> rest \<noteq> []"
proof -
  let ?S = "moves g (At_check (ReqTCPData p) fc rest) S"
  have p: "p \<noteq> []" using assms(2) by auto
  note f = next_piece_facts [OF assms(4) p]
  have r: "rest \<noteq> []" using f assms(2) by auto
  have "conc_step lf_transport C S ?S"
    by (rule call [OF assms(1), of _ rnd1 _ _ rnd1']) (use assms(2,4) in \<open>simp_all add: ewp_consts\<close>)
  moreover have "conc_reach lf_transport C ?S (moves g (At_check (ReqTCPData p) fc' rest') (sent g fc s' ?S))"
  proof (rule frame_alone(3) [OF _ _ refl r assms(5)])
    show "sendFrame lf_transport C now (sy_stream ?S) (fc_Type fc) (fc_Meta fc) (fc_Payload fc) (fc_padLen fc) rnd = (None, s', rnd')"
      using assms(3) conjunct1 [OF f] by (metis data_call_simps(1,2,4) moves_simps(7))
  qed simp
  ultimately show ?thesis
    using conc_trans [OF conc_one] f r by simp
qed

text \<open>The frames of such a schedule: the first piece, the other call, the remaining pieces.\<close>

lemma mixed_log:
  assumes "threads_ok (finished 0 (ReqTCPData p) None s L S)" and "sy_hist S 0 = []"
    and "sy_log S = [(0, fc), (1, data_call q)]" and "fc = data_call (fc_Payload fc)" and "fc_Payload fc @ rest = p"
  shows "concat (map ev_Payload (log_events (sy_log (finished 0 (ReqTCPData p) None s L S)))) = fc_Payload fc @ q @ rest"
proof -
  have ev: "fc_event fc = Inr (mk_event FrameTCPData (fc_Payload fc))"
    using assms(4) by (metis data_call_simps(5))
  have "events_by 0 (sy_log S) = [mk_event FrameTCPData (fc_Payload fc)]"
    unfolding assms(3) using ev by (simp add: events_by_def log_events_def)
  with finished_rest [OF assms(1,2)] have "fc_Payload fc @ concat (map ev_Payload (log_events (map (Pair 0) L))) = p"
    by simp
  with assms(5) have l: "concat (map ev_Payload (log_events (map (Pair 0) L))) = rest" by (metis same_append_eq)
  have "log_events (sy_log S) = [mk_event FrameTCPData (fc_Payload fc), mk_event FrameTCPData q]"
    unfolding assms(3) using ev by (simp add: log_events_def)
  with l show ?thesis by (simp add: finished_def)
qed

lemma pieces_in_between:
  assumes "aead_ok C" and "wf_fa (ss_send s)" and "\<not> ss_closed s" and "lf_open (ss_tr s)"
    and "65536 * (max_pieces (length p) + 2) \<le> nc_room (lf_c (ss_tr s))" and "12288 < length p" and "length q \<le> 8192"
  shows "\<exists>S p1 p2. conc_reach lf_transport C (start_sys s) S \<and> sy_hist S 0 = [(ReqTCPData p, None)] \<and>
    sy_hist S 1 = [(ReqTCPData q, None)] \<and> p1 @ p2 = p \<and> p1 \<noteq> [] \<and> p2 \<noteq> [] \<and>
    concat (map ev_Payload (log_events (sy_log S))) = p1 @ q @ p2"
proof -
  let ?rnd = "replicate (4104 * max_pieces (length p)) 0"
  obtain fc rest r1 where n1: "next_piece p [] = ((fc, rest), r1)" by (metis prod.exhaust)
  obtain fc' rest' where n2: "next_piece rest ?rnd = ((fc', rest'), snd (chunk_size (length rest) ?rnd))"
    by (cases "chunk_size (length rest) ?rnd") (simp add: next_piece_def)
  have "p \<noteq> []" using assms(6) by auto
  note fc = next_piece_facts [OF n1 this]
  obtain s1 w1 w1' where a: "sendFrame lf_transport C 0 s FrameTCPData [] (fc_Payload fc) (-1) w1 = (None, s1, w1')"
    "wf_fa (ss_send s1)" "\<not> ss_closed s1" "lf_open (ss_tr s1)" "nc_room (lf_c (ss_tr s)) \<le> nc_room (lf_c (ss_tr s1)) + 65536"
    using data_frame_lf [OF assms(1-4), of "fc_Payload fc"] assms(5) fc by auto
  obtain s2 w2 w2' where b: "sendFrame lf_transport C 0 s1 FrameTCPData [] q (-1) w2 = (None, s2, w2')"
    "wf_fa (ss_send s2)" "\<not> ss_closed s2" "lf_open (ss_tr s2)" "nc_room (lf_c (ss_tr s1)) \<le> nc_room (lf_c (ss_tr s2)) + 65536"
    using data_frame_lf [OF assms(1) a(2-4), of q] assms(5,7) a(5) by auto
  have "max_pieces (length rest) \<le> max_pieces (length p)"
    using fc by (auto simp: max_pieces_def intro!: div_le_mono)
  then obtain s3 w3 where c: "send_chunks lf_transport C (\<lambda>_. 0) 0 s2 rest ?rnd = (None, s3, w3)"
    using send_chunks_lf [OF assms(1) b(2-4), of rest ?rnd "\<lambda>_. 0" 0] assms(5) a(5) b(5) by auto
  let ?P = "ReqTCPData p" and ?S0 = "start_sys s"
  let ?S1 = "moves 0 (At_check ?P fc' rest') (sent 0 fc s1 ?S0)"
  let ?S2 = "returns 1 (ReqTCPData q) None (sent 1 (data_call q) s2 ?S1)"
  have r1: "conc_reach lf_transport C ?S0 ?S1" and rest: "fc_Payload fc @ rest = p" "fc_Payload fc \<noteq> []" "rest \<noteq> []"
    using first_piece_out [OF _ assms(6) _ n1 n2, of ?S0 0 C 0 w1 s1 w1'] a(1) by simp_all
  have r2: "conc_reach lf_transport C ?S1 ?S2"
    by (rule small_call_between [OF _ assms(7), of _ _ _ 0 w2 _ w2']) (use b(1) in simp_all)
  obtain L where r3: "conc_reach lf_transport C ?S2 (finished 0 ?P None s3 L ?S2)"
    using chunks_alone [OF _ rest(3) _ n2, of lf_transport C "\<lambda>_. 0" 0 ?S2 None s3 w3 0 ?P] c by auto
  let ?S3 = "finished 0 ?P None s3 L ?S2"
  have reach: "conc_reach lf_transport C ?S0 ?S3" by (rule conc_trans [OF conc_trans [OF r1 r2] r3])
  have "concat (map ev_Payload (log_events (sy_log ?S3))) = fc_Payload fc @ q @ rest"
    by (rule mixed_log [OF threads_reach [OF reach threads_start] _ _ conjunct1 [OF fc] rest(1)]) simp_all
  moreover have "sy_hist ?S3 0 = [(?P, None)]" "sy_hist ?S3 1 = [(ReqTCPData q, None)]"
    by (simp_all add: finished_def)
  ultimately show ?thesis using reach rest by blast
qed

section \<open>Properties\<close>

text \<open>
  A sending call made while no other goroutine is active is a schedule of the interleaving: same
  result, same stream afterwards.
\<close>
theorem sequential_call_is_schedule:
  assumes "do_send T C now s q rnd = (res, s', rnd')" and "wf_req q"
  shows "\<exists>S. conc_reach T C (start_sys s) S \<and> sy_stream S = s' \<and> sy_hist S g = [(q, res)]"
proof -
  obtain L where "conc_reach T C (start_sys s) (finished g q res s' L (start_sys s))"
    using call_alone [OF _ assms(2), of T C now "start_sys s" rnd res s' rnd' g] assms(1) by auto
  moreover have "sy_stream (finished g q res s' L (start_sys s)) = s'" "sy_hist (finished g q res s' L (start_sys s)) g = [(q, res)]"
    by (simp_all add: finished_def)
  ultimately show ?thesis by blast
qed

text \<open>
  C8: Any number of goroutines may send on one stream. However their calls interleave, also with \<^verbatim>\<open>Recv\<close>
  and \<^verbatim>\<open>Close\<close> on the same stream, a peer in the matching cipher state that reads what was written receives
  the frames in the order in which they took the mutex, every one intact. And of every goroutine outside of a
  call these are, in the goroutine's own order, all that each of its successful calls asked for and a
  beginning of what each failed call asked for.
\<close>
theorem concurrent_sends_delivered:
  assumes "aead_ok C" and "wf_keys keys" and "NewClientSecureStream tr keys = Inr s \<or> NewServerSecureStream tr keys = Inr s"
    and "conc_reach lf_transport C (start_sys s) S"
    and "ss_recv r = ss_send s" and "\<not> ss_closed r" and "conn_ready (lf_c (ss_tr r))"
    and "nc_out (lf_c (ss_tr (sy_stream S))) = nc_out (lf_c tr) @ nc_in (lf_c (ss_tr r))"
  shows "(\<exists>r'. recv_all lf_transport C (length (log_events (sy_log S))) r = (Inr (log_events (sy_log S)), r')) \<and>
    (\<forall>g. sy_pc S g = Idle \<longrightarrow> hist_delivers (sy_hist S g) (events_by g (sy_log S)))"
proof -
  have s: "ss_tr s = tr" "wf_fa (ss_send s)"
    using assms(2,3) by (auto simp: new_streams [OF assms(2)] new_stream_def wf_keys_def wf_fa_def)
  note inv = lf.conc_inv [OF assms(4) fresh_stream_inv [OF assms(3)]]
  have "\<exists>r'. recv_all lf_transport C (length (log_events (sy_log S))) r = (Inr (log_events (sy_log S)), r')"
    using assms(7,8) s(1) by (intro lf.conc_delivers [OF conjunct2 [OF inv] assms(1) s(2) assms(5,6) _ _ refl])
      (simp_all add: lf_open_def lf_out_def lf_in_def)
  moreover have "hist_delivers (sy_hist S g) (events_by g (sy_log S))" if "sy_pc S g = Idle" for g
    using threads_pc [OF conjunct1 [OF inv], of g] that by simp
  ultimately show ?thesis by blast
qed

lemma toy_fresh:
  obtains c where "NewClientSecureStream (NewLengthFramer (toy_conn [])) toy_keys = Inr c" "wf_fa (ss_send c)" "\<not> ss_closed c"
    "ss_tr c = NewLengthFramer (toy_conn [])" "lf_open (ss_tr c)" "nc_room (lf_c (ss_tr c)) = 1000000"
proof -
  obtain c where c: "NewClientSecureStream (NewLengthFramer (toy_conn [])) toy_keys = Inr c"
    by (rule that) (rule new_streams(1) [OF toy_keys_wf])
  show thesis
    by (rule that [OF c]) (use toy_streams [OF c] in \<open>simp_all add: lf_open_def NewLengthFramer_def\<close>)
qed

theorem concurrent_sends_delivered_witness:
  "\<exists>c S r r'. NewClientSecureStream (NewLengthFramer (toy_conn [])) toy_keys = Inr c \<and>
     conc_reach lf_transport toy_crypto (start_sys c) S \<and>
     sy_hist S 7 = [(ReqTCPData [104, 105], None)] \<and> sy_hist S 8 = [(ReqTCPData [33], None)] \<and>
     recv_all lf_transport toy_crypto 2 r = (Inr [mk_event FrameTCPData [104, 105], mk_event FrameTCPData [33]], r')"
proof -
  obtain c where c: "NewClientSecureStream (NewLengthFramer (toy_conn [])) toy_keys = Inr c" "wf_fa (ss_send c)" "\<not> ss_closed c"
    "ss_tr c = NewLengthFramer (toy_conn [])" "lf_open (ss_tr c)" "nc_room (lf_c (ss_tr c)) = 1000000"
    by (rule toy_fresh)
  obtain s1 w w' where f: "sendFrame lf_transport toy_crypto 0 c FrameTCPData [] [104, 105] (-1) w = (None, s1, w')"
    "wf_fa (ss_send s1)" "\<not> ss_closed s1" "lf_open (ss_tr s1)" "1000000 \<le> nc_room (lf_c (ss_tr s1)) + 65536"
    using data_frame_lf [OF toy_aead_ok c(2,3,5), of "[104, 105]"] c(6) by auto
  obtain s2 v v' where f2: "sendFrame lf_transport toy_crypto 0 s1 FrameTCPData [] [33] (-1) v = (None, s2, v')"
    using data_frame_lf [OF toy_aead_ok f(2-4), of "[33]"] f(5) by auto
  let ?S1 = "returns 7 (ReqTCPData [104, 105]) None (sent 7 (data_call [104, 105]) s1 (start_sys c))"
  let ?S = "returns 8 (ReqTCPData [33]) None (sent 8 (data_call [33]) s2 ?S1)"
  have r: "conc_reach lf_transport toy_crypto (start_sys c) ?S"
  proof (rule conc_trans)
    show "conc_reach lf_transport toy_crypto (start_sys c) ?S1"
      by (rule small_call_between [of _ _ _ _ 0 w _ w']) (use f(1) in simp_all)
    show "conc_reach lf_transport toy_crypto ?S1 ?S"
      by (rule small_call_between [of _ _ _ _ 0 v _ v']) (use f2 in simp_all)
  qed
  let ?r = "new_stream (NewLengthFramer (toy_conn (nc_out (lf_c (ss_tr s2))))) (ss_recv c) (ss_send c)"
  have "\<exists>r'. recv_all lf_transport toy_crypto (length (log_events (sy_log ?S))) ?r = (Inr (log_events (sy_log ?S)), r')"
    by (rule conjunct1 [OF concurrent_sends_delivered [OF toy_aead_ok toy_keys_wf disjI1 [OF c(1)] r]])
      (simp_all add: new_stream_def NewLengthFramer_def)
  moreover have "log_events (sy_log ?S) = [mk_event FrameTCPData [104, 105], mk_event FrameTCPData [33]]"
    by (simp add: log_events_def)
  moreover from this have "length (log_events (sy_log ?S)) = 2" by (simp only: list.size)
  ultimately obtain r' where "recv_all lf_transport toy_crypto 2 ?r =
      (Inr [mk_event FrameTCPData [104, 105], mk_event FrameTCPData [33]], r')"
    by metis
  moreover have "sy_hist ?S 7 = [(ReqTCPData [104, 105], None)]" "sy_hist ?S 8 = [(ReqTCPData [33], None)]" by simp_all
  ultimately show ?thesis using c(1) r by blast
qed

text \<open>
  C23: \<^verbatim>\<open>Close\<close> silences all goroutines. Once \<^verbatim>\<open>Close\<close> has returned, whatever the goroutines do
  from then on, no frame and no byte goes out any more, not even of a goroutine that had already found the
  stream open and was waiting for the mutex. Every call that returns after it returns an error, with
  one exception for each goroutine: the call it was in when \<^verbatim>\<open>Close\<close> was called, if that call had already
  sent its last frame and had only to return.
\<close>
theorem close_silences_goroutines:
  assumes "NewClientSecureStream tr keys = Inr s \<or> NewServerSecureStream tr keys = Inr s"
    and "conc_reach lf_transport C (start_sys s) S" and "SecureStream_Close lf_transport (sy_stream S) = (res, s')"
    and "conc_reach lf_transport C (S\<lparr>sy_stream := s'\<rparr>) S'"
  shows "sy_log S' = sy_log S \<and> nc_out (lf_c (ss_tr (sy_stream S'))) = nc_out (lf_c (ss_tr (sy_stream S))) \<and>
    (\<exists>before after. sy_hist S' g = sy_hist S g @ before @ after \<and> list_all (\<lambda>(q, res). res \<noteq> None) after \<and>
       (before = [] \<or> (\<exists>q. sy_pc S g = At_return q None \<and> before = [(q, None)])))"
proof -
  have "stream_inv lf_shut (sy_stream S)"
    using lf.conc_inv [OF assms(2) fresh_stream_inv [OF assms(1)]] by (simp add: lf.wire_ok_def)
  then have i: "stream_inv lf_shut s'" "ss_closed s'"
    using lf.Close_inv [OF _ _ _ assms(3)] by (auto simp: stream_inv_def)
  have o: "lf_out (ss_tr s') = lf_out (ss_tr (sy_stream S))" by (rule lf.close_out [OF assms(3)])
  obtain h where "sy_hist S' g @ done_call (sy_pc S' g) = sy_hist S g @ done_call (sy_pc S g) @ h"
    "list_all (\<lambda>(q, res). res \<noteq> None) h"
    using lf.closed_reach [OF assms(4)] i by auto
  moreover have "\<exists>h. sy_hist S' g = sy_hist S g @ h" using hist_grows [OF assms(4), of g] by simp
  ultimately show ?thesis
    using returned_after [of "sy_hist S' g"] lf.closed_reach [OF assms(4)] lf_closed_tr [OF assms(4)] i o
    by (simp add: lf_out_def)
qed

theorem close_silences_goroutines_witness:
  "\<exists>S s' S' e. sy_pc S 0 = At_lock (ReqTCPData [1]) (data_call [1]) [] \<and> \<not> ss_closed (sy_stream S) \<and>
     SecureStream_Close lf_transport (sy_stream S) = (None, s') \<and>
     conc_reach lf_transport toy_crypto (S\<lparr>sy_stream := s'\<rparr>) S' \<and> sy_hist S' 0 = [(ReqTCPData [1], Some e)] \<and> sy_log S' = []"
proof -
  obtain c where c: "NewClientSecureStream (NewLengthFramer (toy_conn [])) toy_keys = Inr c" "wf_fa (ss_send c)" "\<not> ss_closed c"
    "ss_tr c = NewLengthFramer (toy_conn [])" "lf_open (ss_tr c)" "nc_room (lf_c (ss_tr c)) = 1000000"
    by (rule toy_fresh)
  let ?q = "ReqTCPData [1]"
  let ?S1 = "moves 0 (At_check ?q (data_call [1]) []) (start_sys c)"
  let ?S = "moves 0 (At_lock ?q (data_call [1]) []) ?S1"
  have r: "conc_reach lf_transport toy_crypto (start_sys c) ?S"
  proof (rule conc_more [OF conc_one])
    show "conc_step lf_transport toy_crypto (start_sys c) ?S1" by (rule call [of _ _ _ "[]"]) (simp_all add: ewp_consts)
    show "conc_step lf_transport toy_crypto ?S1 ?S" by (rule check_open) (use c(3) in simp_all)
  qed
  have i: "stream_inv lf_shut c" by (rule fresh_stream_inv [OF disjI1 [OF c(1)]])
  obtain x s' where x: "SecureStream_Close lf_transport c = (x, s')" by (metis prod.exhaust)
  have cl: "x = None" "stream_inv lf_shut s'" "ss_closed s'"
    using x lf.Close_inv [OF _ _ _ x] i c(3,4)
    by (auto simp: stream_inv_def SecureStream_Close_def lf_transport_def LengthFramer_Close_def conn_Close_def NewLengthFramer_def
        split: option.splits)
  obtain res s2 rnd' where l: "locked_send lf_transport toy_crypto 0 s' (data_call [1]) [] = (res, s2, rnd')" by (metis prod.exhaust)
  obtain e where e: "res = Some e" using lf.locked_closed [OF cl(2,3) l] by auto
  let ?S' = "returns 0 ?q (Some e) (?S\<lparr>sy_stream := s', sy_stream := s2\<rparr>)"
  have r': "conc_reach lf_transport toy_crypto (?S\<lparr>sy_stream := s'\<rparr>) ?S'"
    by (rule step_ret, rule send_err [of _ _ _ "data_call [1]" "[]" _ _ 0 "[]" _ _ rnd']) (use l e in simp_all)
  have x': "SecureStream_Close lf_transport (sy_stream ?S) = (None, s')" using x cl(1) by simp
  have "sy_log ?S' = sy_log ?S"
    by (rule conjunct1 [OF close_silences_goroutines [OF disjI1 [OF c(1)] r x' r']])
  then show ?thesis
    using r' x' c(3) by (intro exI [of _ ?S] exI [of _ s'] exI [of _ ?S'] exI [of _ e]) simp
qed

text \<open>
  C39: A large write is not atomic. While one goroutine is in \<^verbatim>\<open>SendTCPData\<close> with more than 12288 bytes, the
  write of another can come in between two of its pieces: both calls succeed, and the peer receives the
  second payload in the middle of the first.
\<close>
theorem concurrent_writes_mix:
  assumes "aead_ok C" and "wf_fa (ss_send s)" and "\<not> ss_closed s" and "conn_ready (lf_c (ss_tr s))"
    and "65536 * (length p div 4096 + 3) \<le> nc_room (lf_c (ss_tr s))" and "12288 < length p" and "length q \<le> 8192"
  shows "\<exists>S p1 p2. conc_reach lf_transport C (start_sys s) S \<and> sy_hist S 0 = [(ReqTCPData p, None)] \<and>
    sy_hist S 1 = [(ReqTCPData q, None)] \<and> p1 @ p2 = p \<and> p1 \<noteq> [] \<and> p2 \<noteq> [] \<and>
    concat (map ev_Payload (log_events (sy_log S))) = p1 @ q @ p2"
proof -
  have "max_pieces (length p) + 2 \<le> length p div 4096 + 3" by (simp add: max_pieces_def)
  then have "65536 * (max_pieces (length p) + 2) \<le> nc_room (lf_c (ss_tr s))"
    using assms(5) by (meson le_trans mult_le_mono2)
  then show ?thesis
    by (intro pieces_in_between [OF assms(1-3) _ _ assms(6,7)]) (simp_all add: lf_open_def assms(4))
qed

theorem concurrent_writes_mix_witness:
  "\<exists>c S. conc_reach lf_transport toy_crypto (start_sys c) S \<and>
     sy_hist S 0 = [(ReqTCPData (replicate 13000 0), None)] \<and> sy_hist S 1 = [(ReqTCPData [1], None)] \<and>
     concat (map ev_Payload (log_events (sy_log S))) \<noteq> replicate 13000 0 @ [1] \<and>
     concat (map ev_Payload (log_events (sy_log S))) \<noteq> [1] @ replicate 13000 0"
proof -
  obtain c where c: "NewClientSecureStream (NewLengthFramer (toy_conn [])) toy_keys = Inr c" "wf_fa (ss_send c)" "\<not> ss_closed c"
    "ss_tr c = NewLengthFramer (toy_conn [])" "lf_open (ss_tr c)" "nc_room (lf_c (ss_tr c)) = 1000000"
    by (rule toy_fresh)
  obtain S p1 p2 where S: "conc_reach lf_transport toy_crypto (start_sys c) S"
    "sy_hist S 0 = [(ReqTCPData (replicate 13000 0), None)]" "sy_hist S 1 = [(ReqTCPData [1], None)]"
    "p1 @ p2 = replicate 13000 0" "p1 \<noteq> []" "p2 \<noteq> []" "concat (map ev_Payload (log_events (sy_log S))) = p1 @ [1] @ p2"
    using concurrent_writes_mix [OF toy_aead_ok c(2,3), of "replicate 13000 0" "[1]"] c(5,6)
    by (auto simp: lf_open_def)
  have z: "\<forall>x \<in> set (p1 @ p2). x = 0" unfolding S(4) by simp
  then have "hd p1 = 0" "hd p2 = 0" using S(5,6) by simp_all
  with S(5,6) have "p1 @ [1] @ p2 \<noteq> (p1 @ p2) @ [1]" "p1 @ [1] @ p2 \<noteq> [1] @ (p1 @ p2)"
    by (cases p2, simp_all, cases p1, simp_all)
  with S show ?thesis unfolding S(4) by (intro exI [of _ c] exI [of _ S]) simp
qed

end
