(* ===== verification/Buffers.thy ===== *)
theory Buffers
  imports Session
begin

text \<open>
  The buffers of the fast paths. The other theories pass byte lists; the code passes Go slices
  into arrays it shares and reuses. Here arrays live in a heap, a slice is a window on one of them,
  and \<^verbatim>\<open>EncodeFrameAppend\<close>, the part of \<^verbatim>\<open>sendFrame\<close> under the mutex with its \<^verbatim>\<open>sendBuf\<close>, and
  \<^verbatim>\<open>LengthFramer.ReadMessage\<close> with its \<^verbatim>\<open>readBuf\<close> are written with them, statement by statement.

  Shown: each computes what its list version computes, writes only where it may, and allocates
  only when the capacity does not suffice; the frame is sealed in place, so no plaintext stays in
  the buffer; what \<^verbatim>\<open>ReadMessage\<close> returned is not touched by later calls.

  Bounds checks of indexing are the \<open>slice_ok\<close> hypotheses and lemmas. \<^verbatim>\<open>zero\<close> of \<^verbatim>\<open>handshake.go\<close> is here too.
\<close>

section \<open>Slices\<close>

type_synonym heap = "bytes list"

text \<open>\<open>sl_arr\<close> is the array, by its address; a nil slice has no capacity, and its array does not matter.\<close>

record slice =
  sl_arr :: nat
  sl_off :: nat
  sl_len :: nat
  sl_cap :: nat

definition nil_slice :: slice where
  "nil_slice = \<lparr>sl_arr = 0, sl_off = 0, sl_len = 0, sl_cap = 0\<rparr>"

definition slice_ok :: "heap \<Rightarrow> slice \<Rightarrow> bool" where
  "slice_ok h s \<longleftrightarrow> sl_len s \<le> sl_cap s \<and>
     (sl_cap s = 0 \<or> sl_arr s < length h \<and> sl_off s + sl_cap s \<le> length (h ! sl_arr s))"

text \<open>The bytes of a slice; \<^verbatim>\<open>s[i:j]\<close>; writing from its beginning; \<^verbatim>\<open>make([]byte, len, cap)\<close>.\<close>

definition sl_get :: "heap \<Rightarrow> slice \<Rightarrow> bytes" where
  "sl_get h s = take (sl_len s) (drop (sl_off s) (h ! sl_arr s))"

definition reslice :: "slice \<Rightarrow> nat \<Rightarrow> nat \<Rightarrow> slice" where
  "reslice s i j = s\<lparr>sl_off := sl_off s + i, sl_len := j - i, sl_cap := sl_cap s - i\<rparr>"

definition overwrite :: "bytes \<Rightarrow> nat \<Rightarrow> bytes \<Rightarrow> bytes" where
  "overwrite a i bs = take i a @ bs @ drop (i + length bs) a"

definition sl_put :: "heap \<Rightarrow> slice \<Rightarrow> bytes \<Rightarrow> heap" where
  "sl_put h s bs = h[sl_arr s := overwrite (h ! sl_arr s) (sl_off s) bs]"

definition go_make :: "nat \<Rightarrow> nat \<Rightarrow> heap \<Rightarrow> slice \<times> heap" where
  "go_make len cap h = (\<lparr>sl_arr = length h, sl_off = 0, sl_len = len, sl_cap = cap\<rparr>, h @ [replicate cap 0])"

text \<open>\<^verbatim>\<open>copy(dst, src)\<close> moves as many bytes as both have.\<close>

definition go_copy :: "heap \<Rightarrow> slice \<Rightarrow> slice \<Rightarrow> heap" where
  "go_copy h dst src = sl_put h dst (take (sl_len dst) (sl_get h src))"

text \<open>
  \<^verbatim>\<open>Seal(dst, nonce, plaintext, aad)\<close> appends the ciphertext to \<^verbatim>\<open>dst\<close>: into its capacity if that
  suffices, otherwise into a new array.
\<close>

definition aead_Seal ::
  "crypto \<Rightarrow> bytes \<Rightarrow> heap \<Rightarrow> slice \<Rightarrow> bytes \<Rightarrow> slice \<Rightarrow> slice \<Rightarrow> slice \<times> heap" where
  "aead_Seal C key h dst nonce plaintext aad =
     (let out = chacha_Seal C key nonce (sl_get h plaintext) (sl_get h aad);
          total = sl_len dst + length out in
      if total \<le> sl_cap dst
      then (reslice dst 0 total, sl_put h (reslice dst (sl_len dst) total) out)
      else case go_make total total h of
        (ret, h) \<Rightarrow> (ret, sl_put (go_copy h ret dst) (reslice ret (sl_len dst) total) out))"

text \<open>\<^verbatim>\<open>io.ReadFull(crand.Reader, s)\<close>: on a short read the bytes there were are in the slice.\<close>

definition read_random :: "heap \<Rightarrow> slice \<Rightarrow> bytes \<Rightarrow> ewp_error option \<times> heap \<times> bytes" where
  "read_random h s rnd =
     (case io_ReadFull (sl_len s) rnd of
        (Inl err, rnd') \<Rightarrow> (Some err, sl_put h s (take (sl_len s) rnd), rnd')
      | (Inr b, rnd') \<Rightarrow> (None, sl_put h s b, rnd'))"

section \<open>EncodeFrameAppend\<close>

text \<open>Making room for \<open>n\<close> more bytes behind \<open>dst\<close>, which are then part of the result.\<close>

definition grow :: "heap \<Rightarrow> slice \<Rightarrow> nat \<Rightarrow> slice \<times> heap" where
  "grow h dst n =
     (let base = sl_len dst in
      if sl_cap dst - base < n
      then (case go_make (base + n) (base + n) h of (grown, h) \<Rightarrow> (grown, go_copy h grown dst))
      else (reslice dst 0 (base + n), h))"

text \<open>The five fields of the header, which \<^verbatim>\<open>binary.BigEndian\<close> and an assignment write.\<close>

definition put_header :: "heap \<Rightarrow> slice \<Rightarrow> int \<Rightarrow> u64 \<Rightarrow> byte \<Rightarrow> nat \<Rightarrow> int \<Rightarrow> heap" where
  "put_header h wire frameLen counter t metaLen padLen =
     (let h = sl_put h (reslice wire 0 4) (put_be 4 (word_of_int frameLen :: u32));
          h = sl_put h (reslice wire 4 12) (put_be 8 counter);
          h = sl_put h (reslice wire 12 13) [t];
          h = sl_put h (reslice wire 13 15) (put_be 2 (word_of_nat metaLen :: u16)) in
      sl_put h (reslice wire 15 17) (put_be 2 (word_of_int padLen :: u16)))"

text \<open>Header, plaintext and the seal over it, in the window \<^verbatim>\<open>wire\<close>.\<close>

definition seal_frame ::
  "crypto \<Rightarrow> heap \<Rightarrow> slice \<Rightarrow> FrameAEAD \<Rightarrow> byte \<Rightarrow> slice \<Rightarrow> slice \<Rightarrow> int \<Rightarrow> int \<Rightarrow> heap" where
  "seal_frame C h wire f t meta payload frameLen padLen =
     (let counter = fa_counter f;
          plainLen = sl_len meta + sl_len payload;
          h = put_header h wire frameLen counter t (sl_len meta) padLen;
          hdr = reslice wire 0 frameHeaderSize;
          plainStart = frameHeaderSize;
          h = (if plainLen > 0
               then (let h = go_copy h (reslice wire plainStart (sl_len wire)) meta in
                     go_copy h (reslice wire (plainStart + sl_len meta) (sl_len wire)) payload)
               else h);
          nonce = composeNonce f counter;
          plainSlice = reslice wire plainStart (plainStart + plainLen) in
      snd (aead_Seal C (fa_aead f) h (reslice plainSlice 0 0) nonce plainSlice hdr))"

definition EncodeFrameAppend_buf ::
  "crypto \<Rightarrow> heap \<Rightarrow> slice \<Rightarrow> FrameAEAD \<Rightarrow> byte \<Rightarrow> slice \<Rightarrow> slice \<Rightarrow> int \<Rightarrow> bytes \<Rightarrow>
   (slice \<times> ewp_error option) \<times> FrameAEAD \<times> bytes \<times> heap" where
  "EncodeFrameAppend_buf C h dst f t meta payload padLen0 rnd =
     (if \<not> FrameType_Valid t then ((dst, Some ErrFrameType), f, rnd, h)
      else if sl_len meta > MaxMetaLen then ((dst, Some ErrMetaTooLarge), f, rnd, h)
      else
        let padLen = (if padLen0 < 0 then 0 else padLen0) in
        if padLen > MaxFramePad then ((dst, Some ErrPadTooLarge), f, rnd, h)
        else
          let plainLen = sl_len meta + sl_len payload;
              cipherLen = plainLen + aeadTagLen;
              frameLen = int (frameHdrCounter + frameHdrType + frameHdrMetaLen + frameHdrPadLen + cipherLen) + padLen in
          if frameLen > MaxFrameSize then ((dst, Some ErrFrameTooLarge), f, rnd, h)
          else
            let totalWire = frameHeaderSize + cipherLen + nat padLen;
                base = sl_len dst in
            case grow h dst totalWire of (dst, h) \<Rightarrow>
            let wire = reslice dst base (sl_len dst);
                h = seal_frame C h wire f t meta payload frameLen padLen;
                plainStart = frameHeaderSize in
            if padLen > 0 then
              (case read_random h (reslice wire (plainStart + cipherLen) (sl_len wire)) rnd of
                 (Some err, h, rnd) \<Rightarrow> ((reslice dst 0 base, Some (ErrWrap ''ewp/v2: pad rand'' err)), f, rnd, h)
               | (None, h, rnd) \<Rightarrow> ((dst, None), f\<lparr>fa_counter := fa_counter f + 1\<rparr>, rnd, h))
            else ((dst, None), f\<lparr>fa_counter := fa_counter f + 1\<rparr>, rnd, h))"

section \<open>The send buffer\<close>

text \<open>
  The part of \<^verbatim>\<open>sendFrame\<close> under the mutex, with the buffer that is kept from frame to frame. \<^verbatim>\<open>make\<close> gets the
  memory it asks for, and \<^verbatim>\<open>total\<close> does not overflow: both could only fail for a pad length the encoder refuses.
\<close>

definition sendFrame_buf ::
  "'t transport \<Rightarrow> crypto \<Rightarrow> int \<Rightarrow> heap \<Rightarrow> 't SecureStream \<Rightarrow> slice \<Rightarrow> byte \<Rightarrow> slice \<Rightarrow> slice \<Rightarrow> int \<Rightarrow> bytes \<Rightarrow>
   ewp_error option \<times> 't SecureStream \<times> slice \<times> bytes \<times> heap" where
  "sendFrame_buf T C now h s sendBuf t meta payload padLen rnd =
     (let rawWire = frameHeaderSize + sl_len meta + sl_len payload + aeadTagLen in
      case (if padLen < 0 then suggestStreamPad (int rawWire) (sint (ss_frmOut s)) rnd else (padLen, rnd)) of
        (padLen, rnd) \<Rightarrow>
      let total = int rawWire + padLen in
      case (if int (sl_cap sendBuf) < total then go_make 0 (nat total) h else (sendBuf, h)) of
        (sendBuf, h) \<Rightarrow>
      (case EncodeFrameAppend_buf C h (reslice sendBuf 0 0) (ss_send s) t meta payload padLen rnd of
         ((wireBuf, Some err), send, rnd, h) \<Rightarrow>
           (Some (ErrWrap (''ewp/v2: encode '' @ frameTypeName t @ '' frame'') err), s\<lparr>ss_send := send\<rparr>, sendBuf, rnd, h)
       | ((wireBuf, None), send, rnd, h) \<Rightarrow>
           let s = s\<lparr>ss_send := send\<rparr>; sendBuf = wireBuf in
           (case tr_SendMessage T (ss_tr s) (sl_get h wireBuf) of
              (Some err, tr) \<Rightarrow>
                (Some (ErrWrap ''ewp/v2: transport send'' err), closeUnderlying T (s\<lparr>ss_tr := tr\<rparr>), sendBuf, rnd, h)
            | (None, tr) \<Rightarrow>
                let s = s\<lparr>ss_tr := tr, ss_bytesOut := ss_bytesOut s + word_of_nat (sl_len wireBuf),
                          ss_frmOut := ss_frmOut s + 1\<rparr> in
                (None, if t \<noteq> FramePaddingOnly then s\<lparr>ss_lastSendNs := now\<rparr> else s, sendBuf, rnd, h))))"

section \<open>The read buffer\<close>

text \<open>\<^verbatim>\<open>io.ReadFull(f.c, s)\<close>: on an error the slice holds what was taken from the connection.\<close>

definition conn_ReadFull_into :: "heap \<Rightarrow> slice \<Rightarrow> net_conn \<Rightarrow> ewp_error option \<times> net_conn \<times> heap" where
  "conn_ReadFull_into h s c =
     (case conn_ReadFull (sl_len s) c of
        (Inl err, c') \<Rightarrow> (Some err, c', sl_put h s (take (sl_len s) (take (length (nc_in c) - length (nc_in c')) (nc_in c))))
      | (Inr b, c') \<Rightarrow> (None, c', sl_put h s b))"

definition ReadMessage_buf ::
  "heap \<Rightarrow> LengthFramer \<Rightarrow> slice \<Rightarrow> (ewp_error + slice) \<times> LengthFramer \<times> slice \<times> heap" where
  "ReadMessage_buf h f readBuf =
     (case conn_ReadFull 4 (lf_c f) of
        (Inl err, c) \<Rightarrow> (Inl err, f\<lparr>lf_c := c\<rparr>, readBuf, h)
      | (Inr hdr, c) \<Rightarrow>
        let n = (get_be hdr :: u32) in
        if uint n > MaxFrameSize then (Inl ErrFrameTooLarge, f\<lparr>lf_c := c\<rparr>, readBuf, h)
        else
          (case (if sl_cap readBuf < unat n then go_make (unat n) (unat n) h else (reslice readBuf 0 (unat n), h)) of
             (readBuf, h) \<Rightarrow>
           (case conn_ReadFull_into h readBuf c of
              (Some err, c, h) \<Rightarrow> (Inl err, f\<lparr>lf_c := c\<rparr>, readBuf, h)
            | (None, c, h) \<Rightarrow>
              (case go_make (unat n) (unat n) h of
                 (out, h) \<Rightarrow> (Inr out, f\<lparr>lf_c := c\<rparr>, readBuf, go_copy h out readBuf)))))"

text \<open>Reading several messages one after the other, with all results kept.\<close>

fun read_bufs :: "nat \<Rightarrow> heap \<Rightarrow> LengthFramer \<Rightarrow> slice \<Rightarrow> (ewp_error + slice list) \<times> LengthFramer \<times> slice \<times> heap" where
  "read_bufs 0 h f readBuf = (Inr [], f, readBuf, h)"
| "read_bufs (Suc k) h f readBuf =
     (case ReadMessage_buf h f readBuf of
        (Inl err, f, readBuf, h) \<Rightarrow> (Inl err, f, readBuf, h)
      | (Inr out, f, readBuf, h) \<Rightarrow>
        (case read_bufs k h f readBuf of
           (Inl err, f, readBuf, h) \<Rightarrow> (Inl err, f, readBuf, h)
         | (Inr outs, f, readBuf, h) \<Rightarrow> (Inr (out # outs), f, readBuf, h)))"

section \<open>Wiping\<close>

definition zero_slice :: "heap \<Rightarrow> slice \<Rightarrow> heap" where
  "zero_slice h b = foldl (\<lambda>h i. sl_put h (reslice b i (i + 1)) [0]) h [0..<sl_len b]"

section \<open>Lemmas on slices\<close>

lemma reslice_simps [simp]:
  "sl_arr (reslice s i j) = sl_arr s" "sl_off (reslice s i j) = sl_off s + i"
  "sl_len (reslice s i j) = j - i" "sl_cap (reslice s i j) = sl_cap s - i"
  "reslice (reslice s i j) k l = reslice s (i + k) (i + l)"
  by (simp_all add: reslice_def)

lemma length_sl_get [simp]: "slice_ok h s \<Longrightarrow> length (sl_get h s) = sl_len s"
  by (auto simp: slice_ok_def sl_get_def)

lemma overwrite_simps [simp]:
  "i + length bs \<le> length a \<Longrightarrow> length (overwrite a i bs) = length a"
  "overwrite a i [] = a"
  "i \<le> length a \<Longrightarrow> take (length bs) (drop i (overwrite a i bs)) = bs"
  by (simp_all add: overwrite_def)

text \<open>Consecutive writes are one write; a longer write from the same place replaces a shorter one.\<close>

lemma overwrite_next:
  assumes "i \<le> length a"
  shows "overwrite (overwrite a i xs) (i + length xs) ys = overwrite a i (xs @ ys)"
  using assms by (simp add: overwrite_def ac_simps)

lemma overwrite_again:
  assumes "i \<le> length a" and "length ys \<le> length zs"
  shows "overwrite (overwrite a i (xs @ ys)) (i + length xs) zs = overwrite a i (xs @ zs)"
  using assms by (simp add: overwrite_def) (simp add: algebra_simps)

lemma overwrite_window:
  assumes "i \<le> length a"
  shows "take n (drop (i + k) (overwrite a i bs)) = take n (drop k bs @ drop (k - length bs) (drop (i + length bs) a))"
  using assms by (simp add: overwrite_def)

lemma overwrite_outside:
  assumes "i + length bs \<le> length a" and "j + n \<le> i \<or> i + length bs \<le> j"
  shows "take n (drop j (overwrite a i bs)) = take n (drop j a)"
proof (cases "j + n \<le> i")
  case True
  then show ?thesis using assms(1) by (simp add: overwrite_def take_drop min_def)
next
  case False
  then have "i + length bs \<le> j" using assms(2) by simp
  then obtain k where "j = i + length bs + k" using le_Suc_ex by blast
  then show ?thesis using assms(1) by (simp add: overwrite_def add.commute add.left_commute)
qed


text \<open>A heap seen as one array \<open>X\<close> at \<open>a\<close> among others.\<close>

lemma put_at:
  "sl_arr s = a \<Longrightarrow> a < length h \<Longrightarrow> sl_put (h[a := X]) s bs = h[a := overwrite X (sl_off s) bs]"
  by (simp add: sl_put_def)

lemma get_at:
  "sl_arr s = a \<Longrightarrow> a < length h \<Longrightarrow> sl_get (h[a := X]) s = take (sl_len s) (drop (sl_off s) X)"
  by (simp add: sl_get_def)

lemma get_other: "sl_arr s \<noteq> a \<Longrightarrow> sl_get (h[a := X]) s = sl_get h s"
  by (simp add: sl_get_def)

lemma put_header_at:
  assumes "sl_arr w = a" and "a < length h" and "sl_off w \<le> length X"
  shows "put_header (h[a := X]) w n c t m p = h[a := overwrite X (sl_off w) (frame_hdr n c t m p)]"
proof -
  let ?f1 = "put_be 4 (word_of_int n :: u32)" and ?f2 = "put_be 8 c" and ?f4 = "put_be 2 (word_of_nat m :: u16)"
    and ?f5 = "put_be 2 (word_of_int p :: u16)"
  note nx = overwrite_next [OF assms(3)]
  have "overwrite (overwrite X (sl_off w) ?f1) (sl_off w + 4) ?f2 = overwrite X (sl_off w) (?f1 @ ?f2)"
    using nx [of ?f1 ?f2] by simp
  moreover have "overwrite (overwrite X (sl_off w) (?f1 @ ?f2)) (sl_off w + 12) [t] = overwrite X (sl_off w) (?f1 @ ?f2 @ [t])"
    using nx [of "?f1 @ ?f2" "[t]"] by simp
  moreover have "overwrite (overwrite X (sl_off w) (?f1 @ ?f2 @ [t])) (sl_off w + 13) ?f4 = overwrite X (sl_off w) (?f1 @ ?f2 @ [t] @ ?f4)"
    using nx [of "?f1 @ ?f2 @ [t]" ?f4] by simp
  moreover have "overwrite (overwrite X (sl_off w) (?f1 @ ?f2 @ [t] @ ?f4)) (sl_off w + 15) ?f5 =
      overwrite X (sl_off w) (?f1 @ ?f2 @ [t] @ ?f4 @ ?f5)"
    using nx [of "?f1 @ ?f2 @ [t] @ ?f4" ?f5] by simp
  ultimately show ?thesis
    using assms(1,2) by (simp add: put_header_def put_at frame_hdr_def Let_def)
qed

text \<open>
  \<open>steady h a o n s\<close>: the bytes of slice \<open>s\<close> stay what they are while array \<open>a\<close> is written in the
  \<open>n\<close> places from \<open>o\<close> on.
\<close>

definition steady :: "heap \<Rightarrow> nat \<Rightarrow> nat \<Rightarrow> nat \<Rightarrow> slice \<Rightarrow> bool" where
  "steady h a i n s \<longleftrightarrow> slice_ok h s \<and>
     (\<forall>bs. length bs \<le> n \<longrightarrow> sl_get (h[a := overwrite (h ! a) i bs]) s = sl_get h s)"

lemma seal_in_place:
  assumes "sl_arr w = a" and "a < length h" and "i \<le> length X" and "sl_off w = i + length hb"
    and "length out = n + k" and "n + k \<le> sl_cap w" and "length pl = n"
    and "chacha_Seal C key nonce pl (sl_get (h[a := overwrite X i (hb @ pl)]) aad) = out"
  shows "snd (aead_Seal C key (h[a := overwrite X i (hb @ pl)]) (reslice w 0 0) nonce (reslice w 0 n) aad) =
    h[a := overwrite X i (hb @ out)]"
proof -
  have "sl_get (h[a := overwrite X i (hb @ pl)]) (reslice w 0 n) = pl"
    using assms overwrite_window [OF assms(3), of n "length hb" "hb @ pl"] by (simp add: get_at)
  with assms overwrite_again [OF assms(3), of pl out hb] show ?thesis
    by (simp add: aead_Seal_def Let_def put_at)
qed

lemma seal_frame_at:
  assumes C: "aead_ok C" "wf_fa f" and w: "sl_arr w = a" "a < length h" "sl_off w + sl_len w \<le> length (h ! a)" "sl_len w \<le> sl_cap w"
    and m: "steady h a (sl_off w) (sl_len w) meta" and p: "steady h a (sl_off w) (sl_len w) payload"
    and n: "17 + sl_len meta + sl_len payload + 16 \<le> sl_len w"
    and hdr_def: "hdr = frame_hdr frameLen (fa_counter f) t (sl_len meta) padLen"
  shows "seal_frame C h w f t meta payload frameLen padLen =
    h[a := overwrite (h ! a) (sl_off w) (hdr @ chacha_Seal C (fa_aead f) (composeNonce f (fa_counter f))
      (sl_get h meta @ sl_get h payload) hdr)]"
proof -
  let ?X = "h ! a" and ?i = "sl_off w" and ?M = "sl_get h meta" and ?P = "sl_get h payload"
  have l: "length hdr = 17" "length ?M = sl_len meta" "length ?P = sl_len payload"
    using m p by (simp_all add: hdr_def steady_def)
  have i: "?i \<le> length ?X" using w(3) by simp
  have cap: "sl_len meta + sl_len payload + 16 \<le> sl_cap w - 17" using w(4) n by arith
  have "h[a := ?X] = h" by simp
  then have h1: "put_header h w frameLen (fa_counter f) t (sl_len meta) padLen = h[a := overwrite ?X ?i hdr]"
    using put_header_at [OF w(1,2) i, of frameLen "fa_counter f" t "sl_len meta" padLen] by (simp add: hdr_def)
  have gm: "sl_get (h[a := overwrite ?X ?i hdr]) meta = ?M"
    using m n l(1) unfolding steady_def by simp
  have gp: "sl_get (h[a := overwrite ?X ?i (hdr @ ?M)]) payload = ?P"
    using p n l(1,2) unfolding steady_def by simp
  have h2: "go_copy (h[a := overwrite ?X ?i hdr]) (reslice w 17 (sl_len w)) meta = h[a := overwrite ?X ?i (hdr @ ?M)]"
    unfolding go_copy_def gm using w(1,2) n l overwrite_next [OF i, of hdr ?M] by (simp add: put_at)
  have h3: "go_copy (h[a := overwrite ?X ?i (hdr @ ?M)]) (reslice w (17 + sl_len meta) (sl_len w)) payload =
      h[a := overwrite ?X ?i (hdr @ ?M @ ?P)]"
    unfolding go_copy_def gp using w(1,2) n l overwrite_next [OF i, of "hdr @ ?M" ?P] by (simp add: put_at add.assoc)
  have "length (chacha_Seal C (fa_aead f) (composeNonce f (fa_counter f)) (?M @ ?P) hdr) = sl_len meta + sl_len payload + 16"
    using C l by (simp add: aead_seal_len wf_fa_def length_composeNonce)
  moreover have "sl_get (h[a := overwrite ?X ?i (hdr @ ?M @ ?P)]) (reslice w 0 17) = hdr"
    using w(1,2) l(1) overwrite_window [OF i, of 17 0 "hdr @ ?M @ ?P"] by (simp add: get_at)
  ultimately have "snd (aead_Seal C (fa_aead f) (h[a := overwrite ?X ?i (hdr @ ?M @ ?P)]) (reslice (reslice w 17 17) 0 0)
      (composeNonce f (fa_counter f)) (reslice (reslice w 17 17) 0 (sl_len meta + sl_len payload)) (reslice w 0 17)) =
      h[a := overwrite ?X ?i (hdr @ chacha_Seal C (fa_aead f) (composeNonce f (fa_counter f)) (?M @ ?P) hdr)]"
    using w n l cap by (intro seal_in_place [OF _ w(2) i]) simp_all
  then show ?thesis
    using h1 h2 h3 l by (auto simp: seal_frame_def Let_def ewp_consts frameHeaderSize_def)
qed


section \<open>The encoder in place\<close>

text \<open>
  \<open>apart s t\<close>: slice \<open>s\<close> does not reach into the room behind slice \<open>t\<close>, where an append to \<open>t\<close> writes.
\<close>

definition apart :: "slice \<Rightarrow> slice \<Rightarrow> bool" where
  "apart s t \<longleftrightarrow> sl_len s = 0 \<or> sl_arr s \<noteq> sl_arr t \<or>
     sl_off s + sl_len s \<le> sl_off t + sl_len t \<or> sl_off t + sl_cap t \<le> sl_off s"

text \<open>
  \<open>only_behind h dst h'\<close>: from \<open>h\<close> to \<open>h'\<close> nothing was written but in the room behind \<open>dst\<close> and in
  new arrays.
\<close>

definition only_behind :: "heap \<Rightarrow> slice \<Rightarrow> heap \<Rightarrow> bool" where
  "only_behind h dst h' \<longleftrightarrow> length h \<le> length h' \<and>
     (\<forall>s. slice_ok h s \<and> apart s dst \<longrightarrow> slice_ok h' s \<and> sl_get h' s = sl_get h s)"

text \<open>The same window of the same array, of whatever length.\<close>

definition same_room :: "slice \<Rightarrow> slice \<Rightarrow> bool" where
  "same_room s t \<longleftrightarrow> sl_arr s = sl_arr t \<and> sl_off s = sl_off t \<and> sl_cap s = sl_cap t"

lemma same_room_simps [simp]: "same_room s s" "same_room (reslice s 0 n) t = same_room s t" "same_room s (reslice t 0 n) = same_room s t"
  by (simp_all add: same_room_def)

lemma slice_ok_room: "slice_ok h s \<Longrightarrow> 0 < sl_len s \<Longrightarrow> sl_arr s < length h \<and> sl_off s + sl_len s \<le> length (h ! sl_arr s)"
  by (auto simp: slice_ok_def)

lemma sl_get_empty [simp]: "sl_len s = 0 \<Longrightarrow> sl_get h s = []"
  by (simp add: sl_get_def)

lemma get_new:
  assumes "slice_ok h s"
  shows "sl_get ((h @ [Y])[length h := Z]) s = sl_get h s" and "slice_ok ((h @ [Y])[length h := Z]) s"
  using assms slice_ok_room [OF assms] by (auto simp: slice_ok_def sl_get_def nth_append nth_list_update)

lemma get_apart:
  assumes "slice_ok h s" and "apart s t" and "slice_ok h t" and "sl_len t + length bs \<le> sl_cap t" and "a = sl_arr t"
  shows "sl_get (h[a := overwrite (h ! a) (sl_off t + sl_len t) bs]) s = sl_get h s"
    and "slice_ok (h[a := overwrite (h ! a) (sl_off t + sl_len t) bs]) s"
proof -
  show "sl_get (h[a := overwrite (h ! a) (sl_off t + sl_len t) bs]) s = sl_get h s"
  proof (cases "sl_len s = 0 \<or> sl_arr s \<noteq> a \<or> bs = []")
    case True
    then show ?thesis by (auto simp: get_other)
  next
    case False
    then have b: "a < length h" "sl_off t + sl_cap t \<le> length (h ! a)"
      using assms(3-5) by (auto simp: slice_ok_def)
    have "sl_off s + sl_len s \<le> sl_off t + sl_len t \<or> sl_off t + sl_len t + length bs \<le> sl_off s"
      using assms(2,4,5) False by (auto simp: apart_def)
    with b assms(4) False show ?thesis
      by (simp add: get_at overwrite_outside) (simp add: sl_get_def)
  qed
  show "slice_ok (h[a := overwrite (h ! a) (sl_off t + sl_len t) bs]) s"
    using assms(1,3-5) by (cases "bs = []") (auto simp: slice_ok_def nth_list_update)
qed

text \<open>
  What \<open>grow\<close> gives: a window for the frame behind the bytes of \<open>dst\<close>, in an array that can be
  written there without touching what is apart from \<open>dst\<close>.
\<close>

lemma grow_ok:
  assumes "slice_ok h dst" and "grow h dst n = (d, h1)" and "0 < n"
  shows "sl_len d = sl_len dst + n \<and> sl_len d \<le> sl_cap d \<and> sl_arr d < length h1 \<and> sl_off d + sl_cap d \<le> length (h1 ! sl_arr d) \<and>
    take (sl_len dst) (drop (sl_off d) (h1 ! sl_arr d)) = sl_get h dst \<and> length h \<le> length h1 \<and>
    (sl_len dst + n \<le> sl_cap dst \<longrightarrow> length h1 = length h \<and> same_room d dst) \<and>
    (\<forall>s bs. slice_ok h s \<and> apart s dst \<and> length bs \<le> n \<longrightarrow>
       slice_ok (h1[sl_arr d := overwrite (h1 ! sl_arr d) (sl_off d + sl_len dst) bs]) s \<and>
       sl_get (h1[sl_arr d := overwrite (h1 ! sl_arr d) (sl_off d + sl_len dst) bs]) s = sl_get h s)"
proof (cases "sl_cap dst - sl_len dst < n")
  case False
  then have r: "sl_len dst + n \<le> sl_cap dst" "d = reslice dst 0 (sl_len dst + n)" "h1 = h"
    using assms by (auto simp: grow_def Let_def slice_ok_def)
  then have b: "sl_arr dst < length h" "sl_off dst + sl_cap dst \<le> length (h ! sl_arr dst)"
    using assms(1,3) by (auto simp: slice_ok_def)
  have "slice_ok (h[sl_arr dst := overwrite (h ! sl_arr dst) (sl_off dst + sl_len dst) bs]) s \<and>
      sl_get (h[sl_arr dst := overwrite (h ! sl_arr dst) (sl_off dst + sl_len dst) bs]) s = sl_get h s"
    if "slice_ok h s" "apart s dst" "length bs \<le> n" for s bs
    using get_apart [OF that(1,2) assms(1) _ refl, of bs] that(3) r(1) by simp
  with r b show ?thesis by (auto simp: sl_get_def)
next
  case True
  let ?N = "sl_len dst + n" and ?B = "sl_get h dst"
  have g: "sl_get (h @ [replicate ?N 0]) dst = ?B"
    using get_new(1) [OF assms(1), of "replicate ?N 0" "replicate ?N 0"] by simp
  have d: "d = \<lparr>sl_arr = length h, sl_off = 0, sl_len = ?N, sl_cap = ?N\<rparr>"
    "h1 = (h @ [replicate ?N 0])[length h := overwrite (replicate ?N 0) 0 ?B]"
    using assms(1,2) True g by (auto simp: grow_def go_make_def go_copy_def sl_put_def Let_def)
  then have h1: "h1 = h @ [overwrite (replicate ?N 0) 0 ?B]" by simp
  have o: "overwrite (replicate ?N 0) 0 ?B = ?B @ replicate n 0"
    using assms(1) by (simp add: overwrite_def)
  have "slice_ok (h1[length h := Z]) s \<and> sl_get (h1[length h := Z]) s = sl_get h s" if "slice_ok h s" for s Z
    unfolding h1 using get_new [OF that, of "overwrite (replicate ?N 0) 0 ?B" Z] by simp
  then show ?thesis
    using True assms(1) unfolding d(1) by (simp add: h1 o)
qed


lemma grown_get:
  assumes "slice_ok h dst" and "grow h dst n = (d, h1)" and "0 < n" and "length bs \<le> n"
  defines "h2 \<equiv> h1[sl_arr d := overwrite (h1 ! sl_arr d) (sl_off d + sl_len dst) bs]"
  shows "sl_get h2 (reslice d 0 (sl_len dst)) = sl_get h dst" and "slice_ok h2 d" and "slice_ok h2 (reslice d 0 (sl_len dst))"
    and "length bs = n \<Longrightarrow> sl_get h2 d = sl_get h dst @ bs" and "only_behind h dst h2"
    and "sl_len dst + n \<le> sl_cap dst \<Longrightarrow> length h2 = length h \<and> same_room d dst"
proof -
  note g = grow_ok [OF assms(1-3)]
  let ?X = "h1 ! sl_arr d" and ?o = "sl_off d + sl_len dst"
  have fit: "?o + length bs \<le> length ?X" "sl_arr d < length h1" using g assms(4) by auto
  have pre: "take (sl_len dst) (drop (sl_off d) (overwrite ?X ?o bs)) = sl_get h dst"
    using overwrite_outside [OF fit(1), of "sl_off d" "sl_len dst"] g by simp
  show "sl_get h2 (reslice d 0 (sl_len dst)) = sl_get h dst"
    using fit(2) pre by (simp add: h2_def get_at)
  show "slice_ok h2 d" "slice_ok h2 (reslice d 0 (sl_len dst))"
    using g fit by (simp_all add: slice_ok_def h2_def)
  show "sl_get h2 d = sl_get h dst @ bs" if "length bs = n"
  proof -
    have "sl_get h2 d = take (sl_len dst + n) (drop (sl_off d) (overwrite ?X ?o bs))"
      using g by (simp add: h2_def get_at)
    also have "\<dots> = sl_get h dst @ take n (drop (sl_len dst) (drop (sl_off d) (overwrite ?X ?o bs)))"
      by (simp only: take_add pre)
    also have "\<dots> = sl_get h dst @ bs"
      using fit(1) that overwrite_simps(3) [of ?o ?X bs] by (simp add: add.commute)
    finally show ?thesis .
  qed
  show "only_behind h dst h2"
    using g assms(4) unfolding only_behind_def h2_def by simp
  show "sl_len dst + n \<le> sl_cap dst \<Longrightarrow> length h2 = length h \<and> same_room d dst"
    using g by (simp add: h2_def)
qed

text \<open>The refused requests.\<close>

lemma encode_refused:
  assumes "\<not> frame_fits t M P padLen" and "length M = sl_len meta" and "length P = sl_len payload"
    and "EncodeFrameAppend_buf C h dst f t meta payload padLen rnd = ((d, err), f', rnd', h')"
  shows "d = dst \<and> h' = h \<and> EncodeFrameAppend C D f t M P padLen rnd = ((D, err), f', rnd')"
  using assms
  by (auto simp: EncodeFrameAppend_eq EncodeFrameAppend_buf_def frame_fits_def Let_def ewp_consts split: if_splits)

text \<open>The others: what happens to the array once there is room.\<close>

definition sealed :: "crypto \<Rightarrow> FrameAEAD \<Rightarrow> byte \<Rightarrow> bytes \<Rightarrow> bytes \<Rightarrow> nat \<Rightarrow> bytes" where
  "sealed C f t meta payload n =
     (let hdr = frame_hdr (int (13 + length meta + length payload + 16 + n)) (fa_counter f) t (length meta) (int n) in
      hdr @ chacha_Seal C (fa_aead f) (composeNonce f (fa_counter f)) (meta @ payload) hdr)"

lemma frame_wire_sealed: "frame_wire C f t meta payload pad = sealed C f t meta payload (length pad) @ pad"
  by (simp add: frame_wire_def sealed_def Let_def)

lemma length_sealed:
  "aead_ok C \<Longrightarrow> wf_fa f \<Longrightarrow> length (sealed C f t meta payload n) = 33 + length meta + length payload"
  by (simp add: sealed_def Let_def aead_seal_len wf_fa_def length_composeNonce)

lemma encode_sealed:
  assumes "aead_ok C" and "wf_fa f" and "slice_ok h dst" and "slice_ok h meta" and "slice_ok h payload"
    and "apart meta dst" and "apart payload dst" and "grow h dst (33 + sl_len meta + sl_len payload + n) = (d, h1)"
  shows "seal_frame C h1 (reslice d (sl_len dst) (sl_len d)) f t meta payload
      (int (13 + sl_len meta + sl_len payload + 16 + n)) (int n) =
    h1[sl_arr d := overwrite (h1 ! sl_arr d) (sl_off d + sl_len dst) (sealed C f t (sl_get h meta) (sl_get h payload) n)]"
proof -
  let ?a = "sl_arr d" and ?w = "reslice d (sl_len dst) (sl_len d)"
  note g = grow_ok [OF assms(3,8)]
  have o: "slice_ok (h1[?a := overwrite (h1 ! ?a) (sl_off d + sl_len dst) bs]) s \<and>
      sl_get (h1[?a := overwrite (h1 ! ?a) (sl_off d + sl_len dst) bs]) s = sl_get h s"
    if "s = meta \<or> s = payload" "length bs \<le> 33 + sl_len meta + sl_len payload + n" for s bs
    using g that assms(4-7) by auto
  have s: "slice_ok h1 s \<and> sl_get h1 s = sl_get h s" if "s = meta \<or> s = payload" for s
    using o [OF that, of "[]"] by simp
  have "steady h1 ?a (sl_off ?w) (sl_len ?w) s" if "s = meta \<or> s = payload" for s
    using s [OF that] o [OF that] g by (simp add: steady_def)
  then have "seal_frame C h1 ?w f t meta payload (int (13 + sl_len meta + sl_len payload + 16 + n)) (int n) =
      h1[?a := overwrite (h1 ! ?a) (sl_off ?w) (frame_hdr (int (13 + sl_len meta + sl_len payload + 16 + n)) (fa_counter f) t
        (sl_len meta) (int n) @ chacha_Seal C (fa_aead f) (composeNonce f (fa_counter f)) (sl_get h1 meta @ sl_get h1 payload)
        (frame_hdr (int (13 + sl_len meta + sl_len payload + 16 + n)) (fa_counter f) t (sl_len meta) (int n)))]"
    using g by (intro seal_frame_at [OF assms(1,2)]) auto
  then show ?thesis
    using s assms(4,5) by (simp add: sealed_def Let_def)
qed


lemma encode_accepted:
  assumes "frame_fits t M P padLen" and "length M = sl_len meta" and "length P = sl_len payload"
    and "n = nat padLen" and "grow h dst (33 + sl_len meta + sl_len payload + n) = (d, h1)"
  shows "EncodeFrameAppend_buf C h dst f t meta payload padLen rnd =
    (let w = reslice d (sl_len dst) (sl_len d);
         h2 = seal_frame C h1 w f t meta payload (int (13 + sl_len meta + sl_len payload + 16 + n)) (int n) in
     if 0 < n then
       (case read_random h2 (reslice w (33 + sl_len meta + sl_len payload) (sl_len w)) rnd of
          (Some err, h, rnd) \<Rightarrow> ((reslice d 0 (sl_len dst), Some (ErrWrap ''ewp/v2: pad rand'' err)), f, rnd, h)
        | (None, h, rnd) \<Rightarrow> ((d, None), bump f, rnd, h))
     else ((d, None), bump f, rnd, h2))"
proof -
  have t: "17 + (sl_len meta + sl_len payload + 16) + nat (if padLen < 0 then 0 else padLen) = 33 + sl_len meta + sl_len payload + n"
    "int (13 + (sl_len meta + sl_len payload + 16)) + (if padLen < 0 then 0 else padLen) = int (13 + sl_len meta + sl_len payload + 16 + n)"
    "(if padLen < 0 then 0 else padLen) = int n"
    "17 + (sl_len meta + sl_len payload + 16) = 33 + sl_len meta + sl_len payload"
    using assms(4) by auto
  have "FrameType_Valid t" "\<not> MaxMetaLen < sl_len meta" "\<not> MaxFramePad < int n"
    "\<not> MaxFrameSize < int (13 + sl_len meta + sl_len payload + 16 + n)"
    using assms(1-4) by (auto simp: frame_fits_def MaxFramePad_def)
  then show ?thesis
    unfolding bump_def using assms(5) t
    by (simp add: EncodeFrameAppend_buf_def Let_def frameHeaderSize_def aeadTagLen_def frameHdrFrameLen_def
        frameHdrCounter_def frameHdrType_def frameHdrMetaLen_def frameHdrPadLen_def add.assoc)
qed


text \<open>The whole run on an accepted request: the window filled with the sealed frame, then with the padding.\<close>

lemma encode_run:
  assumes "aead_ok C" and "wf_fa f" and "slice_ok h dst" and "slice_ok h meta" and "slice_ok h payload"
    and "apart meta dst" and "apart payload dst" and fits: "frame_fits t (sl_get h meta) (sl_get h payload) padLen"
    and n: "n = nat padLen" and N: "N = 33 + sl_len meta + sl_len payload + n" and g: "grow h dst N = (e, h1)"
  defines "H \<equiv> \<lambda>bs. h1[sl_arr e := overwrite (h1 ! sl_arr e) (sl_off e + sl_len dst) bs]"
    and "sf \<equiv> sealed C f t (sl_get h meta) (sl_get h payload) n"
  shows "n \<le> length rnd \<Longrightarrow> EncodeFrameAppend_buf C h dst f t meta payload padLen rnd =
      ((e, None), bump f, drop n rnd, H (sf @ take n rnd))"
    and "io_ReadFull n rnd = (Inl x, []) \<Longrightarrow> EncodeFrameAppend_buf C h dst f t meta payload padLen rnd =
      ((reslice e 0 (sl_len dst), Some (ErrWrap ''ewp/v2: pad rand'' x)), f, [], H (sf @ take n rnd))"
proof -
  let ?w = "reslice e (sl_len dst) (sl_len e)"
  have l: "length (sl_get h meta) = sl_len meta" "length (sl_get h payload) = sl_len payload" using assms(4,5) by simp_all
  have ls: "length sf = 33 + sl_len meta + sl_len payload"
    unfolding sf_def by (simp add: length_sealed [OF assms(1,2)] l)
  have gr: "sl_len e = sl_len dst + N" "sl_arr e < length h1" "sl_off e + sl_len dst \<le> length (h1 ! sl_arr e)"
    using grow_ok [OF assms(3) g] by (auto simp: N)
  define v where "v = reslice ?w (33 + sl_len meta + sl_len payload) (sl_len ?w)"
  have v: "sl_len v = n" "sl_put (H sf) v bs = H (sf @ bs)" for bs
    using gr overwrite_next [OF gr(3), of sf bs] ls by (simp_all add: v_def N put_at add.assoc H_def)
  have E: "EncodeFrameAppend_buf C h dst f t meta payload padLen rnd =
      (if 0 < n then
         (case read_random (H sf) v rnd of
            (Some err, h, rnd) \<Rightarrow> ((reslice e 0 (sl_len dst), Some (ErrWrap ''ewp/v2: pad rand'' err)), f, rnd, h)
          | (None, h, rnd) \<Rightarrow> ((e, None), bump f, rnd, h))
       else ((e, None), bump f, rnd, H sf))"
    using encode_accepted [OF fits l n g [unfolded N], of C f rnd]
      encode_sealed [OF assms(1-7) g [unfolded N], of t] by (simp only: Let_def v_def H_def sf_def)
  show "EncodeFrameAppend_buf C h dst f t meta payload padLen rnd = ((e, None), bump f, drop n rnd, H (sf @ take n rnd))"
    if "n \<le> length rnd"
    unfolding E using that by (auto simp: read_random_def io_ReadFull_def v)
  show "EncodeFrameAppend_buf C h dst f t meta payload padLen rnd =
      ((reslice e 0 (sl_len dst), Some (ErrWrap ''ewp/v2: pad rand'' x)), f, [], H (sf @ take n rnd))"
    if "io_ReadFull n rnd = (Inl x, [])"
  proof -
    have "0 < n" using that by (cases n) (auto simp: io_ReadFull_def)
    with that show ?thesis unfolding E by (simp add: read_random_def v)
  qed
qed

lemma encode_in_place:
  assumes "aead_ok C" and "wf_fa f" and "slice_ok h dst" and "slice_ok h meta" and "slice_ok h payload"
    and "apart meta dst" and "apart payload dst"
    and "EncodeFrameAppend_buf C h dst f t meta payload padLen rnd = ((d, err), f', rnd', h')"
  shows "EncodeFrameAppend C (sl_get h dst) f t (sl_get h meta) (sl_get h payload) padLen rnd = ((sl_get h' d, err), f', rnd') \<and>
    slice_ok h' d \<and> only_behind h dst h' \<and>
    (sl_len dst + (33 + sl_len meta + sl_len payload + nat padLen) \<le> sl_cap dst \<longrightarrow> length h' = length h \<and> same_room d dst)"
proof (cases "frame_fits t (sl_get h meta) (sl_get h payload) padLen")
  case False
  from encode_refused [OF this _ _ assms(8), of "sl_get h dst"] assms(3-5) show ?thesis
    by (simp add: only_behind_def)
next
  case fits: True
  define n and N where "n = nat padLen" and "N = 33 + sl_len meta + sl_len payload + n"
  let ?M = "sl_get h meta" and ?P = "sl_get h payload"
  let ?b = "sealed C f t ?M ?P n @ take n rnd"
  have lb: "length ?b = 33 + sl_len meta + sl_len payload + min (length rnd) n"
    using length_sealed [OF assms(1,2), of t ?M ?P n] assms(4,5) by simp
  obtain e h1 where g: "grow h dst N = (e, h1)" by (metis prod.exhaust)
  note run = encode_run [OF assms(1-7) fits n_def N_def g]
  have "0 < N" "length ?b \<le> N" using lb by (simp_all add: N_def)
  note gg = grown_get [OF assms(3) g this]
  show ?thesis
  proof (cases "n \<le> length rnd")
    case True
    with run(1) [OF True] show ?thesis
      using assms(8) gg lb EncodeFrameAppend_fits [OF fits, of rnd C "sl_get h dst" f]
      by (simp add: n_def [symmetric] frame_wire_sealed N_def)
  next
    case False
    obtain x where x: "io_ReadFull n rnd = (Inl x, [])"
      using False by (cases "rnd = []") (auto simp: io_ReadFull_def)
    have "EncodeFrameAppend C (sl_get h dst) f t ?M ?P padLen rnd = ((sl_get h dst, Some (ErrWrap ''ewp/v2: pad rand'' x)), f, [])"
      using fits False x by (auto simp: EncodeFrameAppend_eq frame_fits_def Let_def ewp_consts n_def)
    with run(2) [OF x] show ?thesis
      using assms(8) gg by (simp add: n_def [symmetric] N_def)
  qed
qed

section \<open>The send buffer\<close>

text \<open>
  \<open>handed_on h b h' b'\<close>: from \<open>h\<close> to \<open>h'\<close> buffer \<open>b\<close> may have been written or replaced by \<open>b'\<close>, and every
  slice outside of \<open>b\<close> kept its bytes and is outside of \<open>b'\<close>.
\<close>

definition handed_on :: "heap \<Rightarrow> slice \<Rightarrow> heap \<Rightarrow> slice \<Rightarrow> bool" where
  "handed_on h b h' b' \<longleftrightarrow> slice_ok h' b' \<and>
     (\<forall>s. slice_ok h s \<and> apart s (reslice b 0 0) \<longrightarrow>
        slice_ok h' s \<and> sl_get h' s = sl_get h s \<and> apart s (reslice b' 0 0))"

lemma handed_on_trans: "handed_on h b h1 b1 \<Longrightarrow> handed_on h1 b1 h2 b2 \<Longrightarrow> handed_on h b h2 b2"
  by (simp add: handed_on_def)

lemma handed_on_refl: "slice_ok h b \<Longrightarrow> handed_on h b h b"
  by (simp add: handed_on_def)

lemma handed_on_room:
  "slice_ok h' b' \<Longrightarrow> same_room b' b \<Longrightarrow> only_behind h (reslice b 0 0) h' \<Longrightarrow> handed_on h b h' b'"
  by (auto simp: handed_on_def only_behind_def same_room_def apart_def)

lemma handed_on_make:
  assumes "go_make l n h = (b1, h1)" and "l \<le> n"
  shows "handed_on h b h1 b1 \<and> sl_len b1 = l \<and> sl_cap b1 = n \<and> length h1 = Suc (length h)"
proof -
  have d: "b1 = \<lparr>sl_arr = length h, sl_off = 0, sl_len = l, sl_cap = n\<rparr>" "h1 = h @ [replicate n 0]"
    using assms(1) by (auto simp: go_make_def)
  have "slice_ok h1 s \<and> sl_get h1 s = sl_get h s \<and> apart s (reslice b1 0 0)" if "slice_ok h s" for s
    using get_new [OF that, of "replicate n 0" "replicate n 0"] slice_ok_room [OF that] by (auto simp: d apart_def)
  then show ?thesis using assms(2) by (simp add: handed_on_def d slice_ok_def)
qed

lemma send_buffer:
  assumes "aead_ok C" and "wf_fa (ss_send s)" and "slice_ok h buf" and "slice_ok h meta" and "slice_ok h payload"
    and "apart meta (reslice buf 0 0)" and "apart payload (reslice buf 0 0)"
    and "sendFrame_buf T C now h s buf t meta payload padLen rnd = (err, s', buf', rnd', h')"
  shows "sendFrame_locked T C now s t (sl_get h meta) (sl_get h payload) padLen rnd = (err, s', rnd') \<and>
    handed_on h buf h' buf' \<and> length h' \<le> Suc (length h) \<and>
    (padLen \<le> MaxFramePad \<and> 33 + sl_len meta + sl_len payload + 4096 \<le> sl_cap buf \<longrightarrow> length h' = length h)"
proof -
  let ?raw = "frameHeaderSize + sl_len meta + sl_len payload + aeadTagLen"
  have l: "length (sl_get h meta) = sl_len meta" "length (sl_get h payload) = sl_len payload" using assms(4,5) by simp_all
  obtain pl r1 where p: "(if padLen < 0 then suggestStreamPad (int ?raw) (sint (ss_frmOut s)) rnd else (padLen, rnd)) = (pl, r1)"
    by (metis prod.exhaust)
  have pl: "0 \<le> pl" "padLen \<le> MaxFramePad \<Longrightarrow> pl \<le> 4096"
    using p stream_pad_range [of "int ?raw" "sint (ss_frmOut s)" rnd] by (auto simp: MaxFramePad_def split: if_splits)
  define total where "total = int ?raw + pl"
  have tot: "nat total = 33 + sl_len meta + sl_len payload + nat pl"
    using pl(1) by (simp add: total_def ewp_consts)
  obtain b1 h1 where b: "(if int (sl_cap buf) < total then go_make 0 (nat total) h else (buf, h)) = (b1, h1)"
    by (metis prod.exhaust)
  have b1: "handed_on h buf h1 b1" "nat total \<le> sl_cap b1" "length h1 \<le> Suc (length h)"
    "nat total \<le> sl_cap buf \<Longrightarrow> length h1 = length h"
    using b handed_on_make [of 0 "nat total" h b1 h1 buf] handed_on_refl [OF assms(3)]
    by (auto split: if_splits)
  obtain d er f' r2 h2 where e: "EncodeFrameAppend_buf C h1 (reslice b1 0 0) (ss_send s) t meta payload pl r1 = ((d, er), f', r2, h2)"
    by (metis prod.exhaust)
  have o: "slice_ok h1 (reslice b1 0 0)" "slice_ok h1 meta" "slice_ok h1 payload" "apart meta (reslice b1 0 0)" "apart payload (reslice b1 0 0)"
    "sl_get h1 meta = sl_get h meta" "sl_get h1 payload = sl_get h payload"
    using b1(1) assms(4-7) by (auto simp: handed_on_def slice_ok_def)
  have E: "EncodeFrameAppend C [] (ss_send s) t (sl_get h meta) (sl_get h payload) pl r1 = ((sl_get h2 d, er), f', r2)"
    "slice_ok h2 d" "only_behind h1 (reslice b1 0 0) h2" "length h2 = length h1" "same_room d b1"
    using encode_in_place [OF assms(1,2) o(1-5) e] o(6,7) b1(2) tot by simp_all
  have "slice_ok h2 b1" using E(2-5) b1(1) by (auto simp: slice_ok_def same_room_def handed_on_def)
  then have H: "handed_on h buf h2 d" "handed_on h buf h2 b1"
    using handed_on_trans [OF b1(1)] handed_on_room [OF _ _ E(3)] E(2,5) by simp_all
  have "length h2 \<le> Suc (length h)" "padLen \<le> MaxFramePad \<and> 33 + sl_len meta + sl_len payload + 4096 \<le> sl_cap buf \<longrightarrow> length h2 = length h"
    using b1(3,4) E(4) tot pl by auto
  note bounds = this
  note run = assms(8) [unfolded sendFrame_buf_def Let_def p prod.case b [unfolded total_def] e]
  have lw: "length (sl_get h2 d) = sl_len d" using E(2) by simp
  have loc: "sendFrame_locked T C now s t (sl_get h meta) (sl_get h payload) padLen rnd = (err, s', rnd') \<and>
      h' = h2 \<and> (buf' = d \<or> buf' = b1)"
    unfolding sendFrame_locked_def Let_def l p prod.case E(1)
    using run lw by (cases er; cases "tr_SendMessage T (ss_tr (s\<lparr>ss_send := f'\<rparr>)) (sl_get h2 d)"; cases "fst (tr_SendMessage T (ss_tr (s\<lparr>ss_send := f'\<rparr>)) (sl_get h2 d))") auto
  with H bounds show ?thesis by blast
qed


section \<open>The read buffer\<close>

lemma only_behind_put:
  assumes "slice_ok h b" and "length bs \<le> sl_cap b"
  shows "only_behind h (reslice b 0 0) (sl_put h b bs) \<and> slice_ok (sl_put h b bs) b \<and>
    (0 < sl_cap b \<or> sl_len b = 0 \<longrightarrow> length bs = sl_len b \<longrightarrow> sl_get (sl_put h b bs) b = bs)"
proof (cases "bs = []")
  case True
  then show ?thesis
    using assms(1) by (auto simp: sl_put_def only_behind_def)
next
  case False
  then have b: "sl_arr b < length h" "sl_off b + sl_cap b \<le> length (h ! sl_arr b)"
    using assms by (auto simp: slice_ok_def)
  have "slice_ok (sl_put h b bs) s \<and> sl_get (sl_put h b bs) s = sl_get h s" if "slice_ok h s" "apart s (reslice b 0 0)" for s
  proof -
    have "slice_ok h (reslice b 0 0)" using assms(1) by (simp add: slice_ok_def)
    from get_apart [OF that this _ refl, of bs] assms(2) show ?thesis by (simp add: sl_put_def)
  qed
  moreover have "length (overwrite (h ! sl_arr b) (sl_off b) bs) = length (h ! sl_arr b)"
    using b(2) assms(2) by simp
  then have "slice_ok (sl_put h b bs) b"
    using assms(1) b by (simp add: sl_put_def slice_ok_def)
  moreover have "sl_get (sl_put h b bs) b = bs" if "length bs = sl_len b"
    using b overwrite_simps(3) [of "sl_off b" "h ! sl_arr b" bs] that by (simp add: sl_put_def sl_get_def)
  moreover have "length h \<le> length (sl_put h b bs)" by (simp add: sl_put_def)
  ultimately show ?thesis unfolding only_behind_def by blast
qed

lemma read_into:
  assumes "slice_ok h b" and "conn_ReadFull_into h b c = (err, c', h')"
  shows "handed_on h b h' b \<and> length h' = length h \<and>
    (case err of Some e \<Rightarrow> conn_ReadFull (sl_len b) c = (Inl e, c') | None \<Rightarrow> conn_ReadFull (sl_len b) c = (Inr (sl_get h' b), c'))"
proof -
  have len: "length bs = sl_len b" if "conn_ReadFull (sl_len b) c = (Inr bs, c')" for bs
    using conn_ReadFull_facts(6) [OF that refl] by simp
  have ok: "sl_len b \<le> sl_cap b" using assms(1) by (simp add: slice_ok_def)
  have "handed_on h b (sl_put h b bs) b \<and> length (sl_put h b bs) = length h" if "length bs \<le> sl_len b" for bs
    using only_behind_put [OF assms(1), of bs] that ok by (auto simp: sl_put_def intro!: handed_on_room)
  moreover have "sl_get (sl_put h b bs) b = bs" if "length bs = sl_len b" for bs
    using only_behind_put [OF assms(1), of bs] that ok by auto
  ultimately show ?thesis
    using assms(2) len by (auto simp: conn_ReadFull_into_def split: prod.splits sum.splits)
qed

lemma copy_out:
  assumes "slice_ok h b" and "go_make (sl_len b) (sl_len b) h = (out, h1)"
  shows "handed_on h b (go_copy h1 out b) b \<and> slice_ok (go_copy h1 out b) out \<and> sl_get (go_copy h1 out b) out = sl_get h b \<and>
    apart out (reslice b 0 0)"
proof -
  have d: "out = \<lparr>sl_arr = length h, sl_off = 0, sl_len = sl_len b, sl_cap = sl_len b\<rparr>" "h1 = h @ [replicate (sl_len b) 0]"
    using assms(2) by (auto simp: go_make_def)
  have g: "sl_get h1 b = sl_get h b" using get_new(1) [OF assms(1), of "replicate (sl_len b) 0" "replicate (sl_len b) 0"] d(2) by simp
  have c: "go_copy h1 out b = (h @ [replicate (sl_len b) 0])[length h := overwrite (replicate (sl_len b) 0) 0 (sl_get h b)]"
    unfolding go_copy_def g using assms(1) by (simp add: sl_put_def d)
  have "slice_ok (go_copy h1 out b) s \<and> sl_get (go_copy h1 out b) s = sl_get h s" if "slice_ok h s" for s
    unfolding c using get_new [OF that] by blast
  then have "handed_on h b (go_copy h1 out b) b" using assms(1) by (simp add: handed_on_def)
  moreover have "slice_ok (go_copy h1 out b) out" "sl_get (go_copy h1 out b) out = sl_get h b"
  proof -
    obtain B where B: "sl_get h b = B" "length B = sl_len b" using assms(1) by simp
    show "slice_ok (go_copy h1 out b) out" "sl_get (go_copy h1 out b) out = sl_get h b"
      unfolding c B(1) using B(2) by (simp_all add: d slice_ok_def sl_get_def overwrite_def)
  qed
  moreover have "apart out (reslice b 0 0)"
    using slice_ok_room [OF assms(1)] assms(1) by (auto simp: apart_def d slice_ok_def)
  ultimately show ?thesis by blast
qed


lemma read_room:
  assumes "slice_ok h b" and "(if sl_cap b < n then go_make n n h else (reslice b 0 n, h)) = (b1, h1)"
  shows "handed_on h b h1 b1 \<and> sl_len b1 = n"
proof (cases "sl_cap b < n")
  case True
  with assms(2) handed_on_make [of n n h b1 h1 b] show ?thesis by simp
next
  case False
  then have "b1 = reslice b 0 n" "h1 = h" using assms(2) by auto
  moreover have "slice_ok h (reslice b 0 n)" using assms(1) False by (auto simp: slice_ok_def)
  ultimately show ?thesis by (auto simp: handed_on_def)
qed

lemma read_message:
  assumes "slice_ok h b" and "ReadMessage_buf h f b = (r, f', b', h')"
  shows "handed_on h b h' b' \<and> (case r of
      Inl e \<Rightarrow> LengthFramer_ReadMessage f = (Inl e, f')
    | Inr out \<Rightarrow> LengthFramer_ReadMessage f = (Inr (sl_get h' out), f') \<and> slice_ok h' out \<and> apart out (reslice b' 0 0))"
proof -
  obtain r1 c1 where h4: "conn_ReadFull 4 (lf_c f) = (r1, c1)" by (metis prod.exhaust)
  show ?thesis
  proof (cases "\<exists>hdr. r1 = Inr hdr \<and> \<not> uint (get_be hdr :: u32) > MaxFrameSize")
    case False
    with assms h4 handed_on_refl [OF assms(1)] show ?thesis
      by (auto simp: ReadMessage_buf_def LengthFramer_ReadMessage_def Let_def split: sum.splits if_splits)
  next
    case True
    then obtain hdr where hdr: "r1 = Inr hdr" "\<not> uint (get_be hdr :: u32) > MaxFrameSize" by blast
    define n where "n = unat (get_be hdr :: u32)"
    obtain b1 h1 where b: "(if sl_cap b < n then go_make n n h else (reslice b 0 n, h)) = (b1, h1)" by (metis prod.exhaust)
    have b1: "handed_on h b h1 b1" "sl_len b1 = n" using read_room [OF assms(1) b] by simp_all
    then have ok1: "slice_ok h1 b1" by (simp add: handed_on_def)
    obtain e c2 h2 where i: "conn_ReadFull_into h1 b1 c1 = (e, c2, h2)" by (metis prod.exhaust)
    note R = read_into [OF ok1 i]
    have h2: "handed_on h b h2 b1" by (rule handed_on_trans [OF b1(1) conjunct1 [OF R]])
    then have ok2: "slice_ok h2 b1" by (simp add: handed_on_def)
    have run: "ReadMessage_buf h f b = (case e of
        Some err \<Rightarrow> (Inl err, f\<lparr>lf_c := c2\<rparr>, b1, h2)
      | None \<Rightarrow> (case go_make n n h2 of (out, h) \<Rightarrow> (Inr out, f\<lparr>lf_c := c2\<rparr>, b1, go_copy h out b1)))"
      unfolding ReadMessage_buf_def h4 hdr(1) prod.case sum.case Let_def n_def [symmetric] b i using hdr(2) by (cases e) simp_all
    have lf: "LengthFramer_ReadMessage f = (case conn_ReadFull n c1 of
        (Inl err, c) \<Rightarrow> (Inl err, f\<lparr>lf_c := c\<rparr>) | (Inr out, c) \<Rightarrow> (Inr out, f\<lparr>lf_c := c\<rparr>))"
      unfolding LengthFramer_ReadMessage_def h4 hdr(1) prod.case sum.case Let_def n_def [symmetric] using hdr(2) by simp
    show ?thesis
    proof (cases e)
      case (Some x)
      with assms(2) run lf R h2 b1(2) show ?thesis by auto
    next
      case None
      obtain out h3 where o: "go_make n n h2 = (out, h3)" by (metis prod.exhaust)
      note O = copy_out [OF ok2, of out h3, unfolded b1(2), OF o]
      have "handed_on h b (go_copy h3 out b1) b1" using handed_on_trans [OF h2] O by blast
      moreover have "conn_ReadFull n c1 = (Inr (sl_get h2 b1), c2)" using R None b1(2) by simp
      moreover have "r = Inr out" "f' = f\<lparr>lf_c := c2\<rparr>" "b' = b1" "h' = go_copy h3 out b1"
        using run [unfolded assms(2) None o] by simp_all
      ultimately show ?thesis using O lf by simp
    qed
  qed
qed

lemma read_messages:
  assumes "slice_ok h b" and "read_bufs k h f b = (r, f', b', h')"
  shows "handed_on h b h' b' \<and> (case r of
      Inl e \<Rightarrow> read_all lf_transport k f = (Inl e, f')
    | Inr outs \<Rightarrow> read_all lf_transport k f = (Inr (map (sl_get h') outs), f') \<and>
        (\<forall>out \<in> set outs. slice_ok h' out \<and> apart out (reslice b' 0 0)))"
  using assms
proof (induction k arbitrary: h f b r f' b' h')
  case 0
  then show ?case by (auto simp: handed_on_refl)
next
  case (Suc k)
  obtain r1 f1 b1 h1 where m: "ReadMessage_buf h f b = (r1, f1, b1, h1)" by (metis prod.exhaust)
  note M = read_message [OF Suc.prems(1) m]
  have ok1: "slice_ok h1 b1" using M by (simp add: handed_on_def)
  show ?case
  proof (cases r1)
    case (Inl e)
    with Suc.prems(2) m M show ?thesis by (auto simp: lf_transport_def)
  next
    case (Inr out)
    obtain r2 f2 b2 h2 where n: "read_bufs k h1 f1 b1 = (r2, f2, b2, h2)" by (metis prod.exhaust)
    note IH = Suc.IH [OF ok1 n]
    have on: "handed_on h b h2 b2" using handed_on_trans M IH by blast
    have "slice_ok h2 out \<and> sl_get h2 out = sl_get h1 out \<and> apart out (reslice b2 0 0)"
      using M IH Inr by (simp add: handed_on_def)
    moreover have "tr_ReadMessage lf_transport f = (Inr (sl_get h1 out), f1)" using M Inr by (simp add: lf_transport_def)
    ultimately show ?thesis
      using on Suc.prems(2) m n Inr IH by (cases r2) auto
  qed
qed

section \<open>Wiping\<close>

lemma zero_slice_upto:
  assumes "slice_ok h b" and "k \<le> sl_len b" and "0 < sl_len b"
  shows "foldl (\<lambda>h i. sl_put h (reslice b i (i + 1)) [0]) h [0..<k] =
    h[sl_arr b := overwrite (h ! sl_arr b) (sl_off b) (replicate k 0)]"
  using assms(2)
proof (induction k)
  case (Suc k)
  have b: "sl_arr b < length h" "sl_off b \<le> length (h ! sl_arr b)" using slice_ok_room [OF assms(1,3)] by simp_all
  with Suc overwrite_next [OF b(2), of "replicate k 0" "[0]"] show ?case
    by (simp add: put_at replicate_append_same)
qed simp

text \<open>\<^verbatim>\<open>zero\<close> leaves nothing of a secret in its slice, and touches nothing else.\<close>

theorem zero_wipes:
  assumes "slice_ok h b"
  shows "sl_get (zero_slice h b) b = replicate (sl_len b) 0 \<and> only_behind h (reslice b 0 0) (zero_slice h b)"
proof (cases "sl_len b = 0")
  case True
  then show ?thesis by (simp add: zero_slice_def only_behind_def)
next
  case False
  then have "zero_slice h b = sl_put h b (replicate (sl_len b) 0)"
    using zero_slice_upto [OF assms order_refl] by (simp add: zero_slice_def sl_put_def)
  with only_behind_put [OF assms, of "replicate (sl_len b) 0"] False assms show ?thesis
    by (auto simp: slice_ok_def)
qed


section \<open>Properties\<close>

text \<open>
  C13: Encoding in place is encoding. When the meta and payload slices do not reach into the room behind \<^verbatim>\<open>dst\<close>,
  \<^verbatim>\<open>EncodeFrameAppend\<close> on slices, with the header and the plaintext written into that room, the seal over the
  plaintext it reads, and the padding drawn behind it, returns a slice with exactly the bytes, and the
  error, cipher state and randomness, of the version on byte lists; on every error the slice holds what
  \<^verbatim>\<open>dst\<close> held. Nothing else that existed is written, and nothing is allocated if the capacity suffices.
\<close>
theorem encode_in_place_equivalent:
  assumes "aead_ok C" and "wf_fa f" and "slice_ok h dst" and "slice_ok h meta" and "slice_ok h payload"
    and "apart meta dst" and "apart payload dst"
    and "EncodeFrameAppend_buf C h dst f t meta payload padLen rnd = ((d, err), f', rnd', h')"
  shows "EncodeFrameAppend C (sl_get h dst) f t (sl_get h meta) (sl_get h payload) padLen rnd = ((sl_get h' d, err), f', rnd') \<and>
    slice_ok h' d \<and> only_behind h dst h' \<and>
    (sl_len dst + (33 + sl_len meta + sl_len payload + nat padLen) \<le> sl_cap dst \<longrightarrow> length h' = length h)"
  using encode_in_place [OF assms] by blast

text \<open>A heap with a buffer of 60 bytes and a payload.\<close>

definition toy_heap :: heap where
  "toy_heap = [replicate 60 7, [104, 105]]"

definition toy_dst :: slice where "toy_dst = \<lparr>sl_arr = 0, sl_off = 0, sl_len = 1, sl_cap = 60\<rparr>"
definition toy_payload :: slice where "toy_payload = \<lparr>sl_arr = 1, sl_off = 0, sl_len = 2, sl_cap = 2\<rparr>"

lemma toy_slices:
  "slice_ok toy_heap toy_dst" "slice_ok toy_heap nil_slice" "slice_ok toy_heap toy_payload"
  "apart nil_slice toy_dst" "apart toy_payload toy_dst" "apart nil_slice (reslice toy_dst 0 0)" "apart toy_payload (reslice toy_dst 0 0)"
  "sl_get toy_heap toy_dst = [7]" "sl_get toy_heap nil_slice = []" "sl_get toy_heap toy_payload = [104, 105]"
  "sl_len nil_slice = 0" "sl_len toy_payload = 2" "sl_len toy_dst = 1" "sl_cap toy_dst = 60" "length toy_heap = 2"
  by (simp_all add: slice_ok_def apart_def sl_get_def toy_heap_def toy_dst_def toy_payload_def nil_slice_def reslice_def)

theorem encode_in_place_equivalent_witness:
  "\<exists>d h'. EncodeFrameAppend_buf toy_crypto toy_heap toy_dst toy_fa FrameTCPData nil_slice toy_payload 3 [1, 2, 3] =
      ((d, None), bump toy_fa, [], h') \<and>
    sl_get h' d = [7] @ frame_wire toy_crypto toy_fa FrameTCPData [] [104, 105] [1, 2, 3] \<and> length h' = 2"
proof -
  obtain d err f' rnd' h' where e: "EncodeFrameAppend_buf toy_crypto toy_heap toy_dst toy_fa FrameTCPData nil_slice toy_payload 3 [1, 2, 3] =
      ((d, err), f', rnd', h')"
    by (metis prod.exhaust)
  have "frame_fits FrameTCPData [] [104, 105] 3" by (simp add: frame_fits_def FrameType_Valid_def ewp_consts)
  from EncodeFrameAppend_fits [OF this, of "[1, 2, 3]" toy_crypto "[7]" toy_fa]
  have a: "EncodeFrameAppend toy_crypto [7] toy_fa FrameTCPData [] [104, 105] 3 [1, 2, 3] =
      (([7] @ frame_wire toy_crypto toy_fa FrameTCPData [] [104, 105] [1, 2, 3], None), bump toy_fa, [])"
    by simp
  from encode_in_place_equivalent [OF toy_aead_ok wf_toy_fa toy_slices(1-5) e, unfolded toy_slices a] e
  show ?thesis by (intro exI [of _ d] exI [of _ h']) auto
qed

text \<open>
  C21: The reused send buffer does not show. With meta and payload outside of the buffer, the part of \<^verbatim>\<open>sendFrame\<close>
  under the mutex sends, returns and changes in the stream exactly what its version without buffer does;
  afterwards the buffer is usable for the next frame, everything outside of it holds what it held
  and is outside of the new buffer, too. A call allocates at most once, and not at all when the buffer
  has room for the frame with the largest padding.
\<close>
theorem send_buffer_equivalent:
  assumes "aead_ok C" and "wf_fa (ss_send s)" and "slice_ok h buf" and "slice_ok h meta" and "slice_ok h payload"
    and "apart meta (reslice buf 0 0)" and "apart payload (reslice buf 0 0)"
    and "sendFrame_buf T C now h s buf t meta payload padLen rnd = (err, s', buf', rnd', h')"
  shows "sendFrame_locked T C now s t (sl_get h meta) (sl_get h payload) padLen rnd = (err, s', rnd') \<and>
    handed_on h buf h' buf' \<and> length h' \<le> Suc (length h) \<and>
    (padLen \<le> MaxFramePad \<and> 33 + sl_len meta + sl_len payload + 4096 \<le> sl_cap buf \<longrightarrow> length h' = length h)"
  by (rule send_buffer [OF assms])

theorem send_buffer_equivalent_witness:
  "\<exists>err s' buf' rnd' h'. sendFrame_buf lf_transport toy_crypto 0 toy_heap (new_stream (NewLengthFramer (prompt_conn [] 1000)) toy_fa toy_fa)
      toy_dst FrameTCPData nil_slice toy_payload 3 [1, 2, 3] = (err, s', buf', rnd', h') \<and>
    sendFrame_locked lf_transport toy_crypto 0 (new_stream (NewLengthFramer (prompt_conn [] 1000)) toy_fa toy_fa)
      FrameTCPData [] [104, 105] 3 [1, 2, 3] = (err, s', rnd') \<and> slice_ok h' buf'"
proof -
  let ?s = "new_stream (NewLengthFramer (prompt_conn [] 1000)) toy_fa toy_fa"
  obtain err s' buf' rnd' h' where e: "sendFrame_buf lf_transport toy_crypto 0 toy_heap ?s toy_dst FrameTCPData nil_slice toy_payload 3 [1, 2, 3] =
      (err, s', buf', rnd', h')"
    by (metis prod.exhaust)
  have "wf_fa (ss_send ?s)" by (simp add: new_stream_def wf_toy_fa)
  from send_buffer_equivalent [OF toy_aead_ok this toy_slices(1-3,6,7) e] e show ?thesis
    by (simp add: toy_slices handed_on_def)
qed

text \<open>
  C22: A message \<^verbatim>\<open>ReadMessage\<close> has returned belongs to the caller. Any number of calls on one \<^verbatim>\<open>LengthFramer\<close>, with
  the scratch buffer handed from call to call, give the results of the version without buffer, and the slices
  they returned all hold their messages at the end: no later call has written into an earlier result.
\<close>
theorem read_messages_owned:
  assumes "slice_ok h b" and "read_bufs k h f b = (r, f', b', h')"
  shows "read_all lf_transport k f = (map_sum id (map (sl_get h')) r, f') \<and> handed_on h b h' b'"
  using read_messages [OF assms] by (cases r) auto

theorem read_messages_owned_witness:
  "\<exists>outs f' b' h'. read_bufs 2 [] (NewLengthFramer (prompt_conn (lf_enc [1, 2] @ lf_enc [3]) 0)) nil_slice = (Inr outs, f', b', h') \<and>
     map (sl_get h') outs = [[1, 2], [3]]"
proof -
  let ?f = "NewLengthFramer (prompt_conn (lf_enc [1, 2] @ lf_enc [3]) 0)"
  obtain r f' b' h' where e: "read_bufs 2 [] ?f nil_slice = (r, f', b', h')" by (metis prod.exhaust)
  have "slice_ok [] nil_slice" by (simp add: slice_ok_def nil_slice_def)
  from read_messages_owned [OF this e]
  have q: "read_all lf_transport 2 ?f = (map_sum id (map (sl_get h')) r, f')" by blast
  have "\<exists>t'. read_all lf_transport (length [[1, 2 :: byte], [3]]) ?f = (Inr [[1, 2], [3]], t') \<and> lf_open t' \<and> lf_in t' = [] \<and> lf_out t' = lf_out ?f"
    by (rule lf.read_all_in) (simp_all add: lf_open_def lf_in_def lf_ok_def NewLengthFramer_def)
  moreover have "length [[1, 2 :: byte], [3]] = 2" by simp
  ultimately have "\<exists>t'. read_all lf_transport 2 ?f = (Inr [[1, 2], [3]], t')" by metis
  with q obtain outs where o: "r = Inr outs" "map (sl_get h') outs = [[1, 2], [3]]"
    by (cases r) auto
  show ?thesis by (intro exI, rule conjI [OF e [unfolded o(1)] o(2)])
qed

end
