(* ===== verification/Spec2Isabelle.thy ===== *)
theory Spec2Isabelle
  imports Server Network Concurrency Buffers
begin

text \<open>
  A verification development for \<^verbatim>\<open>sing-ewp\<close>, the Go library of the EWP v2 proxy protocol.

  \<^bold>\<open>The program.\<close> A client dials a server over any byte stream. It sends a ClientHello sealed
  under its UUID, the server looks the UUID up, checks time and replay cache, and answers with
  a ServerHello; both derive session keys from an X25519 and an ML-KEM exchange
  (\<^verbatim>\<open>handshake.go\<close>, \<^verbatim>\<open>kdf.go\<close>, \<^verbatim>\<open>anti_replay.go\<close>). After that either side sends frames, each
  sealed with a counter as nonce and padded to a bucket (\<^verbatim>\<open>frame.go\<close>, \<^verbatim>\<open>padding_policy.go\<close>),
  through a session (\<^verbatim>\<open>securestream.go\<close>) over a message transport (\<^verbatim>\<open>LengthFramer\<close> in
  \<^verbatim>\<open>client.go\<close>). The application sees a \<^verbatim>\<open>net.Conn\<close> or a \<^verbatim>\<open>net.PacketConn\<close>
  (\<^verbatim>\<open>client.go\<close>, \<^verbatim>\<open>packetconn.go\<close>), on the server through its handler (\<^verbatim>\<open>server.go\<close>).

  \<^bold>\<open>The theories\<close>, in the order of import; definitions keep the names of the source.
  \<^item> \<^verbatim>\<open>Prelude\<close>: bytes and machine words, errors, big-endian integers, slices, readers; the
    collections \<open>ewp_consts\<close> and \<open>wire_simps\<close>.
  \<^item> \<^verbatim>\<open>Address\<close> (\<^verbatim>\<open>address.go\<close>): the codec of addresses, its round trips and errors.
  \<^item> \<^verbatim>\<open>Crypto\<close>: the packages the source calls and that are not part of it, as a record
    \<open>crypto\<close> that every operation takes, with what is relied on as predicates (\<open>aead_ok\<close>,
    \<open>aead_auth\<close>, \<open>kdf_ok\<close>, \<open>dh_ok\<close>, \<open>kem_ok\<close>), and \<open>toy_crypto\<close>, which meets all of them.
  \<^item> \<^verbatim>\<open>Kdf\<close> (\<^verbatim>\<open>kdf.go\<close>, \<^verbatim>\<open>aead.go\<close>): key schedule, outer MAC, the constants of the protocol.
  \<^item> \<^verbatim>\<open>Frame\<close> (\<^verbatim>\<open>frame.go\<close>): encoder and decoder. What is decoded was encoded in the same
    cipher state, in order, once, and no nonce under which a frame was sent is used again.
  \<^item> \<^verbatim>\<open>Padding\<close> (\<^verbatim>\<open>padding_policy.go\<close>): the pad chosen for a frame is one the encoder takes.
  \<^item> \<^verbatim>\<open>Replay\<close> (\<^verbatim>\<open>anti_replay.go\<close>): the sweeping cache refines a table that forgets nothing.
  \<^item> \<^verbatim>\<open>Handshake\<close>, \<^verbatim>\<open>Agreement\<close> (\<^verbatim>\<open>handshake.go\<close>): the codecs of both hellos; then the protocol:
    honest sides agree on keys, what each side has checked when it completes, how long a
    replayed hello is refused.
  \<^item> \<^verbatim>\<open>Transport\<close> (\<^verbatim>\<open>client.go\<close>): connections, \<^verbatim>\<open>LengthFramer\<close>, and the contract of a
    message transport as the locale \<open>message_transport\<close>, interpreted on \<^verbatim>\<open>LengthFramer\<close> as
    \<open>lf\<close>, with its extension \<open>deadline_transport\<close> for transports that have \<^verbatim>\<open>SetDeadline\<close>,
    interpreted as \<open>lfd\<close>. The session, tunnel, client and server lemmas are proved in their contexts.
  \<^item> \<^verbatim>\<open>Session\<close>, \<^verbatim>\<open>Channel\<close>, \<^verbatim>\<open>Lifecycle\<close> (\<^verbatim>\<open>securestream.go\<close>): the operations; what is sent
    arrives, what arrives was sent; the invariant of all reachable states and the types they
    keep, closing, cover traffic and the end of its loop.
  \<^item> \<^verbatim>\<open>Buffers\<close> (\<^verbatim>\<open>frame.go\<close>, \<^verbatim>\<open>securestream.go\<close>, \<^verbatim>\<open>client.go\<close>): the encoder, \<^verbatim>\<open>sendFrame\<close> and
    \<^verbatim>\<open>ReadMessage\<close> on slices of a heap, in place and with their reused buffers, are equivalent to
    the versions on byte lists.
  \<^item> \<^verbatim>\<open>Concurrency\<close> (\<^verbatim>\<open>securestream.go\<close>): goroutines that share a stream, interleaving where the
    code lets them. Every frame arrives intact, each goroutine's in its order; after \<^verbatim>\<open>Close\<close> nothing goes out;
    large writes can mix.
  \<^item> \<^verbatim>\<open>Conn\<close> (\<^verbatim>\<open>streamConn\<close> of \<^verbatim>\<open>client.go\<close>), \<^verbatim>\<open>Packet\<close> (\<^verbatim>\<open>packetconn.go\<close>): a TCP tunnel is a
    byte stream, a UDP tunnel a sequence of datagrams; when reading from them returns, and with
    what; closing them returns, in time.
  \<^item> \<^verbatim>\<open>Network\<close>: an attacker who rewrites the bytes on the wire but cannot forge ciphertexts can
    only cut a session or a TCP tunnel short.
  \<^item> \<^verbatim>\<open>Client\<close> (\<^verbatim>\<open>client.go\<close>), \<^verbatim>\<open>Server\<close> (\<^verbatim>\<open>server.go\<close>): dialling and serving. Only users are
    served, a refused connection is closed, the lookup is that of the current users, and both
    handshakes are over by the deadline of their context.
  \<^item> This theory: dialling, serving, writing and reading put together.

  \<^bold>\<open>State.\<close> A structure of the source is a record, passed in and returned; a connection is
  what is still to be read from it, what has been written, how much more it will take, its
  clock, how long each operation takes, its deadlines, whether the peer stays silent behind the
  last byte, and whether it is closed. A Go result with an error is a sum, a panic the error \<open>Panic\<close>. The
  random source is the list of bytes it will still deliver, and each call of \<^verbatim>\<open>time.Now()\<close> an
  argument. A call that holds a mutex is one step; \<^verbatim>\<open>WriteToAddress\<close> and \<^verbatim>\<open>sendFrame\<close>, which test
  a field before they take the mutex, are split there.

  \<^bold>\<open>Loops.\<close> No fuel is used. Loops over a payload are total functions; the loops of \<^verbatim>\<open>Read\<close> and
  \<^verbatim>\<open>ReadFrom\<close>, which the peer can prolong, are \<open>partial_function\<close>s, \<open>None\<close> being a call that never
  returns. \<open>stream_read_outcome\<close> and \<open>packet_read_outcome\<close> say, over any transport, when that is:
  exactly when the peer sends frames to be passed over for ever, which a read deadline rules out. On a
  \<open>net_conn\<close>, whose input is finite, they always return (\<open>stream_read_returns\<close>,
  \<open>packet_read_returns\<close>). The cover-traffic loop returns once the stream is closed. A read
  from a silent peer ends at the deadline; without one the clock goes to \<open>\<infinity>\<close>, which is a call
  that does not return.

  \<^bold>\<open>Not modelled.\<close> The text forms of addresses (\<^verbatim>\<open>Address.String\<close>, \<^verbatim>\<open>FqdnAddr\<close>; for logs only);
  the places where \<^verbatim>\<open>zero\<close> is called (\<^verbatim>\<open>zero\<close> itself is, in \<^verbatim>\<open>Buffers\<close>; it wipes memory that is
  not read again); the floating-point arithmetic of the jitter, whose result is a field of the
  configuration; interleavings inside a call other than those of \<^verbatim>\<open>Concurrency\<close> and of
  \<^verbatim>\<open>WriteToAddress\<close>; running out of memory, also by the
  buffer \<^verbatim>\<open>sendFrame\<close> makes for an absurd pad length before the encoder refuses it; the handler (the application), and the
  cryptographic packages, which are parameters.
\<close>

section \<open>A tunnel from end to end\<close>

text \<open>The two ends of a TCP tunnel after the handshake: what the client then sends, the server reads.\<close>

lemma tcp_after_handshake:
  assumes "aead_ok C" and "wf_fa fc"
    and "conn_ops lf_transport C now (new_streamConn (new_stream trc fc fs)) ops rnd = (None, c', rnd')"
    and "lf_out (ss_tr (sc_stream c')) = lf_out trc @ v" and "lf_open trs" and "lf_in trs = v @ rest"
  shows "\<exists>d'. conn_read_full lf_transport C (length (concat (map conn_op_bytes ops))) (new_streamConn (new_stream trs fs fc)) =
    Some (Inr (concat (map conn_op_bytes ops)), d')"
proof -
  let ?d = "new_streamConn (new_stream trs fs fc)"
  have "lf.stream_of C ?d (sc_readBuf ?d @ concat (map conn_op_bytes ops)) rest"
    by (rule lf.conn_ops_stream_of [OF assms(3)])
      (use assms in \<open>simp_all add: new_streamConn_def new_stream_def\<close>)
  then have "lf.stream_of C ?d (concat (map conn_op_bytes ops) @ []) rest"
    by (simp add: new_streamConn_def)
  from lf.read_full_stream_of [OF assms(1) this] show ?thesis by blast
qed

lemma conn_ops_out:
  assumes "conn_ops lf_transport C now c ops rnd = (None, c', rnd')"
  obtains v where "lf_out (ss_tr (sc_stream c')) = lf_out (ss_tr (sc_stream c)) @ v"
  using lf.conn_ops_run [OF assms] unfolding lf.sent_run_def by blast

text \<open>A stream that is open on an open connection with room for \<open>n\<close> more bytes, nothing timing out.\<close>

definition usable :: "nat \<Rightarrow> LengthFramer SecureStream \<Rightarrow> bool" where
  "usable n s \<longleftrightarrow> \<not> ss_closed s \<and> wf_fa (ss_send s) \<and> conn_ready (lf_c (ss_tr s)) \<and> n \<le> nc_room (lf_c (ss_tr s))"

text \<open>
  A client and a service that fit. The cryptography is what it should be; the client has a
  16-byte UUID and an encodable destination and, with the randomness \<open>rnd\<close> at time \<open>t0\<close>, writes
  the hello \<open>msg\<close>; its UUID is a user of the service, and the only one with its MAC for this
  hello; the clocks differ by at most 120 seconds; the hello is new to the replay cache; and the
  server's key generation succeeds.
\<close>

definition honest_pair ::
  "crypto \<Rightarrow> int \<Rightarrow> int \<Rightarrow> int \<Rightarrow> int \<Rightarrow> int \<Rightarrow> bytes \<Rightarrow> byte \<Rightarrow> Address \<Rightarrow> bytes \<Rightarrow> bytes \<Rightarrow> bytes \<Rightarrow> Service \<Rightarrow> bytes \<Rightarrow> bool" where
  "honest_pair C t0 t1 t2 t3 t4 uuid cmd dst rnd rnd' msg s rnd2 \<longleftrightarrow>
     aead_ok C \<and> kdf_ok C \<and> dh_ok C \<and> kem_ok C \<and> length uuid = 16 \<and> encodable dst \<and>
     (\<exists>st. WriteClientHello C t0 (\<lambda>q m. (None, q @ [m])) [] uuid cmd dst rnd = (Inr st, [msg], rnd') \<and>
        fresh_in (sv_replay s) t2 uuid (cs_nonce st)) \<and>
     service_reach C s \<and> uuid \<in> set (Users s) \<and>
     (\<forall>u \<in> set (Users s). OuterMAC C u (take (length msg - 16) msg) = OuterMAC C uuid (take (length msg - 16) msg) \<longrightarrow> u = uuid) \<and>
     0 \<le> t0 \<and> t0 < 2 ^ 32 \<and> absDiff t0 t1 \<le> 120 \<and> 0 \<le> t3 \<and> t3 < 2 ^ 32 \<and> absDiff t3 t4 \<le> 120 \<and>
     (\<exists>b rnd2'. x25519_GenerateKey C rnd2 = (Some b, rnd2'))"

text \<open>
  What \<open>dial_and_serve\<close> gives of either side, as predicates: the client completes on any
  connection that brings the answer \<open>out\<close> in time, the server on any that brings the hello \<open>msg\<close>.
\<close>

definition dials ::
  "crypto \<Rightarrow> int \<Rightarrow> int \<Rightarrow> bytes \<Rightarrow> byte \<Rightarrow> Address \<Rightarrow> bytes \<Rightarrow> bytes \<Rightarrow> FrameAEAD \<Rightarrow> FrameAEAD \<Rightarrow> bytes \<Rightarrow> bytes \<Rightarrow> bool" where
  "dials C t0 t4 uuid cmd dst rnd rnd' fc fs msg out \<longleftrightarrow>
     (\<forall>ctx tr rest. conn_admits ctx (lf_c tr) \<longrightarrow> lf_in tr = lf_enc out @ rest \<longrightarrow> 3000 \<le> nc_room (lf_c tr) \<longrightarrow>
       (\<exists>tr'. handshake lf_transport C t0 t4 ctx \<lparr>cl_uuid = uuid\<rparr> tr cmd dst rnd = (Inr (new_stream tr' fc fs), rnd') \<and>
         moved tr msg rest tr'))"

definition serves ::
  "crypto \<Rightarrow> int \<Rightarrow> int \<Rightarrow> int \<Rightarrow> Service \<Rightarrow> bytes \<Rightarrow> ClientHello \<Rightarrow> FrameAEAD \<Rightarrow> FrameAEAD \<Rightarrow> bytes \<Rightarrow> bytes \<Rightarrow> bool" where
  "serves C t1 t2 t3 s rnd ch fc fs msg out \<longleftrightarrow>
     (\<exists>s' rnd'. \<forall>ctx tr rest U. conn_admits ctx (lf_c tr) \<longrightarrow> lf_in tr = lf_enc msg @ rest \<longrightarrow> 3000 \<le> nc_room (lf_c tr) \<longrightarrow>
       (\<exists>tr'. handleTransport lf_transport C t1 t2 t3 ctx s U tr rnd =
           (serve_command lf_transport C U ch (new_stream tr' fs fc), s', rnd') \<and>
         moved tr out rest tr' \<and> nc_rdl (lf_c tr') = \<infinity>))"

lemma handshake_completes:
  assumes "honest_pair C t0 t1 t2 t3 t4 uuid cmd dst rnd rnd' msg s rnd2"
  obtains out ch fc fs where "wf_fa fc" "wf_fa fs" "ch_UUID ch = uuid" "ch_Command ch = cmd" "ch_Address ch = canon dst"
    "dials C t0 t4 uuid cmd dst rnd rnd' fc fs msg out" "serves C t1 t2 t3 s rnd2 ch fc fs msg out"
proof -
  from assms obtain st b rnd2' where h: "aead_ok C" "kdf_ok C" "dh_ok C" "kem_ok C" "length uuid = 16" "encodable dst"
      "WriteClientHello C t0 (\<lambda>q m. (None, q @ [m])) [] uuid cmd dst rnd = (Inr st, [msg], rnd')"
      "service_reach C s" "uuid \<in> set (sv_users s)"
      "\<forall>u \<in> set (sv_users s). OuterMAC C u (take (length msg - 16) msg) = OuterMAC C uuid (take (length msg - 16) msg) \<longrightarrow> u = uuid"
      "0 \<le> t0" "t0 < 2 ^ 32" "absDiff t0 t1 \<le> 120" "0 \<le> t3" "t3 < 2 ^ 32" "absDiff t3 t4 \<le> 120"
      "fresh_in (sv_replay s) t2 uuid (cs_nonce st)" "x25519_GenerateKey C rnd2 = (Some b, rnd2')"
    unfolding honest_pair_def Users_def by blast
  have s: "sv_lookup s = Some (MakeUUIDLookup C (sv_users s))"
    using service_reach_inv [OF h(8)] by (simp add: service_inv_def)
  show thesis
    by (rule dial_and_serve [OF h(1-7) s h(9-18)], rule that)
      (unfold dials_def serves_def, assumption+, blast, blast)
qed

lemma honest_pair_facts:
  assumes "honest_pair C t0 t1 t2 t3 t4 uuid cmd dst rnd rnd' msg s rnd2"
  shows "aead_ok C" "encodable dst"
  using assms by (simp_all add: honest_pair_def)

lemma dials_DialConn:
  assumes "dials C t0 t4 uuid CommandTCP dst rnd rnd' fc fs msg out"
    and "conn_admits ctx conn" and "3000 \<le> nc_room conn" and "nc_in conn = lf_enc out @ rest"
  obtains tr where "DialConn C t0 t4 ctx \<lparr>cl_uuid = uuid\<rparr> conn dst rnd = (Inr (new_streamConn (new_stream tr fc fs)), rnd')"
    "moved (NewLengthFramer conn) msg rest tr" "wf_fa fc \<Longrightarrow> usable (nc_room conn - 3000) (new_stream tr fc fs)"
proof -
  obtain tr where "handshake lf_transport C t0 t4 ctx \<lparr>cl_uuid = uuid\<rparr> (NewLengthFramer conn) CommandTCP dst rnd =
      (Inr (new_stream tr fc fs), rnd')" "moved (NewLengthFramer conn) msg rest tr"
    using assms(1) [unfolded dials_def, rule_format, of ctx "NewLengthFramer conn" rest] assms(2-4)
    by (auto simp: lf_in_def NewLengthFramer_def)
  then show thesis
    by (intro that) (auto simp: DialConn_def usable_def new_stream_def moved_def lf_open_def NewLengthFramer_def)
qed

lemma serves_HandleConn:
  assumes "serves C t1 t2 t3 s rnd ch fc fs msg out"
    and "conn_admits ctx conn" and "3000 \<le> nc_room conn" and "nc_in conn = lf_enc msg @ rest"
  obtains tr s' rnd' where "HandleConn C t1 t2 t3 ctx s conn rnd =
      (serve_command lf_transport C (Some lf_underlying) ch (new_stream tr fs fc), s', rnd')"
    "moved (NewLengthFramer conn) out rest tr" "nc_rdl (lf_c tr) = \<infinity>"
proof -
  obtain s' rnd' where h: "\<forall>ctx tr rest U. conn_admits ctx (lf_c tr) \<longrightarrow> lf_in tr = lf_enc msg @ rest \<longrightarrow> 3000 \<le> nc_room (lf_c tr) \<longrightarrow>
      (\<exists>tr'. handleTransport lf_transport C t1 t2 t3 ctx s U tr rnd =
          (serve_command lf_transport C U ch (new_stream tr' fs fc), s', rnd') \<and>
        moved tr out rest tr' \<and> nc_rdl (lf_c tr') = \<infinity>)"
    using assms(1) unfolding serves_def by blast
  show thesis
    using h [rule_format, of ctx "NewLengthFramer conn" rest "Some lf_underlying"] assms(2-4)
    by (auto simp: HandleConn_def lf_in_def NewLengthFramer_def intro: that)
qed

text \<open>A TCP command reaches the handler's \<^verbatim>\<open>NewConnection\<close> with the address of the peer.\<close>

lemma serve_tcp:
  assumes "ch_UUID ch = uuid" and "ch_Command ch = CommandTCP" and "ch_Address ch = a" and "moved (NewLengthFramer conn) out rest tr"
  shows "serve_command lf_transport C (Some lf_underlying) ch (new_stream tr fs fc) =
    NewConnection (new_streamConn (new_stream tr fs fc)) \<lparr>md_UserUUID = uuid, md_Destination = a, md_Source = nc_raddr conn\<rparr>"
  using assms by (simp add: serve_command_def new_stream_def lf_underlying_def moved_def NewLengthFramer_def)

lemma tcp_served:
  assumes "aead_ok C" and f: "wf_fa fc" "ch_UUID ch = uuid" "ch_Command ch = CommandTCP" "ch_Address ch = a"
    and s: "serves C t1 t2 t3 s rnd ch fc fs msg out" and m: "lf_out trc = lf_enc msg"
    and o: "conn_ops lf_transport C now (new_streamConn (new_stream trc fc fs)) ops r = (None, c', r')"
    and sc: "conn_admits ctx sconn" "3000 \<le> nc_room sconn" "nc_in sconn = nc_out (lf_c (ss_tr (sc_stream c'))) @ rest"
  shows "\<exists>d s' r3 d'. HandleConn C t1 t2 t3 ctx s sconn rnd =
      (NewConnection d \<lparr>md_UserUUID = uuid, md_Destination = a, md_Source = nc_raddr sconn\<rparr>, s', r3) \<and>
    nc_out (lf_c (ss_tr (sc_stream d))) = nc_out sconn @ lf_enc out \<and>
    conn_read_full lf_transport C (length (concat (map conn_op_bytes ops))) d = Some (Inr (concat (map conn_op_bytes ops)), d')"
proof -
  obtain v where v: "lf_out (ss_tr (sc_stream c')) = lf_out trc @ v"
    using conn_ops_out [OF o] by (auto simp: new_streamConn_def new_stream_def)
  have i: "nc_in sconn = lf_enc msg @ v @ rest"
    using sc(3) v m by (simp add: lf_out_def)
  obtain trs s' r3 where h: "HandleConn C t1 t2 t3 ctx s sconn rnd =
      (serve_command lf_transport C (Some lf_underlying) ch (new_stream trs fs fc), s', r3)"
    "moved (NewLengthFramer sconn) out (v @ rest) trs"
    by (rule serves_HandleConn [OF s sc(1,2) i])
  have t: "lf_open trs" "lf_in trs = v @ rest" "lf_out trs = nc_out sconn @ lf_enc out"
    using h(2) by (simp_all add: moved_def lf_out_def NewLengthFramer_def)
  obtain d' where "conn_read_full lf_transport C (length (concat (map conn_op_bytes ops))) (new_streamConn (new_stream trs fs fc)) =
      Some (Inr (concat (map conn_op_bytes ops)), d')"
    using tcp_after_handshake [OF assms(1) f(1) o v t(1,2)] by blast
  with h(1) serve_tcp [OF f(2-4) h(2)] t(3) show ?thesis
    by (intro exI [of _ "new_streamConn (new_stream trs fs fc)"] exI [of _ s'] exI [of _ r3] exI [of _ d'])
      (simp add: new_streamConn_def new_stream_def lf_out_def)
qed

text \<open>The other direction: what the handler sends, the client that dialled reads.\<close>

lemma tcp_answered:
  assumes "aead_ok C" and f: "wf_fa fc" "wf_fa fs"
    and d: "dials C t0 t4 uuid CommandTCP dst rnd rnd' fc fs msg out" and m: "lf_out trs = lf_enc out"
    and o: "conn_ops lf_transport C now (new_streamConn (new_stream trs fs fc)) ops r = (None, d', r')"
    and cc: "conn_admits ctx cconn" "3000 \<le> nc_room cconn" "nc_in cconn = nc_out (lf_c (ss_tr (sc_stream d'))) @ rest"
  shows "\<exists>c c'. DialConn C t0 t4 ctx \<lparr>cl_uuid = uuid\<rparr> cconn dst rnd = (Inr c, rnd') \<and>
    nc_out (lf_c (ss_tr (sc_stream c))) = nc_out cconn @ lf_enc msg \<and>
    conn_read_full lf_transport C (length (concat (map conn_op_bytes ops))) c = Some (Inr (concat (map conn_op_bytes ops)), c')"
proof -
  obtain v where v: "lf_out (ss_tr (sc_stream d')) = lf_out trs @ v"
    using conn_ops_out [OF o] by (auto simp: new_streamConn_def new_stream_def)
  have i: "nc_in cconn = lf_enc out @ v @ rest"
    using cc(3) v m by (simp add: lf_out_def)
  obtain trc where c: "DialConn C t0 t4 ctx \<lparr>cl_uuid = uuid\<rparr> cconn dst rnd = (Inr (new_streamConn (new_stream trc fc fs)), rnd')"
    "moved (NewLengthFramer cconn) msg (v @ rest) trc"
    by (rule dials_DialConn [OF d cc(1,2) i])
  have t: "lf_open trc" "lf_in trc = v @ rest" "lf_out trc = nc_out cconn @ lf_enc msg"
    using c(2) by (simp_all add: moved_def lf_out_def NewLengthFramer_def)
  obtain c' where "conn_read_full lf_transport C (length (concat (map conn_op_bytes ops))) (new_streamConn (new_stream trc fc fs)) =
      Some (Inr (concat (map conn_op_bytes ops)), c')"
    using tcp_after_handshake [OF assms(1) f(2) o v t(1,2)] by blast
  with c(1) t(3) show ?thesis
    by (intro exI [of _ "new_streamConn (new_stream trc fc fs)"] exI [of _ c'])
      (simp add: new_streamConn_def new_stream_def lf_out_def)
qed

text \<open>The two ends of a UDP tunnel after the handshake.\<close>

lemma udp_events_sent:
  assumes "write_datagrams lf_transport C now p ((b, a) # ds) rnd = (None, p', rnd')" and "\<not> pc_isServer p" and "\<not> pc_opened p"
    and "length (pc_globalID p) = 8" and "wf_Address (pc_defaultDst p)" and "\<forall>d \<in> set ds. wf_Address (snd d)"
  shows "lf.sent_run C (pc_stream p) (udp_event FrameUDPNew (pc_globalID p) (pc_defaultDst p) b #
    map (\<lambda>d. udp_event FrameUDPData (pc_globalID p) (snd d) (fst d)) ds) (pc_stream p')"
proof -
  obtain k p1 r1 where w: "WriteToAddress lf_transport C (now (length ds)) p b a rnd = ((k, None), p1, r1)"
    and r: "write_datagrams lf_transport C now p1 ds r1 = (None, p', rnd')"
    using assms(1) by (auto split: prod.splits option.splits)
  have f: "p1 = p\<lparr>pc_stream := pc_stream p1, pc_opened := True\<rparr>"
    "lf.sent_run C (pc_stream p) [udp_event FrameUDPNew (pc_globalID p) (pc_defaultDst p) b] (pc_stream p1)"
    using lf.WriteToAddress_first [OF w assms(2-5)] by blast+
  have "pc_opened p1" "pc_globalID p1 = pc_globalID p"
    using arg_cong [OF f(1), of pc_opened] arg_cong [OF f(1), of pc_globalID] by simp_all
  then have "lf.sent_run C (pc_stream p1) (map (\<lambda>d. udp_event FrameUDPData (pc_globalID p) (snd d) (fst d)) ds) (pc_stream p')"
    using lf.write_datagrams_run [OF r] assms(4,6) by simp
  from lf.sent_run_trans [OF f(2) this] show ?thesis by simp
qed

lemma udp_read_served:
  assumes "aead_ok C" and "b \<noteq> []"
    and "lf.incoming C stream (map (\<lambda>d. udp_event FrameUDPData gid (snd d) (fst d)) ds) rest"
  shows "\<exists>q'. read_datagrams lf_transport C n (Suc (length ds)) (newServerPacketConn stream gid dst b) =
    Some (Inr ((take n b, ewpToNetAddr dst) #
      map (\<lambda>d. (take n (fst d), ewpToNetAddr (if has_target (snd d) then canon (snd d) else dst))) ds), q')"
proof -
  let ?q = "(newServerPacketConn stream gid dst b)\<lparr>pc_pendingFirst := None\<rparr>"
  let ?evs = "map (\<lambda>d. udp_event FrameUDPData gid (snd d) (fst d)) ds"
  have q: "pc_globalID ?q = gid" "pc_defaultDst ?q = dst" "pc_stream ?q = stream" "pc_pendingFirst ?q = None"
    by (simp_all add: newServerPacketConn_def)
  have "list_all (\<lambda>ev. own_datagram gid ev \<or> passed_over gid ev) ?evs"
    using datagram_events(2) [of gid ds] by (auto simp: list_all_iff)
  then obtain q' where "read_datagrams lf_transport C n (length ds) ?q = Some (Inr (map (datagram_of n dst) ?evs), q')"
    using lf.read_datagrams_incoming [OF assms(1), of ?q ?evs rest n] assms(3) unfolding q datagram_events(1) by auto
  moreover have "ReadFrom lf_transport C n (newServerPacketConn stream gid dst b) = Some (Inr (take n b, ewpToNetAddr dst), ?q)"
    using assms(2) by (simp add: ReadFrom_def newServerPacketConn_def)
  ultimately show ?thesis by (simp add: comp_def datagram_of_udp_event)
qed

lemma udp_served:
  assumes "aead_ok C" and f: "wf_fa fc" "ch_UUID ch = uuid" "ch_Command ch = CommandUDP" "ch_Address ch = canon dst"
    and s: "serves C t1 t2 t3 s rnd ch fc fs msg out" and m: "lf_out trc = lf_enc msg" and e: "encodable dst"
    and p: "pc_stream p = new_stream trc fc fs" "pc_defaultDst p = dst" "\<not> pc_isServer p" "\<not> pc_opened p" "length (pc_globalID p) = 8"
    and w: "b \<noteq> []" "\<forall>d \<in> set ds. wf_Address (snd d)" "write_datagrams lf_transport C now p ((b, a) # ds) r = (None, p', r')"
    and sc: "conn_admits ctx sconn" "3000 \<le> nc_room sconn" "nc_in sconn = nc_out (lf_c (ss_tr (pc_stream p'))) @ rest"
  shows "\<exists>q s' r3 q'. HandleConn C t1 t2 t3 ctx s sconn rnd =
      (NewPacketConnection q \<lparr>md_UserUUID = uuid, md_Destination = canon dst, md_Source = nc_raddr sconn\<rparr>, s', r3) \<and>
    read_datagrams lf_transport C n (Suc (length ds)) q = Some (Inr ((take n b, ewpToNetAddr (canon dst)) #
      map (\<lambda>d. (take n (fst d), ewpToNetAddr (if has_target (snd d) then canon (snd d) else canon dst))) ds), q')"
proof -
  let ?ev = "udp_event FrameUDPNew (pc_globalID p) dst b"
  let ?evs = "map (\<lambda>d. udp_event FrameUDPData (pc_globalID p) (snd d) (fst d)) ds"
  have "wf_Address (pc_defaultDst p)" "has_target dst"
    using e p(2) by (auto simp: encodable_def has_target_def split: if_splits)
  then have run: "lf.sent_run C (new_stream trc fc fs) (?ev # ?evs) (pc_stream p')"
    using udp_events_sent [OF w(3) p(3-5) _ w(2)] p(1,2) by simp
  then obtain v where v: "lf_out (ss_tr (pc_stream p')) = lf_out trc @ v"
    unfolding lf.sent_run_def by (auto simp: new_stream_def)
  have i: "nc_in sconn = lf_enc msg @ v @ rest"
    using sc(3) v m by (simp add: lf_out_def)
  obtain trs s' r3 where h: "HandleConn C t1 t2 t3 ctx s sconn rnd =
      (serve_command lf_transport C (Some lf_underlying) ch (new_stream trs fs fc), s', r3)"
    "moved (NewLengthFramer sconn) out (v @ rest) trs"
    by (rule serves_HandleConn [OF s sc(1,2) i])
  have t: "lf_open trs" "lf_in trs = v @ rest" "nc_raddr (lf_c trs) = nc_raddr sconn"
    using h(2) by (simp_all add: moved_def NewLengthFramer_def)
  have "lf.incoming C (new_stream trs fs fc) (?ev # ?evs) rest"
    by (rule lf.sent_run_incoming [OF run]) (use f(1) t v in \<open>simp_all add: new_stream_def\<close>)
  from lf.incoming_Recv [OF assms(1) this] obtain stream where
    R: "Recv lf_transport C (new_stream trs fs fc) = (Inr ?ev, stream)" "lf.incoming C stream ?evs rest"
    by blast
  have "serve_command lf_transport C (Some lf_underlying) ch (new_stream trs fs fc) =
      NewPacketConnection (newServerPacketConn stream (pc_globalID p) (canon dst) b)
        \<lparr>md_UserUUID = uuid, md_Destination = canon dst, md_Source = nc_raddr sconn\<rparr>"
    using R(1) f \<open>has_target dst\<close> t(3)
    by (simp add: serve_command_def udp_event_def lf_underlying_def new_stream_def CommandTCP_def CommandUDP_def)
  with h(1) udp_read_served [OF assms(1) w(1) R(2), of n "canon dst"] show ?thesis by simp
qed

lemma dials_DialPacketConn:
  assumes "dials C t0 t4 uuid CommandUDP dst rnd rnd' fc fs msg out" and "8 \<le> length rnd'"
    and "conn_admits ctx conn" and "3000 \<le> nc_room conn" and "nc_in conn = lf_enc out @ rest" and "nc_out conn = []"
  obtains p tr rnd'' where "DialPacketConn C t0 t4 ctx \<lparr>cl_uuid = uuid\<rparr> conn dst rnd = (Inr p, rnd'')" "lf_out tr = lf_enc msg"
    "pc_stream p = new_stream tr fc fs" "pc_defaultDst p = dst" "\<not> pc_isServer p" "\<not> pc_opened p" "length (pc_globalID p) = 8"
    "wf_fa fc \<Longrightarrow> usable (nc_room conn - 3000) (pc_stream p)"
proof -
  obtain tr where h: "handshake lf_transport C t0 t4 ctx \<lparr>cl_uuid = uuid\<rparr> (NewLengthFramer conn) CommandUDP dst rnd =
      (Inr (new_stream tr fc fs), rnd')" "moved (NewLengthFramer conn) msg rest tr"
    using assms(1) [unfolded dials_def, rule_format, of ctx "NewLengthFramer conn" rest] assms(3-5)
    by (auto simp: lf_in_def NewLengthFramer_def)
  have t: "lf_out tr = lf_enc msg" "lf_open tr" "nc_room conn \<le> nc_room (lf_c tr) + 3000"
    using h(2) assms(6) by (simp_all add: moved_def lf_out_def NewLengthFramer_def)
  moreover have "newClientPacketConn (new_stream tr fc fs) dst rnd' =
      (Inr \<lparr>pc_stream = new_stream tr fc fs, pc_globalID = take 8 rnd', pc_defaultDst = dst, pc_isServer = False,
            pc_pendingFirst = None, pc_pendingFirstSrc = Address_zero, pc_opened = False,
            pc_closeOnce = False, pc_closeErr = None\<rparr>, drop 8 rnd')"
    using assms(2) by (simp add: newClientPacketConn_def NewGlobalID_def io_ReadFull_def)
  ultimately show thesis
    using h(1) assms(2) by (intro that [OF _ t(1)]) (auto simp: DialPacketConn_def usable_def new_stream_def lf_open_def le_diff_conv)
qed

text \<open>What is left of the randomness after a hello.\<close>

lemma SuggestPadLen_rnd: "length rnd \<le> length (snd (SuggestPadLen lo hi rnd)) + 4"
  by (auto simp: SuggestPadLen_def io_ReadFull_def Let_def split: if_splits prod.splits sum.splits)

lemma EncodeClientHello_rnd: "length rnd \<le> length (snd (EncodeClientHello C ch rnd)) + 1028"
proof -
  obtain n r where n: "SuggestPadLen MinHandshakePad MaxHandshakePad rnd = (n, r)"
    by (metis prod.exhaust)
  with SuggestPadLen_rnd [of rnd MinHandshakePad MaxHandshakePad] pad_range [OF n] show ?thesis
    by (auto simp: EncodeClientHello_def io_ReadFull_def Let_def split: prod.split option.split sum.split)
qed

lemma WriteClientHello_rnd:
  assumes "WriteClientHello C now send tr uuid cmd addr rnd = (Inr s, tr', rnd')"
    and "x25519_GenerateKey C rnd = (Some priv, r1)" and "mlkem_GenerateKey C r1 = (Some dk, r2)"
  shows "length r2 \<le> length rnd' + 1040"
proof -
  obtain nonce r3 hello w where r: "io_ReadFull 12 r2 = (Inr nonce, r3)" "EncodeClientHello C hello r3 = (Inr w, rnd')"
    using assms by (auto simp: WriteClientHello_def ewp_consts Let_def split: if_splits prod.splits option.splits sum.splits)
  with EncodeClientHello_rnd [of r3 C hello] show ?thesis
    by (auto simp: io_ReadFull_def split: if_splits)
qed

lemma toy_hello:
  assumes "cmd = CommandTCP \<or> cmd = CommandUDP"
  obtains st msg rnd' where "WriteClientHello toy_crypto t (\<lambda>q m. (None, q @ [m])) [] toy_uuid cmd
       (Address_zero\<lparr>addr_Domain := [97, 98], addr_Port := 443\<rparr>) (replicate 2000 0) = (Inr st, [msg], rnd')"
    "8 \<le> length rnd'"
proof -
  have g: "x25519_GenerateKey toy_crypto (replicate 2000 0) = (Some (replicate 32 0), replicate 1968 0)"
    "mlkem_GenerateKey toy_crypto (replicate 1968 0) = (Some (replicate 64 0), replicate 1904 0)"
    by (simp_all add: toy_crypto_def toy_gen_def)
  obtain st msg rnd' where w: "WriteClientHello toy_crypto t (\<lambda>q m. (None, q @ [m])) [] toy_uuid cmd
       (Address_zero\<lparr>addr_Domain := [97, 98], addr_Port := 443\<rparr>) (replicate 2000 0) = (Inr st, [msg], rnd')"
    by (rule WriteClientHello_sends [OF toy_kdf_ok toy_dh_ok toy_kem_ok length_replicate toy_addr(1) assms g]) simp_all
  moreover have "8 \<le> length rnd'"
    using WriteClientHello_rnd [OF w g] by simp
  ultimately show thesis by (rule that)
qed

lemma toy_pair:
  assumes "cmd = CommandTCP \<or> cmd = CommandUDP"
  obtains s msg rnd' where "honest_pair toy_crypto 1000 1010 1010 1011 1005 toy_uuid cmd (Address_zero\<lparr>addr_Domain := [97, 98], addr_Port := 443\<rparr>)
      (replicate 2000 0) rnd' msg s (replicate 200 7)" "8 \<le> length rnd'"
proof -
  obtain st msg rnd' where w: "WriteClientHello toy_crypto 1000 (\<lambda>q m. (None, q @ [m])) [] toy_uuid cmd
       (Address_zero\<lparr>addr_Domain := [97, 98], addr_Port := 443\<rparr>) (replicate 2000 0) = (Inr st, [msg], rnd')" "8 \<le> length rnd'"
    by (rule toy_hello [OF assms])
  obtain s where s: "service_reach toy_crypto s" "sv_users s = [toy_uuid]" "sv_replay s = Some (NewReplayCache ReplayWindow)"
    using toy_service_user by blast
  have "fresh_in (sv_replay s) 1010 toy_uuid (cs_nonce st)"
    by (simp add: s(3) fresh_in_def rc_live_def spec_live_def NewReplayCache_def)
  with w s toy_server_keygen toy_addr(1) toy_aead_ok toy_kdf_ok toy_dh_ok toy_kem_ok
  have "honest_pair toy_crypto 1000 1010 1010 1011 1005 toy_uuid cmd (Address_zero\<lparr>addr_Domain := [97, 98], addr_Port := 443\<rparr>)
      (replicate 2000 0) rnd' msg s (replicate 200 7)"
    unfolding honest_pair_def Users_def absDiff_def by (intro conjI) auto
  from this w(2) show thesis by (rule that)
qed

text \<open>
  C1: A TCP tunnel works from end to end. Let a client and a service fit (\<open>honest_pair\<close>). Then
  there is an answer such that, with it on the client's connection, in time for the deadline
  of the context if there is one, \<^verbatim>\<open>DialConn\<close> succeeds with an open tunnel; and
  with all the client has put on its connection (the hello and then any calls of \<^verbatim>\<open>Write\<close>,
  pings, pongs and cover frames that succeeded) on the server's, in time for its deadline,
  \<^verbatim>\<open>HandleConn\<close> sends that answer, calls the handler with this user, this destination and the
  peer's address, and the handler's \<^verbatim>\<open>Read\<close>s return exactly the bytes written.
\<close>
theorem tcp_end_to_end:
  assumes "honest_pair C t0 t1 t2 t3 t4 uuid CommandTCP dst rnd rnd' msg s rnd2"
  shows "\<exists>ans. \<forall>ctx cconn rest. conn_admits ctx cconn \<and> 3000 \<le> nc_room cconn \<and> nc_out cconn = [] \<and> nc_in cconn = ans @ rest \<longrightarrow>
    (\<exists>c. DialConn C t0 t4 ctx \<lparr>cl_uuid = uuid\<rparr> cconn dst rnd = (Inr c, rnd') \<and> usable (nc_room cconn - 3000) (sc_stream c) \<and>
      (\<forall>now ops r c' r' ctx' sconn rest'. conn_ops lf_transport C now c ops r = (None, c', r') \<and>
         conn_admits ctx' sconn \<and> 3000 \<le> nc_room sconn \<and> nc_in sconn = nc_out (lf_c (ss_tr (sc_stream c'))) @ rest' \<longrightarrow>
         (\<exists>d s' r3 d'. HandleConn C t1 t2 t3 ctx' s sconn rnd2 =
              (NewConnection d \<lparr>md_UserUUID = uuid, md_Destination = canon dst, md_Source = nc_raddr sconn\<rparr>, s', r3) \<and>
            nc_out (lf_c (ss_tr (sc_stream d))) = nc_out sconn @ ans \<and>
            conn_read_full lf_transport C (length (concat (map conn_op_bytes ops))) d =
              Some (Inr (concat (map conn_op_bytes ops)), d'))))"
proof (rule handshake_completes [OF assms])
  fix out ch fc fs
  assume f: "wf_fa fc" "ch_UUID ch = uuid" "ch_Command ch = CommandTCP" "ch_Address ch = canon dst"
    and d: "dials C t0 t4 uuid CommandTCP dst rnd rnd' fc fs msg out" "serves C t1 t2 t3 s rnd2 ch fc fs msg out"
  show ?thesis
  proof (intro exI [of _ "lf_enc out"] allI impI, elim conjE)
    fix ctx and cconn :: net_conn and rest
    assume cc: "conn_admits ctx cconn" "3000 \<le> nc_room cconn" "nc_out cconn = []" "nc_in cconn = lf_enc out @ rest"
    obtain trc where c: "DialConn C t0 t4 ctx \<lparr>cl_uuid = uuid\<rparr> cconn dst rnd = (Inr (new_streamConn (new_stream trc fc fs)), rnd')"
      "moved (NewLengthFramer cconn) msg rest trc" "usable (nc_room cconn - 3000) (new_stream trc fc fs)"
      using dials_DialConn [OF d(1) cc(1,2,4)] f(1) by blast
    have m: "lf_out trc = lf_enc msg"
      using c(2) cc(3) by (simp add: moved_def lf_out_def NewLengthFramer_def)
    show "\<exists>c. DialConn C t0 t4 ctx \<lparr>cl_uuid = uuid\<rparr> cconn dst rnd = (Inr c, rnd') \<and> usable (nc_room cconn - 3000) (sc_stream c) \<and>
      (\<forall>now ops r c' r' ctx' sconn rest'. conn_ops lf_transport C now c ops r = (None, c', r') \<and>
         conn_admits ctx' sconn \<and> 3000 \<le> nc_room sconn \<and> nc_in sconn = nc_out (lf_c (ss_tr (sc_stream c'))) @ rest' \<longrightarrow>
         (\<exists>d s' r3 d'. HandleConn C t1 t2 t3 ctx' s sconn rnd2 =
              (NewConnection d \<lparr>md_UserUUID = uuid, md_Destination = canon dst, md_Source = nc_raddr sconn\<rparr>, s', r3) \<and>
            nc_out (lf_c (ss_tr (sc_stream d))) = nc_out sconn @ lf_enc out \<and>
            conn_read_full lf_transport C (length (concat (map conn_op_bytes ops))) d =
              Some (Inr (concat (map conn_op_bytes ops)), d')))"
      by (rule exI, rule conjI, rule c(1), rule conjI, simp add: new_streamConn_def c(3), intro allI impI, elim conjE,
          rule tcp_served [OF honest_pair_facts(1) [OF assms] f d(2) m]; assumption)
  qed
qed

lemma usable_write:
  assumes "usable 65536 (sc_stream c)"
  shows "\<exists>c' r'. conn_ops lf_transport toy_crypto (\<lambda>_ _. 0) c [OpWrite [1, 2, 3]] (replicate 5000 0) = (None, c', r')"
proof -
  obtain s' r' where "sendFrame lf_transport toy_crypto 0 (sc_stream c) FrameTCPData [] [1, 2, 3] (-1) (replicate 5000 0) = (None, s', r')"
    using sendFrame_lf [OF toy_aead_ok, of "sc_stream c" FrameTCPData "[]" "[1, 2, 3]" "replicate 5000 0" 0] assms
    by (auto simp: FrameType_Valid_def lf_open_def usable_def)
  then show ?thesis
    by (simp add: streamConn_Write_def write_loop.simps SendTCPData_def ewp_consts maxPayload_def)
qed

lemma toy_admits: "conn_admits ctx (toy_conn b)"
  by (cases ctx) (simp_all add: conn_admits_def conn_on_time_def)

theorem tcp_end_to_end_witness:
  "\<exists>s cconn c rnd' c' r' sconn d meta s' r3 d'. service_reach toy_crypto s \<and>
     DialConn toy_crypto 1000 1005 (Some 5000) \<lparr>cl_uuid = toy_uuid\<rparr> cconn (Address_zero\<lparr>addr_Domain := [97, 98], addr_Port := 443\<rparr>)
       (replicate 2000 0) = (Inr c, rnd') \<and>
     conn_ops lf_transport toy_crypto (\<lambda>_ _. 0) c [OpWrite [1, 2, 3]] (replicate 5000 0) = (None, c', r') \<and>
     HandleConn toy_crypto 1010 1010 1011 None s sconn (replicate 200 7) = (NewConnection d meta, s', r3) \<and>
     conn_read_full lf_transport toy_crypto (length [1, 2, 3 :: byte]) d = Some (Inr [1, 2, 3], d') \<and>
     nc_in sconn = nc_out (lf_c (ss_tr (sc_stream c'))) \<and> nc_in cconn = nc_out (lf_c (ss_tr (sc_stream d)))"
proof -
  obtain s msg rnd' where h: "honest_pair toy_crypto 1000 1010 1010 1011 1005 toy_uuid CommandTCP
      (Address_zero\<lparr>addr_Domain := [97, 98], addr_Port := 443\<rparr>) (replicate 2000 0) rnd' msg s (replicate 200 7)"
    by (rule toy_pair [of CommandTCP]) simp_all
  have s: "service_reach toy_crypto s" using h by (simp add: honest_pair_def)
  show ?thesis
  proof (rule exE [OF tcp_end_to_end [OF h]], goal_cases)
    case (1 ans)
    have p: "conn_admits (Some 5000) (toy_conn ans) \<and> 3000 \<le> nc_room (toy_conn ans) \<and> nc_out (toy_conn ans) = [] \<and>
        nc_in (toy_conn ans) = ans @ []"
      by (simp add: toy_admits)
    show ?case
    proof (rule exE [OF 1 [THEN spec, THEN spec, THEN spec, THEN mp, OF p]], goal_cases)
      case (1 c)
      note c = 1 [THEN conjunct1] and c' = 1 [THEN conjunct2]
      obtain c' r' where w: "conn_ops lf_transport toy_crypto (\<lambda>_ _. 0) c [OpWrite [1, 2, 3]] (replicate 5000 0) = (None, c', r')"
        using usable_write [of c] c' [THEN conjunct1] by (auto simp: usable_def)
      let ?sc = "toy_conn (nc_out (lf_c (ss_tr (sc_stream c'))))"
      have q: "conn_ops lf_transport toy_crypto (\<lambda>_ _. 0) c [OpWrite [1, 2, 3]] (replicate 5000 0) = (None, c', r') \<and>
          conn_admits None ?sc \<and> 3000 \<le> nc_room ?sc \<and> nc_in ?sc = nc_out (lf_c (ss_tr (sc_stream c'))) @ []"
        using w by (simp add: toy_admits)
      note h = c' [THEN conjunct2, THEN spec, THEN spec, THEN spec, THEN spec, THEN spec, THEN spec, THEN spec, THEN spec, THEN mp, OF q]
      obtain d meta s' r3 d' where d: "HandleConn toy_crypto 1010 1010 1011 None s ?sc (replicate 200 7) = (NewConnection d meta, s', r3)"
        "nc_out (lf_c (ss_tr (sc_stream d))) = ans" "conn_read_full lf_transport toy_crypto (length [1, 2, 3 :: byte]) d = Some (Inr [1, 2, 3], d')"
        using h by auto
      show ?case
        by (intro exI conjI, rule s, rule c, rule w, rule d(1), rule d(3)) (simp_all add: d(2))
    qed
  qed
qed

text \<open>
  C14: The answers of a TCP tunnel come back. Let a client and a service fit. With the client's hello on the
  server's connection, in time for its deadline, \<^verbatim>\<open>HandleConn\<close> calls the handler with an open tunnel; and
  with all the server has put on its connection (the answer to the hello, then what the
  handler has sent by any successful calls of \<^verbatim>\<open>Write\<close>, pings, pongs and cover frames) on the
  client's, \<^verbatim>\<open>DialConn\<close> succeeds, and the client's \<^verbatim>\<open>Read\<close>s return exactly the bytes the
  handler wrote.
\<close>
theorem tcp_replies_end_to_end:
  assumes "honest_pair C t0 t1 t2 t3 t4 uuid CommandTCP dst rnd rnd' msg s rnd2"
    and "conn_admits ctx sconn" and "3000 \<le> nc_room sconn" and "nc_out sconn = []" and "nc_in sconn = lf_enc msg @ rest"
  shows "\<exists>d meta s' r3. HandleConn C t1 t2 t3 ctx s sconn rnd2 = (NewConnection d meta, s', r3) \<and>
    usable (nc_room sconn - 3000) (sc_stream d) \<and>
    (\<forall>now ops r d' r' ctx' cconn rest'. conn_ops lf_transport C now d ops r = (None, d', r') \<and>
       conn_admits ctx' cconn \<and> 3000 \<le> nc_room cconn \<and> nc_in cconn = nc_out (lf_c (ss_tr (sc_stream d'))) @ rest' \<longrightarrow>
       (\<exists>c c'. DialConn C t0 t4 ctx' \<lparr>cl_uuid = uuid\<rparr> cconn dst rnd = (Inr c, rnd') \<and>
          nc_out (lf_c (ss_tr (sc_stream c))) = nc_out cconn @ lf_enc msg \<and>
          conn_read_full lf_transport C (length (concat (map conn_op_bytes ops))) c =
            Some (Inr (concat (map conn_op_bytes ops)), c')))"
proof (rule handshake_completes [OF assms(1)])
  fix out ch fc fs
  assume f: "wf_fa fc" "wf_fa fs" "ch_UUID ch = uuid" "ch_Command ch = CommandTCP" "ch_Address ch = canon dst"
    and d: "dials C t0 t4 uuid CommandTCP dst rnd rnd' fc fs msg out" "serves C t1 t2 t3 s rnd2 ch fc fs msg out"
  obtain trs s' r3 where h: "HandleConn C t1 t2 t3 ctx s sconn rnd2 =
      (serve_command lf_transport C (Some lf_underlying) ch (new_stream trs fs fc), s', r3)"
    "moved (NewLengthFramer sconn) out rest trs"
    by (rule serves_HandleConn [OF d(2) assms(2,3,5)])
  have t: "lf_out trs = lf_enc out" "usable (nc_room sconn - 3000) (sc_stream (new_streamConn (new_stream trs fs fc)))"
    using h(2) assms(4) f(2)
    by (auto simp: moved_def lf_out_def NewLengthFramer_def usable_def new_streamConn_def new_stream_def lf_open_def)
  show ?thesis
    by (rule exI, rule exI, rule exI, rule exI, rule conjI, rule h(1) [unfolded serve_tcp [OF f(3-5) h(2)]], rule conjI, rule t(2),
        intro allI impI, elim conjE, rule tcp_answered [OF honest_pair_facts(1) [OF assms(1)] f(1,2) d(1) t(1)]; assumption)
qed

theorem tcp_replies_end_to_end_witness:
  "\<exists>s sconn d meta s' r3 d' r' cconn c rnd' c'.
     HandleConn toy_crypto 1010 1010 1011 None s sconn (replicate 200 7) = (NewConnection d meta, s', r3) \<and>
     conn_ops lf_transport toy_crypto (\<lambda>_ _. 0) d [OpWrite [1, 2, 3]] (replicate 5000 0) = (None, d', r') \<and>
     DialConn toy_crypto 1000 1005 (Some 5000) \<lparr>cl_uuid = toy_uuid\<rparr> cconn (Address_zero\<lparr>addr_Domain := [97, 98], addr_Port := 443\<rparr>)
       (replicate 2000 0) = (Inr c, rnd') \<and>
     conn_read_full lf_transport toy_crypto (length [1, 2, 3 :: byte]) c = Some (Inr [1, 2, 3], c') \<and>
     nc_in cconn = nc_out (lf_c (ss_tr (sc_stream d')))"
proof -
  obtain s msg rnd' where h: "honest_pair toy_crypto 1000 1010 1010 1011 1005 toy_uuid CommandTCP
      (Address_zero\<lparr>addr_Domain := [97, 98], addr_Port := 443\<rparr>) (replicate 2000 0) rnd' msg s (replicate 200 7)"
    by (rule toy_pair [of CommandTCP]) simp_all
  show ?thesis
  proof (rule tcp_replies_end_to_end [OF h, of None "toy_conn (lf_enc msg)" "[]", THEN exE], goal_cases)
    case (5 d)
    then show ?case
    proof (elim exE conjE, goal_cases)
      case (1 meta s' r3)
      obtain d' r' where w: "conn_ops lf_transport toy_crypto (\<lambda>_ _. 0) d [OpWrite [1, 2, 3]] (replicate 5000 0) = (None, d', r')"
        using usable_write [of d] 1(2) by (auto simp: usable_def)
      let ?cc = "toy_conn (nc_out (lf_c (ss_tr (sc_stream d'))))"
      have q: "conn_ops lf_transport toy_crypto (\<lambda>_ _. 0) d [OpWrite [1, 2, 3]] (replicate 5000 0) = (None, d', r') \<and>
          conn_admits (Some 5000) ?cc \<and> 3000 \<le> nc_room ?cc \<and> nc_in ?cc = nc_out (lf_c (ss_tr (sc_stream d'))) @ []"
        using w by (simp add: toy_admits)
      note c = 1(3) [THEN spec, THEN spec, THEN spec, THEN spec, THEN spec, THEN spec, THEN spec, THEN spec, THEN mp, OF q]
      obtain c c' where c: "DialConn toy_crypto 1000 1005 (Some 5000) \<lparr>cl_uuid = toy_uuid\<rparr> ?cc (Address_zero\<lparr>addr_Domain := [97, 98], addr_Port := 443\<rparr>)
          (replicate 2000 0) = (Inr c, rnd')"
        "conn_read_full lf_transport toy_crypto (length [1, 2, 3 :: byte]) c = Some (Inr [1, 2, 3], c')"
        using c by auto
      show ?case
        by (intro exI conjI, rule 1(1), rule w, rule c(1), rule c(2)) simp
    qed
  qed (simp_all add: toy_admits)
qed

text \<open>
  C2: A UDP tunnel works from end to end. Let a client and a service fit. Then there is an answer such
  that \<^verbatim>\<open>DialPacketConn\<close> succeeds on it; and with the hello and any datagrams written to the
  packet connection without error before the server, the first of them not empty,
  \<^verbatim>\<open>HandleConn\<close> calls the handler with this user and this destination, and the handler's
  \<^verbatim>\<open>ReadFrom\<close>s return all datagrams in order: the first with the dialled destination, whatever
  target it was written to, the others with their own targets.
\<close>
theorem udp_end_to_end:
  assumes "honest_pair C t0 t1 t2 t3 t4 uuid CommandUDP dst rnd rnd' msg s rnd2" and "8 \<le> length rnd'"
  shows "\<exists>ans. \<forall>ctx cconn rest. conn_admits ctx cconn \<and> 3000 \<le> nc_room cconn \<and> nc_out cconn = [] \<and> nc_in cconn = ans @ rest \<longrightarrow>
    (\<exists>p rnd''. DialPacketConn C t0 t4 ctx \<lparr>cl_uuid = uuid\<rparr> cconn dst rnd = (Inr p, rnd'') \<and> usable (nc_room cconn - 3000) (pc_stream p) \<and>
      pc_defaultDst p = dst \<and> \<not> pc_isServer p \<and> \<not> pc_opened p \<and> length (pc_globalID p) = 8 \<and>
      (\<forall>now x a ds r p' r' ctx' sconn rest' n. x \<noteq> [] \<and> (\<forall>d \<in> set ds. wf_Address (snd d)) \<and>
         write_datagrams lf_transport C now p ((x, a) # ds) r = (None, p', r') \<and>
         conn_admits ctx' sconn \<and> 3000 \<le> nc_room sconn \<and> nc_in sconn = nc_out (lf_c (ss_tr (pc_stream p'))) @ rest' \<longrightarrow>
         (\<exists>q s' r3 q'. HandleConn C t1 t2 t3 ctx' s sconn rnd2 =
              (NewPacketConnection q \<lparr>md_UserUUID = uuid, md_Destination = canon dst, md_Source = nc_raddr sconn\<rparr>, s', r3) \<and>
            read_datagrams lf_transport C n (Suc (length ds)) q = Some (Inr ((take n x, ewpToNetAddr (canon dst)) #
              map (\<lambda>d. (take n (fst d), ewpToNetAddr (if has_target (snd d) then canon (snd d) else canon dst))) ds), q'))))"
proof (rule handshake_completes [OF assms(1)])
  fix out ch fc fs
  assume f: "wf_fa fc" "ch_UUID ch = uuid" "ch_Command ch = CommandUDP" "ch_Address ch = canon dst"
    and d: "dials C t0 t4 uuid CommandUDP dst rnd rnd' fc fs msg out" "serves C t1 t2 t3 s rnd2 ch fc fs msg out"
  show ?thesis
  proof (intro exI [of _ "lf_enc out"] allI impI, elim conjE)
    fix ctx and cconn :: net_conn and rest
    assume cc: "conn_admits ctx cconn" "3000 \<le> nc_room cconn" "nc_out cconn = []" "nc_in cconn = lf_enc out @ rest"
    obtain p tr rnd'' where p: "DialPacketConn C t0 t4 ctx \<lparr>cl_uuid = uuid\<rparr> cconn dst rnd = (Inr p, rnd'')" "lf_out tr = lf_enc msg"
      "pc_stream p = new_stream tr fc fs" "pc_defaultDst p = dst" "\<not> pc_isServer p" "\<not> pc_opened p" "length (pc_globalID p) = 8"
      "usable (nc_room cconn - 3000) (pc_stream p)"
      using dials_DialPacketConn [OF d(1) assms(2) cc(1,2,4,3)] f(1) by blast
    show "\<exists>p rnd''. DialPacketConn C t0 t4 ctx \<lparr>cl_uuid = uuid\<rparr> cconn dst rnd = (Inr p, rnd'') \<and> usable (nc_room cconn - 3000) (pc_stream p) \<and>
      pc_defaultDst p = dst \<and> \<not> pc_isServer p \<and> \<not> pc_opened p \<and> length (pc_globalID p) = 8 \<and>
      (\<forall>now x a ds r p' r' ctx' sconn rest' n. x \<noteq> [] \<and> (\<forall>d \<in> set ds. wf_Address (snd d)) \<and>
         write_datagrams lf_transport C now p ((x, a) # ds) r = (None, p', r') \<and>
         conn_admits ctx' sconn \<and> 3000 \<le> nc_room sconn \<and> nc_in sconn = nc_out (lf_c (ss_tr (pc_stream p'))) @ rest' \<longrightarrow>
         (\<exists>q s' r3 q'. HandleConn C t1 t2 t3 ctx' s sconn rnd2 =
              (NewPacketConnection q \<lparr>md_UserUUID = uuid, md_Destination = canon dst, md_Source = nc_raddr sconn\<rparr>, s', r3) \<and>
            read_datagrams lf_transport C n (Suc (length ds)) q = Some (Inr ((take n x, ewpToNetAddr (canon dst)) #
              map (\<lambda>d. (take n (fst d), ewpToNetAddr (if has_target (snd d) then canon (snd d) else canon dst))) ds), q')))"
      by (rule exI, rule exI, rule conjI, rule p(1), rule conjI, rule p(8), (rule conjI, rule p)+, intro allI impI, elim conjE,
          rule udp_served [OF honest_pair_facts(1) [OF assms(1)] f d(2) p(2) honest_pair_facts(2) [OF assms(1)] p(3-7)]; assumption)
  qed
qed

lemma usable_datagram:
  assumes "usable 65536 (pc_stream p)" and "\<not> pc_isServer p" and "\<not> pc_opened p" and "length (pc_globalID p) = 8"
    and "encodable (pc_defaultDst p)"
  shows "\<exists>p' r'. write_datagrams lf_transport toy_crypto (\<lambda>_. 0) p [([1, 2, 3], Address_zero)] (replicate 5000 0) = (None, p', r')"
proof -
  have a: "has_target (pc_defaultDst p)" "wf_Address (pc_defaultDst p)"
    using assms(5) by (auto simp: encodable_def has_target_def split: if_splits)
  then obtain meta where m: "buildUDPMeta (pc_globalID p) (pc_defaultDst p) = Inr meta"
    using Append_enc_addr [OF assms(5), of "pc_globalID p"] EncodedLen_bounds [OF assms(5)] length_enc_addr [OF assms(5)] assms(4)
    by (auto simp: buildUDPMeta_def has_target_def ewp_consts)
  then obtain s' r' where "sendFrame lf_transport toy_crypto 0 (pc_stream p) FrameUDPNew meta [1, 2, 3] (-1) (replicate 5000 0) = (None, s', r')"
    using sendFrame_lf [OF toy_aead_ok, of "pc_stream p" FrameUDPNew meta "[1, 2, 3]" "replicate 5000 0" 0] assms(1)
      udp_meta_roundtrip [OF assms(4) a(2) m]
    by (auto simp: FrameType_Valid_def lf_open_def usable_def)
  with m assms(2,3) show ?thesis
    by (simp add: WriteToAddress_def write_seen_def ensureOpen_def SendUDPNew_def send_udp_meta_def)
qed

theorem udp_end_to_end_witness:
  "\<exists>s cconn p rnd' p' r' sconn q meta s' r3 src q'. service_reach toy_crypto s \<and>
     DialPacketConn toy_crypto 1000 1005 None \<lparr>cl_uuid = toy_uuid\<rparr> cconn (Address_zero\<lparr>addr_Domain := [97, 98], addr_Port := 443\<rparr>)
       (replicate 2000 0) = (Inr p, rnd') \<and>
     write_datagrams lf_transport toy_crypto (\<lambda>_. 0) p [([1, 2, 3], Address_zero)] (replicate 5000 0) = (None, p', r') \<and>
     HandleConn toy_crypto 1010 1010 1011 (Some 5000) s sconn (replicate 200 7) = (NewPacketConnection q meta, s', r3) \<and>
     read_datagrams lf_transport toy_crypto 100 (Suc 0) q = Some (Inr [([1, 2, 3], src)], q') \<and>
     nc_in sconn = nc_out (lf_c (ss_tr (pc_stream p')))"
proof -
  obtain s msg rnd' where h: "honest_pair toy_crypto 1000 1010 1010 1011 1005 toy_uuid CommandUDP
      (Address_zero\<lparr>addr_Domain := [97, 98], addr_Port := 443\<rparr>) (replicate 2000 0) rnd' msg s (replicate 200 7)" "8 \<le> length rnd'"
    by (rule toy_pair [of CommandUDP]) simp_all
  have s: "service_reach toy_crypto s" using h(1) by (simp add: honest_pair_def)
  show ?thesis
  proof (rule exE [OF udp_end_to_end [OF h]], goal_cases)
    case (1 ans)
    have p: "conn_admits None (toy_conn ans) \<and> 3000 \<le> nc_room (toy_conn ans) \<and> nc_out (toy_conn ans) = [] \<and>
        nc_in (toy_conn ans) = ans @ []"
      by (simp add: toy_admits)
    show ?case
    proof (rule exE [OF 1 [THEN spec, THEN spec, THEN spec, THEN mp, OF p]], elim exE conjE, goal_cases)
      case (1 p rnd'')
      obtain p' r' where w: "write_datagrams lf_transport toy_crypto (\<lambda>_. 0) p [([1, 2, 3], Address_zero)] (replicate 5000 0) = (None, p', r')"
        using usable_datagram [of p] 1(2-6) toy_addr(1) by (auto simp: usable_def simp del: write_datagrams.simps)
      let ?sc = "toy_conn (nc_out (lf_c (ss_tr (pc_stream p'))))"
      have x: "[1, 2, 3 :: byte] \<noteq> [] \<and> (\<forall>d \<in> set []. wf_Address (snd d)) \<and>
          write_datagrams lf_transport toy_crypto (\<lambda>_. 0) p (([1, 2, 3], Address_zero) # []) (replicate 5000 0) = (None, p', r') \<and>
          conn_admits (Some 5000) ?sc \<and> 3000 \<le> nc_room ?sc \<and> nc_in ?sc = nc_out (lf_c (ss_tr (pc_stream p'))) @ []"
        using w by (simp add: toy_admits del: write_datagrams.simps)
      note h = 1(7) [THEN spec, THEN spec, THEN spec, THEN spec, THEN spec, THEN spec, THEN spec, THEN spec, THEN spec, THEN spec,
          THEN spec, THEN mp, OF x, of 100]
      obtain q meta s' r3 src q' where q: "HandleConn toy_crypto 1010 1010 1011 (Some 5000) s ?sc (replicate 200 7) = (NewPacketConnection q meta, s', r3)"
        "read_datagrams lf_transport toy_crypto 100 (Suc 0) q = Some (Inr [([1, 2, 3], src)], q')"
        using h by (auto simp del: read_datagrams.simps)
      show ?case
        by (intro exI conjI, rule s, rule 1(1), rule w, rule q(1), rule q(2)) simp
    qed
  qed
qed

lemma ReadMessage_silent:
  assumes "lf_open f" and "lf_in f = []" and "nc_silent (lf_c f)" and "nc_rdl (lf_c f) = \<infinity>"
  obtains f' where "LengthFramer_ReadMessage f = (Inl ErrDeadlineExceeded, f')" "lf_clock f' = \<infinity>"
proof -
  obtain ok c1 where w: "conn_wait (nc_rdl (lf_c f)) (lf_c f) = (ok, c1)" by (metis prod.exhaust)
  note k = conn_wait_facts(5) [OF w] conn_wait_same [OF w]
  have "conn_ReadFull 4 (lf_c f) = (Inl ErrDeadlineExceeded, c1\<lparr>nc_in := [], nc_clock := \<infinity>\<rparr>)"
    using assms w k by (simp add: conn_ReadFull_def io_ReadFull_def lf_open_def lf_in_def conn_ready_def conn_same_def)
  then show thesis
    by (intro that [of "f\<lparr>lf_c := c1\<lparr>nc_in := [], nc_clock := \<infinity>\<rparr>\<rparr>"]) (simp_all add: LengthFramer_ReadMessage_def lf_clock_def)
qed

text \<open>
  C38: The deadline does not bound the wait for the first datagram. When a client that fits the service has sent
  its UDP hello and then stays silent without closing, which is what \<^verbatim>\<open>DialPacketConn\<close> does until
  the application writes, \<^verbatim>\<open>HandleConn\<close> completes the handshake in time and then waits for ever,
  whatever deadline its context has: the deadline has been cleared before the frame is read.
\<close>
theorem udp_wait_unbounded:
  assumes "honest_pair C t0 t1 t2 t3 t4 uuid CommandUDP dst rnd rnd' msg s rnd2"
    and "conn_admits ctx sconn" and "3000 \<le> nc_room sconn" and "nc_in sconn = lf_enc msg" and "nc_silent sconn"
  shows "\<exists>err f s' r3. HandleConn C t1 t2 t3 ctx s sconn rnd2 = (Refused err f, s', r3) \<and> nc_clock (lf_c f) = \<infinity>"
proof (rule handshake_completes [OF assms(1)])
  fix out ch fc fs
  assume f: "ch_UUID ch = uuid" "ch_Command ch = CommandUDP" "ch_Address ch = canon dst"
    and d: "serves C t1 t2 t3 s rnd2 ch fc fs msg out"
  have "nc_in sconn = lf_enc msg @ []" using assms(4) by simp
  then obtain trs s' r3 where h: "HandleConn C t1 t2 t3 ctx s sconn rnd2 =
      (serve_command lf_transport C (Some lf_underlying) ch (new_stream trs fs fc), s', r3)"
    "moved (NewLengthFramer sconn) out [] trs" "nc_rdl (lf_c trs) = \<infinity>"
    by (rule serves_HandleConn [OF d assms(2,3)])
  have "lf_open trs" "lf_in trs = []" "nc_silent (lf_c trs)"
    using h(2) assms(5) by (simp_all add: moved_def NewLengthFramer_def)
  then obtain f' where r: "LengthFramer_ReadMessage trs = (Inl ErrDeadlineExceeded, f')" "lf_clock f' = \<infinity>"
    using ReadMessage_silent [OF _ _ _ h(3)] by blast
  define s1 where "s1 = (new_stream trs fs fc)\<lparr>ss_tr := f'\<rparr>"
  have R: "Recv lf_transport C (new_stream trs fs fc) = (Inl ErrDeadlineExceeded, closeUnderlying lf_transport s1)"
    using r(1) by (simp add: Recv_def s1_def new_stream_def) (simp add: lf_transport_def)
  have "lf_clock (ss_tr (snd (SecureStream_Close lf_transport (closeUnderlying lf_transport s1)))) = \<infinity>"
    using r(2) by (simp add: closeUnderlying_def lf_Close_clock s1_def)
  with h(1) R f(2) show ?thesis
    by (simp add: serve_command_def lf_clock_def CommandTCP_def CommandUDP_def)
qed

theorem udp_wait_unbounded_witness:
  "\<exists>s sconn err f s' r3. HandleConn toy_crypto 1010 1010 1011 (Some 5000) s sconn (replicate 200 7) = (Refused err f, s', r3) \<and>
     nc_clock (lf_c f) = \<infinity>"
proof -
  obtain s msg rnd' where h: "honest_pair toy_crypto 1000 1010 1010 1011 1005 toy_uuid CommandUDP
      (Address_zero\<lparr>addr_Domain := [97, 98], addr_Port := 443\<rparr>) (replicate 2000 0) rnd' msg s (replicate 200 7)"
    by (rule toy_pair [of CommandUDP]) simp_all
  have "conn_admits (Some 5000) ((toy_conn (lf_enc msg))\<lparr>nc_silent := True\<rparr>)"
    by (simp add: conn_admits_def conn_on_time_def)
  from udp_wait_unbounded [OF h this] show ?thesis by simp blast
qed

end
